(* ===== verification/Prelude.thy ===== *)
theory Prelude
  imports Main "HOL-Library.Word"
begin

unbundle bit_operations_syntax

text \<open>
  What every component shares: Go's machine integers, byte slices, strings and error
  values, fmt's \<^verbatim>\<open>%d\<close>, which more than one package uses, and the generic list, map and word lemmas of the proofs.
  Go's \<open>uint32\<close> and \<open>uint64\<close> are words, so \<open>+\<close> wraps as it does in the code. Go's
  \<open>int\<close> is 64 bits on the supported targets: it is a HOL \<open>int\<close> where it only names
  things (node identifiers, \<open>-1\<close> for "none") and a \<open>goint\<close> (read with \<open>sint\<close>) where
  the code converts a \<open>uint64\<close> to it. A Go string is a byte sequence, so it is a HOL
  \<open>string\<close>, whose characters are bytes.
\<close>

type_synonym byte = "8 word"
type_synonym bytes = "byte list"
type_synonym uint32 = "32 word"
type_synonym uint64 = "64 word"
type_synonym goint = "64 word"
type_synonym gostring = string

text \<open>Go's \<open>error\<close> values: a message built by fmt.Errorf, the two end-of-input values of
  package io, and a failure of the operating system's file operations.\<close>

datatype error = Errorf string | EOF | UnexpectedEOF | FileError

named_theorems wal_defs \<open>definitions of the write-ahead log\<close>
named_theorems store_defs \<open>definitions of the key-value store\<close>
named_theorems raft_defs \<open>definitions of the Raft handlers\<close>

section \<open>Results\<close>

fun isOk :: "error + 'a \<Rightarrow> bool" where
  "isOk (Inl e) = False"
| "isOk (Inr a) = True"

lemma isOk_iff: "isOk x \<longleftrightarrow> (\<exists>a. x = Inr a)"
  by (cases x) auto

section \<open>Strings and byte slices\<close>

definition bytesOf :: "gostring \<Rightarrow> bytes" where
  "bytesOf s = map of_char s"

definition stringOf :: "bytes \<Rightarrow> gostring" where
  "stringOf bs = map (\<lambda>b. char_of (unat b)) bs"

lemma stringOf_bytesOf [simp]: "stringOf (bytesOf s) = s"
proof -
  have "char_of (unat (of_char c :: byte)) = c" for c
  proof -
    have "(of_char c :: byte) = word_of_nat (of_char c)"
      by (simp only: of_nat_of_char)
    then have "unat (of_char c :: byte) = of_char c mod 256"
      by (simp only: unat_of_nat) simp
    then show ?thesis by simp
  qed
  then show ?thesis by (simp add: stringOf_def bytesOf_def comp_def)
qed

lemma length_bytesOf [simp]: "length (bytesOf s) = length s"
  by (simp add: bytesOf_def)

lemma bytesOf_Nil [simp]: "bytesOf [] = []"
  by (simp add: bytesOf_def)

lemma bytesOf_inject [simp]: "bytesOf s = bytesOf t \<longleftrightarrow> s = t"
  by (metis stringOf_bytesOf)

section \<open>Machine integers\<close>

text \<open>Reading back a length that fits 64 bits. The bound is the numeral the simplifier makes
  of \<open>2 ^ 64\<close>.\<close>

lemma unat64_of_nat [simp]:
  "n < 18446744073709551616 \<Longrightarrow> unat (word_of_nat n :: uint64) = n"
  by (simp add: unat_of_nat)

lemma uint64_eq_of_nat_iff:
  "n < 18446744073709551616 \<Longrightarrow> w = word_of_nat n \<longleftrightarrow> unat w = n" for w :: uint64
proof
  assume "unat w = n"
  then have "word_of_nat (unat w) = (word_of_nat n :: uint64)" by simp
  then show "w = word_of_nat n" by simp
qed simp

lemma unat_plus_one: "unat a + 1 < 18446744073709551616 \<Longrightarrow> unat (a + 1) = Suc (unat a)"
  for a :: uint64
  by (simp add: unat_word_ariths)

lemma unat_plus_one_less: "a < b \<Longrightarrow> unat (a + 1) = Suc (unat a)" for a b :: uint64
  using unsigned_less [of b, where ?'a = nat]
  by (intro unat_plus_one) (simp add: word_less_nat_alt)

text \<open>Go's signed comparison agrees with the unsigned one below \<open>2 ^ 63\<close>.\<close>

lemma sint_small:
  fixes a :: uint64
  assumes "unat a < 9223372036854775808"
  shows "sint a = uint a"
proof -
  have "uint a < 9223372036854775808"
    using assms unfolding uint_nat by linarith
  then have "uint a < 2 ^ 63" by simp
  moreover have "- (2 ^ 63) \<le> uint a"
    by (rule order_trans [OF _ unsigned_greater_eq]) simp
  ultimately have "signed_take_bit 63 (uint a) = uint a"
    by (rule signed_take_bit_int_eq_self [rotated])
  then show ?thesis by (simp add: sint_uint)
qed

lemma sless_small:
  fixes a b :: uint64
  assumes "unat a < 9223372036854775808" and "unat b < 9223372036854775808"
  shows "a <s b \<longleftrightarrow> unat a < unat b"
  by (simp only: word_sless_alt sint_small [OF assms(1)] sint_small [OF assms(2)]
      word_less_nat_alt [symmetric] word_less_def)

section \<open>Decimal numbers: fmt's \<^verbatim>\<open>%d\<close>\<close>

fun showNat :: "nat \<Rightarrow> string" where
  "showNat n = (if n < 10 then [char_of (48 + n)]
                else showNat (n div 10) @ [char_of (48 + n mod 10)])"

declare showNat.simps [simp del]

definition showInt :: "int \<Rightarrow> string" where
  "showInt i = (if i < 0 then CHR ''-'' # showNat (nat (- i)) else showNat (nat i))"

end
