(* ===== verification/Crc32.thy ===== *)
theory Crc32
  imports Prelude
begin

text \<open>
  hash/crc32's ChecksumIEEE, the checksum of every record of the write-ahead log: the
  reflected polynomial \<open>0xEDB88320\<close>, one bit at a time, with the initial and final
  complement. The lemmas show that the register update is injective, so that two inputs
  that differ in one byte never have the same checksum.
\<close>

definition crcPoly :: uint32 where
  "crcPoly = 0xEDB88320"

definition crcBit :: "uint32 \<Rightarrow> uint32" where
  "crcBit c = (if bit c 0 then drop_bit 1 c XOR crcPoly else drop_bit 1 c)"

definition crcByte :: "uint32 \<Rightarrow> byte \<Rightarrow> uint32" where
  "crcByte c b = (crcBit ^^ 8) (c XOR ucast b)"

definition checksumIEEE :: "bytes \<Rightarrow> uint32" where
  "checksumIEEE bs = foldl crcByte 0xFFFFFFFF bs XOR 0xFFFFFFFF"

lemma xor_cancel_right: "c XOR x = d XOR x \<longleftrightarrow> c = d"
  for c d x :: "'a::len word"
  by (auto simp: bit_eq_iff bit_xor_iff)

lemma xor_cancel_left: "x XOR c = x XOR d \<longleftrightarrow> c = d"
  for c d x :: "'a::len word"
  by (auto simp: bit_eq_iff bit_xor_iff)

lemma ucast_byte_inject: "(ucast a :: uint32) = ucast b \<longleftrightarrow> a = b"
  for a b :: byte
proof
  assume "(ucast a :: uint32) = ucast b"
  then have "(ucast (ucast a :: uint32) :: byte) = ucast (ucast b :: uint32)" by simp
  then show "a = b" by (simp add: ucast_up_ucast_id is_up)
qed simp

lemma bit_crcPoly_31: "bit crcPoly 31"
  by (simp add: crcPoly_def)

text \<open>The bit shifted out can be read back from the top bit of the result.\<close>

lemma bit_crcBit_31: "bit (crcBit c) 31 \<longleftrightarrow> bit c 0"
proof -
  have "\<not> bit (drop_bit 1 c) 31"
    using bit_imp_le_length [of c 32] by (auto simp: bit_drop_bit_eq)
  then show ?thesis
    using bit_crcPoly_31 by (auto simp: crcBit_def bit_xor_iff)
qed

lemma crcBit_inject: "crcBit c = crcBit d \<longleftrightarrow> c = d"
proof
  assume eq: "crcBit c = crcBit d"
  then have low: "bit c 0 \<longleftrightarrow> bit d 0" by (metis bit_crcBit_31)
  have "drop_bit 1 c = drop_bit 1 d"
  proof (cases "bit c 0")
    case True
    with low eq have "drop_bit 1 c XOR crcPoly = drop_bit 1 d XOR crcPoly"
      by (simp add: crcBit_def)
    then show ?thesis by (simp only: xor_cancel_right)
  next
    case False
    with low eq show ?thesis by (simp add: crcBit_def)
  qed
  then have high: "bit c (Suc n) \<longleftrightarrow> bit d (Suc n)" for n
    by (metis bit_drop_bit_eq comp_apply plus_1_eq_Suc)
  show "c = d"
  proof (rule bit_eqI)
    fix n show "bit c n \<longleftrightarrow> bit d n" using low high by (cases n) auto
  qed
qed simp

lemma crcBit_funpow_inject: "(crcBit ^^ n) c = (crcBit ^^ n) d \<longleftrightarrow> c = d"
  by (induction n) (simp_all add: crcBit_inject)

lemma crcByte_inject_state: "crcByte c b = crcByte d b \<longleftrightarrow> c = d"
proof -
  have "c XOR ucast b = d XOR ucast b \<longleftrightarrow> c = d"
    by (rule xor_cancel_right)
  then show ?thesis by (simp add: crcByte_def crcBit_funpow_inject)
qed

lemma crcByte_inject_byte: "crcByte c a = crcByte c b \<longleftrightarrow> a = b"
proof -
  have "c XOR ucast a = c XOR ucast b \<longleftrightarrow> (ucast a :: uint32) = ucast b"
    by (rule xor_cancel_left)
  also have "\<dots> \<longleftrightarrow> a = b"
    by (rule ucast_byte_inject)
  finally show ?thesis by (simp add: crcByte_def crcBit_funpow_inject)
qed

lemma crc_fold_inject: "foldl crcByte c xs = foldl crcByte d xs \<longleftrightarrow> c = d"
  by (induction xs arbitrary: c d) (simp_all add: crcByte_inject_state)

lemma checksum_one_byte:
  "checksumIEEE (xs @ a # ys) = checksumIEEE (xs @ b # ys) \<longleftrightarrow> a = b"
proof -
  have "checksumIEEE (xs @ a # ys) = checksumIEEE (xs @ b # ys) \<longleftrightarrow>
        foldl crcByte (crcByte (foldl crcByte 0xFFFFFFFF xs) a) ys
      = foldl crcByte (crcByte (foldl crcByte 0xFFFFFFFF xs) b) ys"
    by (simp only: checksumIEEE_def foldl_append foldl.simps xor_cancel_right)
  then show ?thesis by (simp only: crc_fold_inject crcByte_inject_byte)
qed

text \<open>Evaluation on numerals, innermost first, and the check value of the IEEE polynomial,
  its checksum of the digits \<open>123456789\<close>.\<close>

lemma crcBit_numeral:
  "crcBit (numeral n) = (if odd (numeral n :: uint32)
     then drop_bit 1 (numeral n) XOR 0xEDB88320 else drop_bit 1 (numeral n))"
  by (simp add: crcBit_def crcPoly_def bit_0)

lemma crcByte_unfold:
  "crcByte c b = crcBit (crcBit (crcBit (crcBit
     (crcBit (crcBit (crcBit (crcBit (c XOR ucast b))))))))"
  by (simp add: crcByte_def eval_nat_numeral)

lemmas crc_eval = checksumIEEE_def bytesOf_def crcByte_unfold crcBit_numeral

lemma checksum_check_value: "checksumIEEE (bytesOf ''123456789'') = 0xCBF43926"
  by (simp add: crc_eval)

end
