(* ===== verification/Wal_Codec.thy ===== *)
theory Wal_Codec
  imports Crc32
begin

text \<open>
  The on-disk format of one record (\<^verbatim>\<open>Record.Encode\<close> and \<^verbatim>\<open>decodeRecord\<close> of
  internal/wal/wal.go): a 4-byte big-endian length, then the body (operation byte, key and
  value lengths, key, value) and the CRC-32 of the body. \<open>OpType\<close> is a byte that decoding
  does not restrict to the two named operations, so it is a \<open>byte\<close> here too.
\<close>

type_synonym OpType = byte

definition OpPut :: OpType where "OpPut = 0"
definition OpDelete :: OpType where "OpDelete = 1"

record Record =
  Op :: OpType
  Key :: bytes
  Value :: bytes

section \<open>encoding/binary, big-endian\<close>

definition putUint32 :: "uint32 \<Rightarrow> bytes" where
  "putUint32 v = [ucast (drop_bit 24 v), ucast (drop_bit 16 v), ucast (drop_bit 8 v), ucast v]"

fun getUint32 :: "bytes \<Rightarrow> uint32" where
  "getUint32 (b0 # b1 # b2 # b3 # bs) =
     push_bit 24 (ucast b0) OR push_bit 16 (ucast b1) OR push_bit 8 (ucast b2) OR ucast b3"
| "getUint32 bs = 0"

text \<open>binary.Write of a \<open>uint32\<close> to a bytes.Buffer appends its four bytes; writes to a
  buffer do not fail.\<close>

definition binaryWrite :: "bytes \<Rightarrow> uint32 \<Rightarrow> error + bytes" where
  "binaryWrite buf v = Inr (buf @ putUint32 v)"

lemma length_putUint32 [simp]: "length (putUint32 v) = 4"
  by (simp add: putUint32_def)

lemma putUint32_not_Nil [simp]: "putUint32 v \<noteq> []"
  by (simp add: putUint32_def)

lemma getUint32_putUint32 [simp]: "getUint32 (putUint32 v @ bs) = v"
proof (rule bit_eqI)
  fix n assume "possible_bit TYPE(uint32) n"
  then have n: "n < 32" by simp
  have *: "bit (getUint32 (putUint32 v @ bs)) n \<longleftrightarrow>
      24 \<le> n \<and> n - 24 < 8 \<and> bit v n
    \<or> 16 \<le> n \<and> n - 16 < 8 \<and> bit v n
    \<or> 8 \<le> n \<and> n - 8 < 8 \<and> bit v n \<or> n < 8 \<and> bit v n"
    using n by (auto simp: putUint32_def bit_or_iff bit_push_bit_iff bit_unsigned_iff bit_drop_bit_eq)
  consider "n < 8" | "8 \<le> n" "n < 16" | "16 \<le> n" "n < 24" | "24 \<le> n" by linarith
  then show "bit (getUint32 (putUint32 v @ bs)) n \<longleftrightarrow> bit v n"
    by cases (use n in \<open>auto simp add: *\<close>)
qed

lemma getUint32_putUint32_end [simp]: "getUint32 (putUint32 v) = v"
  using getUint32_putUint32 [of v "[]"] by simp

lemma putUint32_getUint32:
  assumes "length bs = 4" shows "putUint32 (getUint32 bs) = bs"
proof -
  from assms obtain b0 b1 b2 b3 where bs: "bs = [b0, b1, b2, b3]"
    by (auto simp: length_Suc_conv numeral_eq_Suc)
  have "ucast (drop_bit 24 (getUint32 bs)) = b0"
    by (rule bit_eqI) (auto simp: bs bit_or_iff bit_push_bit_iff bit_unsigned_iff bit_drop_bit_eq
        dest: bit_imp_le_length)
  moreover have "ucast (drop_bit 16 (getUint32 bs)) = b1"
    by (rule bit_eqI) (auto simp: bs bit_or_iff bit_push_bit_iff bit_unsigned_iff bit_drop_bit_eq
        dest: bit_imp_le_length)
  moreover have "ucast (drop_bit 8 (getUint32 bs)) = b2"
    by (rule bit_eqI) (auto simp: bs bit_or_iff bit_push_bit_iff bit_unsigned_iff bit_drop_bit_eq
        dest: bit_imp_le_length)
  moreover have "ucast (getUint32 bs) = b3"
    by (rule bit_eqI) (auto simp: bs bit_or_iff bit_push_bit_iff bit_unsigned_iff bit_drop_bit_eq
        dest: bit_imp_le_length)
  ultimately show ?thesis by (simp add: putUint32_def bs)
qed

section \<open>Encode\<close>

definition Encode :: "Record \<Rightarrow> error + bytes" where
  "Encode r =
    (let keyLen = word_of_nat (length (Key r));
         valueLen = word_of_nat (length (Value r));
         body0 = [Op r]
     in case binaryWrite body0 keyLen of Inl e \<Rightarrow> Inl e
      | Inr body1 \<Rightarrow> (case binaryWrite body1 valueLen of Inl e \<Rightarrow> Inl e
      | Inr body2 \<Rightarrow>
         let body = body2 @ Key r @ Value r;
             checksum = checksumIEEE body;
             len = word_of_nat (length body + 4)
         in case binaryWrite [] len of Inl e \<Rightarrow> Inl e
          | Inr rec0 \<Rightarrow> binaryWrite (rec0 @ body) checksum))"

text \<open>The body and the payload (what follows the length field) as functions of the record.\<close>

definition recordBody :: "Record \<Rightarrow> bytes" where
  "recordBody r = [Op r] @ putUint32 (word_of_nat (length (Key r)))
     @ putUint32 (word_of_nat (length (Value r))) @ Key r @ Value r"

definition recordPayload :: "Record \<Rightarrow> bytes" where
  "recordPayload r = recordBody r @ putUint32 (checksumIEEE (recordBody r))"

definition recordBytes :: "Record \<Rightarrow> bytes" where
  "recordBytes r = putUint32 (word_of_nat (length (recordPayload r))) @ recordPayload r"

lemma Encode_eq: "Encode r = Inr (recordBytes r)"
  by (simp add: Encode_def binaryWrite_def recordBytes_def recordPayload_def recordBody_def Let_def
      add.commute add.left_commute)

lemma length_recordBody: "length (recordBody r) = 9 + length (Key r) + length (Value r)"
  by (simp add: recordBody_def)

lemma length_recordPayload: "length (recordPayload r) = 13 + length (Key r) + length (Value r)"
  by (simp add: recordPayload_def length_recordBody)

lemma length_recordBytes: "length (recordBytes r) = 17 + length (Key r) + length (Value r)"
  by (simp add: recordBytes_def length_recordPayload)

lemma recordPayload_not_Nil [simp]: "recordPayload r \<noteq> []"
  using length_recordPayload [of r] by auto

text \<open>A record fits when its payload length is representable in the 32-bit length field.\<close>

definition recordFits :: "Record \<Rightarrow> bool" where
  "recordFits r \<longleftrightarrow> 13 + length (Key r) + length (Value r) < 2 ^ 32"

section \<open>decodeRecord\<close>

definition decodeRecord :: "bytes \<Rightarrow> error + Record" where
  "decodeRecord bs =
    (if length bs < 13 then Inl (Errorf ''record too small'')
     else let op = bs ! 0;
              keyLen = getUint32 (take 4 (drop 1 bs));
              valueLen = getUint32 (take 4 (drop 5 bs));
              expectedLen = 9 + uint keyLen + uint valueLen + 4
          in if int (length bs) \<noteq> expectedLen then Inl (Errorf ''invalid record length'')
     else let keyStart = 9;
              keyEnd = keyStart + unat keyLen;
              valueStart = keyEnd;
              valueEnd = valueStart + unat valueLen;
              key = take (keyEnd - keyStart) (drop keyStart bs);
              val = take (valueEnd - valueStart) (drop valueStart bs);
              storedChecksum = getUint32 (drop valueEnd bs);
              body = take valueEnd bs;
              calculatedChecksum = checksumIEEE body
          in if storedChecksum \<noteq> calculatedChecksum then Inl (Errorf ''checksum mismatch'')
     else Inr \<lparr>Op = op, Key = key, Value = val\<rparr>)"

text \<open>The decoder accepts exactly the payloads of records whose key and value lengths fit
  their 32-bit fields: what it returns encodes back to the bytes it was given.\<close>

definition lengthsFit :: "Record \<Rightarrow> bool" where
  "lengthsFit r \<longleftrightarrow> length (Key r) < 2 ^ 32 \<and> length (Value r) < 2 ^ 32"

lemma recordFits_lengthsFit: "recordFits r \<Longrightarrow> lengthsFit r"
  by (simp add: recordFits_def lengthsFit_def)

lemma unat_word_of_len: "n < 2 ^ 32 \<Longrightarrow> unat (word_of_nat n :: uint32) = n"
  by (simp add: unat_of_nat)

lemma unat_payload_length:
  "recordFits r \<Longrightarrow> unat (word_of_nat (length (recordPayload r)) :: uint32) = length (recordPayload r)"
  by (rule unat_word_of_len) (simp add: recordFits_def length_recordPayload)

lemma decodeRecord_payload:
  assumes "lengthsFit r"
  shows "decodeRecord (recordPayload r) = Inr r"
proof -
  let ?k = "word_of_nat (length (Key r)) :: uint32" and ?v = "word_of_nat (length (Value r)) :: uint32"
  have k: "unat ?k = length (Key r)" and v: "unat ?v = length (Value r)"
    using assms by (simp_all add: lengthsFit_def unat_word_of_len)
  have uk: "uint ?k = int (length (Key r))" and uv: "uint ?v = int (length (Value r))"
    by (simp_all only: uint_nat k v)
  have op: "recordPayload r ! 0 = Op r"
    by (simp add: recordPayload_def recordBody_def)
  have f1: "getUint32 (take 4 (drop 1 (recordPayload r))) = ?k"
    using getUint32_putUint32 [of ?k "[]"] by (simp add: recordPayload_def recordBody_def)
  have f2: "getUint32 (take 4 (drop 5 (recordPayload r))) = ?v"
    using getUint32_putUint32 [of ?v "[]"] by (simp add: recordPayload_def recordBody_def)
  have key: "take (length (Key r)) (drop 9 (recordPayload r)) = Key r"
    by (simp add: recordPayload_def recordBody_def)
  have d9: "drop 9 (recordPayload r) = Key r @ Value r @ putUint32 (checksumIEEE (recordBody r))"
    by (simp add: recordPayload_def recordBody_def)
  have "drop (9 + length (Key r)) (recordPayload r) = drop (length (Key r)) (drop 9 (recordPayload r))"
    by (simp only: drop_drop add.commute)
  then have val: "take (length (Value r)) (drop (9 + length (Key r)) (recordPayload r)) = Value r"
    by (simp add: d9)
  have body: "take (9 + length (Key r) + length (Value r)) (recordPayload r) = recordBody r"
    by (simp add: recordPayload_def length_recordBody)
  have crc: "getUint32 (drop (9 + length (Key r) + length (Value r)) (recordPayload r))
      = checksumIEEE (recordBody r)"
    using getUint32_putUint32 [of "checksumIEEE (recordBody r)" "[]"]
    by (simp add: recordPayload_def length_recordBody)
  show ?thesis
    by (simp add: decodeRecord_def Let_def f1 [unfolded One_nat_def] f2 op k v uk uv key val body crc
        length_recordPayload)
qed

lemma take_body_fields:
  "take (9 + k + v) bs = take 1 bs @ take 4 (drop 1 bs) @ take 4 (drop 5 bs)
     @ take k (drop 9 bs) @ take v (drop (9 + k) bs)"
proof -
  have "take 9 bs = take 1 bs @ take 4 (drop 1 bs) @ take 4 (drop 5 bs)"
    using take_add [of 5 4 bs] take_add [of 1 4 bs] by simp
  then show ?thesis by (simp only: take_add append_assoc)
qed

lemma decodeRecord_sound:
  assumes "decodeRecord bs = Inr r"
  shows "bs = recordPayload r \<and> lengthsFit r"
proof -
  define k where "k = getUint32 (take 4 (drop 1 bs))"
  define v where "v = getUint32 (take 4 (drop 5 bs))"
  from assms have len: "int (length bs) = 13 + uint k + uint v"
    and r: "r = \<lparr>Op = bs ! 0, Key = take (unat k) (drop 9 bs),
                  Value = take (unat v) (drop (9 + unat k) bs)\<rparr>"
    and crc: "getUint32 (drop (9 + unat k + unat v) bs) = checksumIEEE (take (9 + unat k + unat v) bs)"
    by (auto simp: decodeRecord_def Let_def k_def v_def split: if_splits)
  have len': "length bs = 13 + unat k + unat v"
    using len unfolding uint_nat by linarith
  have lk: "length (Key r) = unat k" and lv: "length (Value r) = unat v"
    using len' by (simp_all add: r)
  have fits: "lengthsFit r"
    using lk lv unsigned_less [of k] unsigned_less [of v] by (simp add: lengthsFit_def)
  have l13: "13 \<le> length bs"
    using len' by simp
  have b1: "take 1 bs = [Op r]"
    using l13 by (cases bs) (auto simp: r)
  have b2: "take 4 (drop 1 bs) = putUint32 k" and b3: "take 4 (drop 5 bs) = putUint32 v"
    using l13 by (simp_all add: k_def v_def putUint32_getUint32)
  have body: "take (9 + unat k + unat v) bs = recordBody r"
    unfolding take_body_fields b1 b2 b3 recordBody_def lk lv by (simp add: r)
  have split: "bs = recordBody r @ drop (9 + unat k + unat v) bs"
    by (metis append_take_drop_id body)
  have "drop (9 + unat k + unat v) bs = putUint32 (checksumIEEE (recordBody r))"
    using crc body len' putUint32_getUint32 [of "drop (9 + unat k + unat v) bs"] by simp
  with split fits show ?thesis by (simp add: recordPayload_def)
qed

section \<open>Properties of the codec\<close>

text \<open>C23. Round trip: what Encode writes for a record that fits the 32-bit length field is a
  length prefix that counts the bytes after it, and decodeRecord reads those bytes back as
  the record.\<close>

theorem decode_encode_roundtrip:
  assumes "recordFits r" and "Encode r = Inr bs"
  shows "unat (getUint32 bs) = length (drop 4 bs) \<and> decodeRecord (drop 4 bs) = Inr r"
proof -
  have bs: "bs = putUint32 (word_of_nat (length (recordPayload r))) @ recordPayload r"
    using assms(2) by (simp add: Encode_eq recordBytes_def)
  have "length (recordPayload r) < 2 ^ 32"
    using assms(1) by (simp add: recordFits_def length_recordPayload)
  then show ?thesis
    using decodeRecord_payload [OF recordFits_lengthsFit [OF assms(1)]]
    by (simp only: bs getUint32_putUint32 unat_word_of_len) simp
qed

lemma decode_encode_roundtrip_witness:
  "decodeRecord (drop 4 (recordBytes \<lparr>Op = OpPut, Key = bytesOf ''name'', Value = bytesOf ''Abhay''\<rparr>))
     = Inr \<lparr>Op = OpPut, Key = bytesOf ''name'', Value = bytesOf ''Abhay''\<rparr>"
  using decode_encode_roundtrip
    [of "\<lparr>Op = OpPut, Key = bytesOf ''name'', Value = bytesOf ''Abhay''\<rparr>", OF _ Encode_eq]
  by (simp add: recordFits_def)

text \<open>C24. The decoder is exact: it accepts a payload as a record precisely when the record's
  lengths fit and the payload, behind its length, is what Encode writes for that record. So
  no malformed payload (short, mis-sized, bad checksum) decodes, and none decodes twice.\<close>

theorem decode_accepts_exactly_encodings:
  "decodeRecord bs = Inr r \<longleftrightarrow>
     lengthsFit r \<and> Encode r = Inr (putUint32 (word_of_nat (length bs)) @ bs)"
proof
  assume "decodeRecord bs = Inr r"
  then show "lengthsFit r \<and> Encode r = Inr (putUint32 (word_of_nat (length bs)) @ bs)"
    using decodeRecord_sound by (auto simp: Encode_eq recordBytes_def)
next
  assume "lengthsFit r \<and> Encode r = Inr (putUint32 (word_of_nat (length bs)) @ bs)"
  then have "lengthsFit r" and "bs = recordPayload r"
    by (auto simp: Encode_eq recordBytes_def append_eq_append_conv)
  then show "decodeRecord bs = Inr r"
    by (simp add: decodeRecord_payload)
qed

text \<open>C25. Corruption is detected: change any one byte of an encoded record after its length
  field (operation, lengths, key, value or checksum) and decodeRecord returns an error.\<close>

theorem decode_detects_corrupt_byte:
  assumes "Encode r = Inr bs" and "4 \<le> i" and "i < length bs" and "b \<noteq> bs ! i"
  shows "\<not> isOk (decodeRecord (drop 4 (bs[i := b])))"
proof
  assume "isOk (decodeRecord (drop 4 (bs[i := b])))"
  then obtain r' where "decodeRecord (drop 4 (bs[i := b])) = Inr r'" by (auto simp: isOk_iff)
  then have p': "drop 4 (bs[i := b]) = recordBody r' @ putUint32 (checksumIEEE (recordBody r'))"
    using decodeRecord_sound by (auto simp: recordPayload_def)
  define p where "p = recordPayload r"
  define j where "j = i - 4"
  have bs: "bs = putUint32 (word_of_nat (length p)) @ p"
    using assms(1) by (simp add: Encode_eq recordBytes_def p_def)
  have j: "j < length p" and bj: "b \<noteq> p ! j"
    using assms(2-4) by (auto simp: bs j_def nth_append)
  have eq: "p[j := b] = recordBody r' @ putUint32 (checksumIEEE (recordBody r'))"
    using p' assms(2) by (simp add: bs j_def list_update_append)
  have p: "p = recordBody r @ putUint32 (checksumIEEE (recordBody r))"
    by (simp add: p_def recordPayload_def)
  have len: "length (recordBody r') = length (recordBody r)"
    using arg_cong [OF eq, of length] by (simp add: p)
  show False
  proof (cases "j < length (recordBody r)")
    case True
    then have body: "recordBody r' = (recordBody r)[j := b]"
      and crc: "putUint32 (checksumIEEE (recordBody r')) = putUint32 (checksumIEEE (recordBody r))"
      using eq len by (simp_all add: p list_update_append append_eq_append_conv)
    have "checksumIEEE (recordBody r') = checksumIEEE (recordBody r)"
      using crc by (metis append_Nil2 getUint32_putUint32)
    moreover have "recordBody r = take j (recordBody r) @ recordBody r ! j # drop (Suc j) (recordBody r)"
      using True by (rule id_take_nth_drop)
    moreover have "recordBody r' = take j (recordBody r) @ b # drop (Suc j) (recordBody r)"
      using True by (simp add: body upd_conv_take_nth_drop)
    ultimately have "recordBody r ! j = b" by (metis checksum_one_byte)
    with bj True show False by (simp add: p nth_append)
  next
    case False
    then have "recordBody r' = recordBody r"
      using eq len by (simp add: p list_update_append append_eq_append_conv)
    with eq have "p[j := b] = p" by (simp add: p)
    with j bj show False by (metis nth_list_update_eq)
  qed
qed

lemma decode_detects_corrupt_byte_witness:
  "\<not> isOk (decodeRecord (drop 4 ((recordBytes \<lparr>Op = OpPut, Key = [1], Value = [2]\<rparr>)[13 := 7])))"
proof (rule decode_detects_corrupt_byte [OF Encode_eq])
  show "(7::byte) \<noteq> recordBytes \<lparr>Op = OpPut, Key = [1], Value = [2]\<rparr> ! 13"
    by (simp add: recordBytes_def recordPayload_def recordBody_def putUint32_def)
qed (simp_all add: length_recordBytes)

end
