(* ===== verification/Wal.thy ===== *)
theory Wal
  imports Wal_Codec
begin

text \<open>
  The write-ahead log (internal/wal/wal.go): the \<open>file\<close> interface it writes through, the
  state of a \<open>WAL\<close>, the two halves of \<open>Append\<close> around the queue, the commit goroutine of
  \<open>start\<close> (collect a batch, encode, write, one Sync, answer every request), \<open>Close\<close> and
  \<open>Replay\<close>. A fault of the device is an input: \<open>FileState\<close> carries which Write, Sync,
  Seek, Read or Close call fails, and the theorems quantify over it. A request's \<open>done\<close>
  channel is the list \<open>acks\<close> of the values sent, in order. The inner receive loop of the
  goroutine never ends once the queue's channel is closed, so it is a
  \<^theory_text>\<open>partial_function\<close>, and not returning is \<open>None\<close>.
\<close>

section \<open>The file\<close>

text \<open>\<open>synced\<close> is how much of the content the last successful Sync made durable, and
  \<open>syncCalls\<close> how often the device was asked to Sync.\<close>

record FileState =
  content :: bytes
  synced :: nat
  syncCalls :: nat
  offset :: nat
  writeFaults :: "nat option list"
  syncFaults :: "bool list"
  seekFault :: bool
  readFault :: "nat option"
  closeFault :: bool

text \<open>Write on a file opened with \<open>O_APPEND\<close>. The head of \<open>writeFaults\<close> says how this
  call ends: \<open>Some n\<close> is an error after \<open>n\<close> bytes.\<close>

definition fileWrite :: "bytes \<Rightarrow> FileState \<Rightarrow> error option \<times> FileState" where
  "fileWrite d f =
    (case writeFaults f of
       Some n # fs \<Rightarrow> (Some FileError, f\<lparr>content := content f @ take n d, writeFaults := fs\<rparr>)
     | None # fs \<Rightarrow> (None, f\<lparr>content := content f @ d, writeFaults := fs\<rparr>)
     | [] \<Rightarrow> (None, f\<lparr>content := content f @ d\<rparr>))"

definition fileSync :: "FileState \<Rightarrow> error option \<times> FileState" where
  "fileSync f =
    (let f1 = f\<lparr>syncCalls := Suc (syncCalls f)\<rparr>
     in case syncFaults f of
          True # fs \<Rightarrow> (Some FileError, f1\<lparr>syncFaults := fs\<rparr>)
        | False # fs \<Rightarrow> (None, f1\<lparr>synced := length (content f), syncFaults := fs\<rparr>)
        | [] \<Rightarrow> (None, f1\<lparr>synced := length (content f)\<rparr>))"

definition fileSeekStart :: "FileState \<Rightarrow> error option \<times> FileState" where
  "fileSeekStart f = (if seekFault f then (Some FileError, f) else (None, f\<lparr>offset := 0\<rparr>))"

definition fileClose :: "FileState \<Rightarrow> error option" where
  "fileClose f = (if closeFault f then Some FileError else None)"

text \<open>io.ReadFull: all \<open>n\<close> bytes, or \<open>EOF\<close> when there is none, \<open>UnexpectedEOF\<close> when
  there are some but too few. Offsets from \<open>readFault\<close> on cannot be read.\<close>

definition readFull :: "nat \<Rightarrow> FileState \<Rightarrow> (error + bytes) \<times> FileState" where
  "readFull n f =
    (let avail = length (content f) - offset f;
         bad = (case readFault f of None \<Rightarrow> False
                | Some k \<Rightarrow> k < offset f + n \<and> k \<le> length (content f))
     in if n = 0 then (Inr [], f)
        else if bad then (Inl FileError, f)
        else if n \<le> avail
          then (Inr (take n (drop (offset f) (content f))), f\<lparr>offset := offset f + n\<rparr>)
        else if avail = 0 then (Inl EOF, f)
        else (Inl UnexpectedEOF, f\<lparr>offset := offset f + avail\<rparr>))"

section \<open>The log's state\<close>

record pendingWrite =
  reqRecord :: Record
  reqSeq :: uint64

record WAL =
  walFile :: FileState
  queue :: "pendingWrite list"
  closed :: bool
  nextSeq :: uint64
  batchCount :: int
  totalRecords :: int
  acks :: "(pendingWrite \<times> error option) list"

record ReplayRecord =
  Seq :: uint64
  Records :: "Record list"

definition queueCap :: nat where
  "queueCap = 1024"

definition Open :: "error + FileState \<Rightarrow> error + WAL" where
  "Open opened =
    (case opened of
       Inl e \<Rightarrow> Inl e
     | Inr f \<Rightarrow> Inr \<lparr>walFile = f, queue = [], closed = False, nextSeq = 0,
                    batchCount = 0, totalRecords = 0, acks = []\<rparr>)"

definition BatchStats :: "WAL \<Rightarrow> int \<times> int" where
  "BatchStats w = (batchCount w, totalRecords w)"

section \<open>Replay\<close>

lemma readFull_progress:
  assumes "readFull n f = (Inr bs, f')"
  shows "content f' = content f \<and> offset f' = offset f + n \<and> (0 < n \<longrightarrow> offset f' \<le> length (content f))"
  using assms by (auto simp: readFull_def Let_def split: if_splits option.splits)

function replayLoop :: "FileState \<Rightarrow> Record list \<Rightarrow> (error + Record list) \<times> FileState" where
  "replayLoop f records =
    (case readFull 4 f of
       (Inl e, f1) \<Rightarrow> if e = EOF then (Inr records, f1) else (Inl e, f1)
     | (Inr lenBytes, f1) \<Rightarrow>
        (case readFull (unat (getUint32 lenBytes)) f1 of
           (Inl e, f2) \<Rightarrow> if e = UnexpectedEOF then (Inr records, f2) else (Inl e, f2)
         | (Inr payload, f2) \<Rightarrow>
            (case decodeRecord payload of
               Inl e \<Rightarrow> (Inl e, f2)
             | Inr r \<Rightarrow> replayLoop f2 (records @ [r]))))"
  by pat_completeness auto
termination
  by (relation "measure (\<lambda>(f, _). length (content f) - offset f)")
     (auto dest!: readFull_progress [OF sym])

declare replayLoop.simps [simp del]

definition Replay :: "WAL \<Rightarrow> (error + ReplayRecord) \<times> WAL" where
  "Replay w =
    (case fileSeekStart (walFile w) of
       (Some e, f) \<Rightarrow> (Inl e, w\<lparr>walFile := f\<rparr>)
     | (None, f) \<Rightarrow>
        (case replayLoop f [] of
           (Inl e, f') \<Rightarrow> (Inl e, w\<lparr>walFile := f'\<rparr>)
         | (Inr records, f') \<Rightarrow> (Inr \<lparr>Seq = 1, Records = records\<rparr>, w\<lparr>walFile := f'\<rparr>)))"

section \<open>Append, first half: under the mutex, up to the send on the queue\<close>

definition appendEnqueue :: "Record \<Rightarrow> WAL \<Rightarrow> error + (pendingWrite \<times> WAL)" where
  "appendEnqueue r w =
    (if closed w then Inl (Errorf ''WAL is closed'')
     else let n = nextSeq w + 1;
              request = \<lparr>reqRecord = r, reqSeq = n\<rparr>
          in Inr (request, w\<lparr>nextSeq := n, queue := queue w @ [request]\<rparr>))"

section \<open>The commit goroutine\<close>

fun encodeBatch :: "pendingWrite list \<Rightarrow> bytes list option" where
  "encodeBatch [] = Some []"
| "encodeBatch (request # rest) =
    (case Encode (reqRecord request) of
       Inl e \<Rightarrow> None
     | Inr bs \<Rightarrow> map_option ((#) bs) (encodeBatch rest))"

text \<open>The write loop stops at the first failing Write; the flag is \<open>writeErr\<close>.\<close>

fun writeAll :: "bytes list \<Rightarrow> FileState \<Rightarrow> bool \<times> FileState" where
  "writeAll [] f = (False, f)"
| "writeAll (d # ds) f =
    (case fileWrite d f of
       (Some e, f') \<Rightarrow> (True, f')
     | (None, f') \<Rightarrow> writeAll ds f')"

definition ackAll :: "pendingWrite list \<Rightarrow> error option \<Rightarrow> WAL \<Rightarrow> WAL" where
  "ackAll batch e w = w\<lparr>acks := acks w @ map (\<lambda>request. (request, e)) batch\<rparr>"

text \<open>From the label \<open>commit\<close> to the end of the loop body.\<close>

definition commitBatch :: "pendingWrite list \<Rightarrow> WAL \<Rightarrow> WAL" where
  "commitBatch batch w =
    (let w1 = w\<lparr>batchCount := batchCount w + 1,
                totalRecords := totalRecords w + int (length batch)\<rparr>
     in case encodeBatch batch of
          None \<Rightarrow> ackAll batch (Some (Errorf ''failed to encode WAL batch'')) w1
        | Some encoded \<Rightarrow>
           (case writeAll encoded (walFile w1) of
              (True, f1) \<Rightarrow>
                ackAll batch (Some (Errorf ''failed to write WAL batch'')) (w1\<lparr>walFile := f1\<rparr>)
            | (False, f1) \<Rightarrow>
               (case fileSync f1 of
                  (Some e, f2) \<Rightarrow> ackAll batch (Some e) (w1\<lparr>walFile := f2\<rparr>)
                | (None, f2) \<Rightarrow> ackAll batch None (w1\<lparr>walFile := f2\<rparr>))))"

text \<open>The inner \<open>for\<close>/\<open>select\<close>: receive while a receive is ready. A closed and drained
  channel is always ready and yields the zero \<open>pendingWrite\<close>.\<close>

definition zeroRequest :: pendingWrite where
  "zeroRequest = \<lparr>reqRecord = \<lparr>Op = 0, Key = [], Value = []\<rparr>, reqSeq = 0\<rparr>"

partial_function (option) collectLoop ::
  "WAL \<Rightarrow> pendingWrite list \<Rightarrow> (pendingWrite list \<times> WAL) option" where
  "collectLoop w batch =
    (case queue w of
       request # rest \<Rightarrow> collectLoop (w\<lparr>queue := rest\<rparr>) (batch @ [request])
     | [] \<Rightarrow> if closed w then collectLoop w (batch @ [zeroRequest]) else Some (batch, w))"

text \<open>One turn of the outer loop, for a queue that holds a request (the \<open>range\<close> receive
  blocks on an empty open queue and ends the loop on an empty closed one).\<close>

definition commitRound :: "WAL \<Rightarrow> WAL option" where
  "commitRound w =
    (case queue w of
       [] \<Rightarrow> Some w
     | first # rest \<Rightarrow>
        (case collectLoop (w\<lparr>queue := rest\<rparr>) [first] of
           None \<Rightarrow> None
         | Some (batch, w') \<Rightarrow> Some (commitBatch batch w')))"

section \<open>Append and Close\<close>

text \<open>The value received on the request's own \<open>done\<close> channel.\<close>

definition doneOf :: "pendingWrite \<Rightarrow> WAL \<Rightarrow> error option option" where
  "doneOf request w = map_of (rev (acks w)) request"

text \<open>A whole Append with no other client running: enqueue, the goroutine's turn, the
  receive from \<open>done\<close>. \<open>None\<close> is an Append that never returns.\<close>

definition Append :: "Record \<Rightarrow> WAL \<Rightarrow> ((error + uint64) \<times> WAL) option" where
  "Append r w =
    (case appendEnqueue r w of
       Inl e \<Rightarrow> Some (Inl e, w)
     | Inr (request, w1) \<Rightarrow>
        (case commitRound w1 of
           None \<Rightarrow> None
         | Some w2 \<Rightarrow>
            (case doneOf request w2 of
               None \<Rightarrow> None
             | Some (Some e) \<Rightarrow> Some (Inl e, w2)
             | Some None \<Rightarrow> Some (Inr (reqSeq request), w2))))"

text \<open>The goroutine's outer loop to its end, which \<open>wg.Wait\<close> waits for. An empty queue
  that is still open blocks the loop forever, so it has no end there.\<close>

partial_function (option) committerRun :: "WAL \<Rightarrow> WAL option" where
  "committerRun w =
    (if queue w = [] then (if closed w then Some w else None)
     else (case commitRound w of None \<Rightarrow> None | Some w' \<Rightarrow> committerRun w'))"

text \<open>Close while the goroutine waits at its range receive; \<open>CloseAt\<close> in \<open>Wal_Close\<close> is
  Close wherever the goroutine is.\<close>

definition Close :: "WAL \<Rightarrow> (error option \<times> WAL) option" where
  "Close w =
    (if closed w then Some (None, w)
     else (case committerRun (w\<lparr>closed := True\<rparr>) of
             None \<Rightarrow> None
           | Some w' \<Rightarrow> Some (fileClose (walFile w'), w')))"

end
