(* ===== verification/Wal_Proofs.thy ===== *)
theory Wal_Proofs
  imports Wal
begin

text \<open>
  Lemmas and properties of the write-ahead log: what one commit does to the file and to the
  waiting clients, what Replay reads back (whole logs, torn tails, nothing invented), the
  ordering of sequence numbers, and when Close returns.
\<close>

section \<open>The collecting loop\<close>

lemma collectLoop_open:
  "\<not> closed w \<Longrightarrow> collectLoop w batch = Some (batch @ queue w, w\<lparr>queue := []\<rparr>)"
proof (induction "queue w" arbitrary: w batch)
  case Nil
  then show ?case by (subst collectLoop.simps) simp
next
  case (Cons request rest)
  have "collectLoop w batch = collectLoop (w\<lparr>queue := rest\<rparr>) (batch @ [request])"
    by (subst collectLoop.simps) (simp add: Cons.hyps(2) [symmetric])
  also have "\<dots> = Some ((batch @ [request]) @ rest, w\<lparr>queue := []\<rparr>)"
    using Cons.hyps(1) [of "w\<lparr>queue := rest\<rparr>" "batch @ [request]"] Cons.prems by simp
  finally show ?case by (simp add: Cons.hyps(2) [symmetric])
qed

text \<open>On a closed queue the receive never blocks, so the loop never ends.\<close>

lemma collectLoop_Some_open:
  assumes "collectLoop w batch = Some res"
  shows "\<not> closed w"
proof (rule collectLoop.raw_induct [OF _ assms])
  fix g :: "WAL \<Rightarrow> pendingWrite list \<Rightarrow> (pendingWrite list \<times> WAL) option" and w batch res
  assume IH: "\<And>w batch res. g w batch = Some res \<Longrightarrow> \<not> closed w"
    and body: "(case queue w of [] \<Rightarrow> if closed w then g w (batch @ [zeroRequest]) else Some (batch, w)
      | request # rest \<Rightarrow> g (w\<lparr>queue := rest\<rparr>) (batch @ [request])) = Some res"
  show "\<not> closed w"
    using body by (cases "queue w") (auto split: if_splits dest!: IH)
qed

lemma collectLoop_closed: "closed w \<Longrightarrow> collectLoop w batch = None"
  using collectLoop_Some_open by (cases "collectLoop w batch") auto

lemma commitRound_open:
  "\<not> closed w \<Longrightarrow> queue w \<noteq> [] \<Longrightarrow>
     commitRound w = Some (commitBatch (queue w) (w\<lparr>queue := []\<rparr>))"
  by (cases "queue w") (simp_all add: commitRound_def collectLoop_open)

section \<open>Encoding, writing, syncing\<close>

abbreviation batchBytes :: "pendingWrite list \<Rightarrow> bytes" where
  "batchBytes batch \<equiv> concat (map (recordBytes \<circ> reqRecord) batch)"

lemma encodeBatch_eq: "encodeBatch batch = Some (map (recordBytes \<circ> reqRecord) batch)"
  by (induction batch) (simp_all add: Encode_eq)

lemma writeAll_ok: "writeAll ds f = (False, f') \<Longrightarrow> content f' = content f @ concat ds"
  by (induction ds arbitrary: f)
     (auto simp: fileWrite_def split: list.splits option.splits prod.splits)

text \<open>Whatever fails, only a beginning of the batch reaches the file.\<close>

lemma writeAll_prefix:
  "writeAll ds f = (b, f') \<Longrightarrow> \<exists>k. content f' = content f @ take k (concat ds)"
proof (induction ds arbitrary: f)
  case Nil
  then show ?case by simp
next
  case (Cons d ds)
  obtain e f1 where w: "fileWrite d f = (e, f1)" by fastforce
  show ?case
  proof (cases e)
    case None
    with w have f1: "content f1 = content f @ d"
      by (auto simp: fileWrite_def split: list.splits option.splits)
    from Cons.prems w None have "writeAll ds f1 = (b, f')" by simp
    then obtain k where "content f' = content f1 @ take k (concat ds)" using Cons.IH by blast
    then show ?thesis using f1 by (intro exI [of _ "length d + k"]) simp
  next
    case (Some x)
    with w obtain n where "content f1 = content f @ take n d"
      by (auto simp: fileWrite_def split: list.splits option.splits)
    with Cons.prems w Some show ?thesis
      by (intro exI [of _ "min n (length d)"]) (auto simp: min_def)
  qed
qed

lemma writeAll_no_faults:
  "writeFaults f = [] \<Longrightarrow> writeAll ds f = (False, f\<lparr>content := content f @ concat ds\<rparr>)"
  by (induction ds arbitrary: f) (simp_all add: fileWrite_def)

lemma fileSync_content [simp]: "content (snd (fileSync f)) = content f"
  by (simp add: fileSync_def Let_def split: list.splits bool.splits)

lemma fileSync_ok: "fileSync f = (None, f') \<Longrightarrow> content f' = content f \<and> synced f' = length (content f)"
  by (auto simp: fileSync_def Let_def split: list.splits bool.splits)

lemma commitBatch_frame [simp]:
  "closed (commitBatch batch w) = closed w"
  "queue (commitBatch batch w) = queue w"
  "nextSeq (commitBatch batch w) = nextSeq w"
  by (simp_all add: commitBatch_def ackAll_def encodeBatch_eq Let_def
      split: prod.splits bool.splits option.splits)

text \<open>The fault-free device.\<close>

definition healthy :: "FileState \<Rightarrow> bool" where
  "healthy f \<longleftrightarrow> writeFaults f = [] \<and> syncFaults f = [] \<and> \<not> seekFault f \<and> readFault f = None"

lemma commitBatch_healthy:
  assumes "healthy (walFile w)"
  shows "commitBatch batch w = w\<lparr>
      walFile := (walFile w)\<lparr>content := content (walFile w) @ batchBytes batch,
                     synced := length (content (walFile w) @ batchBytes batch),
                     syncCalls := Suc (syncCalls (walFile w))\<rparr>,
      batchCount := batchCount w + 1, totalRecords := totalRecords w + int (length batch),
      acks := acks w @ map (\<lambda>q. (q, None)) batch\<rparr>"
  using assms
  by (simp add: commitBatch_def encodeBatch_eq writeAll_no_faults fileSync_def ackAll_def
      healthy_def Let_def comp_def)

lemma commitBatch_stays_healthy:
  "healthy (walFile w) \<Longrightarrow> healthy (walFile (commitBatch batch w))"
  by (subst commitBatch_healthy) (simp_all add: healthy_def)

section \<open>Replay\<close>

abbreviation logBytes :: "Record list \<Rightarrow> bytes" where
  "logBytes rs \<equiv> concat (map recordBytes rs)"

lemma readFull_ok:
  "readFault f = None \<Longrightarrow> offset f = length pre \<Longrightarrow> content f = pre @ bs @ post \<Longrightarrow> n = length bs
    \<Longrightarrow> bs \<noteq> [] \<Longrightarrow> readFull n f = (Inr bs, f\<lparr>offset := length pre + length bs\<rparr>)"
  by (auto simp: readFull_def Let_def)

lemma readFull_short:
  "readFault f = None \<Longrightarrow> offset f = length pre \<Longrightarrow> content f = pre @ bs \<Longrightarrow> length bs < n
    \<Longrightarrow> fst (readFull n f) = Inl (if bs = [] then EOF else UnexpectedEOF)"
  by (auto simp: readFull_def)

text \<open>One whole record in front of the offset is read and decoded.\<close>

lemma replayLoop_record:
  assumes "readFault f = None" and "offset f = length pre"
    and "content f = pre @ recordBytes r @ post" and "recordFits r"
  shows "replayLoop f acc = replayLoop (f\<lparr>offset := length (pre @ recordBytes r)\<rparr>) (acc @ [r])"
proof -
  let ?hd = "putUint32 (word_of_nat (length (recordPayload r)))"
  let ?f1 = "f\<lparr>offset := length (pre @ ?hd)\<rparr>"
  have len: "unat (getUint32 ?hd) = length (recordPayload r)"
    using assms(4) by (simp only: getUint32_putUint32_end unat_payload_length)
  have c: "content f = pre @ ?hd @ recordPayload r @ post"
    using assms(3) by (simp add: recordBytes_def)
  have r1: "readFull 4 f = (Inr ?hd, ?f1)"
    using readFull_ok [OF assms(1,2) c] by simp
  have r2: "readFull (unat (getUint32 ?hd)) ?f1
      = (Inr (recordPayload r), f\<lparr>offset := length (pre @ recordBytes r)\<rparr>)"
    using readFull_ok [of ?f1 "pre @ ?hd" "recordPayload r" post] assms(1) c len
    by (simp add: recordBytes_def)
  show ?thesis
    by (subst replayLoop.simps)
       (simp add: r1 r2 [simplified] decodeRecord_payload recordFits_lengthsFit assms(4))
qed

lemma replayLoop_log:
  assumes "readFault f = None" and "offset f = length pre"
    and "content f = pre @ logBytes rs @ post" and "\<forall>r \<in> set rs. recordFits r"
  shows "replayLoop f acc = replayLoop (f\<lparr>offset := length (pre @ logBytes rs)\<rparr>) (acc @ rs)"
  using assms
proof (induction rs arbitrary: f pre acc)
  case Nil
  then show ?case by (cases f) simp
next
  case (Cons r rs)
  let ?f1 = "f\<lparr>offset := length (pre @ recordBytes r)\<rparr>"
  have "replayLoop f acc = replayLoop ?f1 (acc @ [r])"
    using Cons.prems by (intro replayLoop_record [where post = "logBytes rs @ post"]) auto
  also have "\<dots> = replayLoop (?f1\<lparr>offset := length ((pre @ recordBytes r) @ logBytes rs)\<rparr>)
      ((acc @ [r]) @ rs)"
    using Cons.prems by (intro Cons.IH) auto
  finally show ?case by simp
qed

text \<open>A length field with too few bytes behind it ends the replay: quietly when there are some
  bytes, with an error when there is none.\<close>

lemma replayLoop_short_payload:
  assumes "readFault f = None" and "offset f = length pre"
    and c: "content f = pre @ putUint32 (word_of_nat (length (recordPayload r))) @ rest"
    and fits: "recordFits r" and short: "length rest < length (recordPayload r)"
  shows "fst (replayLoop f acc) = (if rest = [] then Inl EOF else Inr acc)"
proof -
  let ?hd = "putUint32 (word_of_nat (length (recordPayload r)))"
  let ?f1 = "f\<lparr>offset := length (pre @ ?hd)\<rparr>"
  have r1: "readFull 4 f = (Inr ?hd, ?f1)"
    using readFull_ok [OF assms(1,2) c] by simp
  have r2: "fst (readFull (length (recordPayload r)) ?f1)
      = Inl (if rest = [] then EOF else UnexpectedEOF)"
    by (rule readFull_short [of ?f1 "pre @ ?hd"]) (use assms(1) c short in simp_all)
  then show ?thesis
    by (subst replayLoop.simps)
       (auto simp: r1 unat_payload_length [OF fits] split: prod.splits)
qed

text \<open>What is left of a record after a crash: its first \<open>k\<close> bytes.\<close>

lemma replayLoop_torn:
  assumes "readFault f = None" and "offset f = length pre"
    and "content f = pre @ take k (recordBytes r)" and "k < length (recordBytes r)"
    and "recordFits r"
  shows "fst (replayLoop f acc) =
    (if k = 0 \<or> 4 < k then Inr acc else if k < 4 then Inl UnexpectedEOF else Inl EOF)"
proof (cases "k < 4")
  case True
  then have "fst (readFull 4 f) = Inl (if k = 0 then EOF else UnexpectedEOF)"
    using readFull_short [of f pre "take k (recordBytes r)" 4] assms
    by (simp add: length_recordBytes flip: length_0_conv)
  with True show ?thesis
    by (subst replayLoop.simps) (auto split: prod.splits)
next
  case False
  let ?rest = "take (k - 4) (recordPayload r)"
  have "content f = pre @ putUint32 (word_of_nat (length (recordPayload r))) @ ?rest"
    using assms(3) False by (simp add: recordBytes_def)
  moreover have "length ?rest < length (recordPayload r)"
    using assms(4) False by (simp add: recordBytes_def)
  moreover have "?rest = [] \<longleftrightarrow> k = 4"
    using False by (auto simp: length_recordPayload simp flip: length_0_conv)
  ultimately show ?thesis
    using replayLoop_short_payload [OF assms(1,2) _ assms(5)] False by simp
qed

text \<open>Every record Replay returns is on disk, in order; what is left behind them is nothing
  or the start of one record.\<close>

definition tornTail :: "bytes \<Rightarrow> bool" where
  "tornTail rest \<longleftrightarrow> rest = [] \<or> 4 < length rest \<and> length rest - 4 < unat (getUint32 rest)"

lemma readFull_InrD:
  assumes "readFull n f = (Inr bs, f')" and "offset f \<le> length (content f)"
  shows "drop (offset f) (content f) = bs @ drop (offset f') (content f') \<and> length bs = n
    \<and> content f' = content f \<and> offset f' = offset f + n \<and> offset f' \<le> length (content f')"
  using assms
  by (auto simp: readFull_def Let_def min_def split: if_splits option.splits)
     (simp_all add: add.commute flip: drop_drop append_take_drop_id)

lemma readFull_EOFD: "readFull n f = (Inl EOF, f') \<Longrightarrow> drop (offset f) (content f) = []"
  by (auto simp: readFull_def Let_def split: if_splits)

lemma readFull_shortD:
  "readFull n f = (Inl UnexpectedEOF, f') \<Longrightarrow>
     drop (offset f) (content f) \<noteq> [] \<and> length (drop (offset f) (content f)) < n"
  by (auto simp: readFull_def Let_def split: if_splits)

lemma getUint32_append: "length h = 4 \<Longrightarrow> getUint32 (h @ bs) = getUint32 h"
  by (metis getUint32_putUint32 putUint32_getUint32 getUint32_putUint32_end)

lemma replayLoop_sound:
  "fst (replayLoop f acc) = Inr rs \<Longrightarrow> offset f \<le> length (content f) \<Longrightarrow>
   \<exists>rs' rest. rs = acc @ rs' \<and> drop (offset f) (content f) = logBytes rs' @ rest
     \<and> (\<forall>r \<in> set rs'. lengthsFit r) \<and> tornTail rest"
proof (induction f acc arbitrary: rs rule: replayLoop.induct)
  case (1 f acc)
  obtain x f1 where x: "readFull 4 f = (x, f1)" by fastforce
  show ?case
  proof (cases x)
    case (Inl e)
    with "1.prems" x have "e = EOF" and "rs = acc"
      by (auto simp: replayLoop.simps [of f] split: if_splits)
    with Inl x show ?thesis
      by (intro exI [of _ "[]"] exI [of _ "[]"]) (auto simp: tornTail_def dest: readFull_EOFD)
  next
    case (Inr h)
    note h = readFull_InrD [OF x [unfolded Inr] "1.prems"(2)]
    obtain y f2 where y: "readFull (unat (getUint32 h)) f1 = (y, f2)" by fastforce
    show ?thesis
    proof (cases y)
      case (Inl e)
      with "1.prems" x \<open>x = Inr h\<close> y have "e = UnexpectedEOF" and "rs = acc"
        by (auto simp: replayLoop.simps [of f] split: if_splits)
      moreover have "tornTail (drop (offset f) (content f))"
        using h readFull_shortD [OF y [unfolded Inl \<open>e = UnexpectedEOF\<close>]]
        by (auto simp: tornTail_def getUint32_append)
      ultimately show ?thesis by auto
    next
      case (Inr payload)
      note p = readFull_InrD [OF y [unfolded Inr]]
      obtain r where r: "decodeRecord payload = Inr r"
        using "1.prems" x \<open>x = Inr h\<close> y Inr
        by (cases "decodeRecord payload") (auto simp: replayLoop.simps [of f])
      then have fits: "lengthsFit r" and pay: "payload = recordPayload r"
        using decodeRecord_sound by auto
      have hd: "h = putUint32 (word_of_nat (length payload))"
        using h p by (auto simp: putUint32_getUint32)
      have "fst (replayLoop f2 (acc @ [r])) = Inr rs"
        using "1.prems"(1) x \<open>x = Inr h\<close> y Inr r by (simp add: replayLoop.simps [of f])
      with "1.IH" [OF x [symmetric] \<open>x = Inr h\<close> y [symmetric] Inr r] p h
      obtain rs' rest where "rs = (acc @ [r]) @ rs'" "drop (offset f2) (content f2) = logBytes rs' @ rest"
        "\<forall>r \<in> set rs'. lengthsFit r" "tornTail rest"
        by auto
      then show ?thesis
        using h p fits hd pay
        by (intro exI [of _ "r # rs'"] exI [of _ rest]) (auto simp: recordBytes_def [of r])
    qed
  qed
qed

section \<open>What Replay leaves alone\<close>

text \<open>Everything but the offset of the file: in particular a torn tail is not cut off.\<close>

lemma readFull_file: "snd (readFull n f) = f\<lparr>offset := offset (snd (readFull n f))\<rparr>"
  by (cases f) (auto simp: readFull_def Let_def split: if_splits option.splits)

lemma replayLoop_file: "snd (replayLoop f acc) = f\<lparr>offset := offset (snd (replayLoop f acc))\<rparr>"
proof (induction f acc rule: replayLoop.induct)
  case (1 f acc)
  obtain x f1 where x: "readFull 4 f = (x, f1)" by fastforce
  have f1: "f1 = f\<lparr>offset := offset f1\<rparr>" using readFull_file [of 4 f] x by simp
  show ?case
  proof (cases x)
    case (Inl e)
    then show ?thesis using f1 by (simp add: replayLoop.simps [of f] x)
  next
    case (Inr h)
    obtain y f2 where y: "readFull (unat (getUint32 h)) f1 = (y, f2)" by fastforce
    have "f2 = f1\<lparr>offset := offset f2\<rparr>"
      using readFull_file [of "unat (getUint32 h)" f1] y by simp
    then have f2: "f2 = f\<lparr>offset := offset f2\<rparr>" by (subst (asm) f1) simp
    show ?thesis
    proof (cases y)
      case (Inl e)
      then show ?thesis using f2 by (simp add: replayLoop.simps [of f] x \<open>x = Inr h\<close> y)
    next
      case (Inr payload)
      show ?thesis
      proof (cases "decodeRecord payload")
        case (Inl e)
        then show ?thesis
          using f2 by (simp add: replayLoop.simps [of f] x \<open>x = Inr h\<close> y Inr)
      next
        case (Inr r)
        have "snd (replayLoop f2 (acc @ [r])) = f2\<lparr>offset := offset (snd (replayLoop f2 (acc @ [r])))\<rparr>"
          by (rule "1.IH" [OF x [symmetric] \<open>x = Inr h\<close> y [symmetric] \<open>y = Inr payload\<close> Inr])
        then have "snd (replayLoop f2 (acc @ [r])) = f\<lparr>offset := offset (snd (replayLoop f2 (acc @ [r])))\<rparr>"
          by (subst (asm) f2) simp
        then show ?thesis
          by (simp add: replayLoop.simps [of f] x \<open>x = Inr h\<close> y \<open>y = Inr payload\<close> Inr)
      qed
    qed
  qed
qed

lemma Replay_frame:
  "healthy (walFile w) \<Longrightarrow> \<exists>k. snd (Replay w) = w\<lparr>walFile := (walFile w)\<lparr>offset := k\<rparr>\<rparr>"
proof -
  let ?f = "(walFile w)\<lparr>offset := 0\<rparr>"
  assume "healthy (walFile w)"
  then have "snd (Replay w) = w\<lparr>walFile := snd (replayLoop ?f [])\<rparr>"
    by (simp add: Replay_def fileSeekStart_def healthy_def split: prod.splits sum.splits)
  also have "snd (replayLoop ?f []) = (walFile w)\<lparr>offset := offset (snd (replayLoop ?f []))\<rparr>"
    using replayLoop_file [of ?f "[]"] by simp
  finally show ?thesis by blast
qed

section \<open>Properties: what Replay reads\<close>

lemma Replay_fst:
  "healthy (walFile w) \<Longrightarrow> fst (Replay w) =
    (case fst (replayLoop ((walFile w)\<lparr>offset := 0\<rparr>) []) of
       Inl e \<Rightarrow> Inl e | Inr rs \<Rightarrow> Inr \<lparr>Seq = 1, Records = rs\<rparr>)"
  by (auto simp: Replay_def fileSeekStart_def healthy_def split: prod.splits sum.splits)

lemma Replay_torn:
  assumes "healthy (walFile w)" and "\<forall>r \<in> set rs. recordFits r" and "recordFits r"
    and "k < length (recordBytes r)"
    and "content (walFile w) = logBytes rs @ take k (recordBytes r)"
  shows "fst (Replay w) =
    (if k = 0 \<or> 4 < k then Inr \<lparr>Seq = 1, Records = rs\<rparr>
     else if k < 4 then Inl UnexpectedEOF else Inl EOF)"
proof -
  let ?f = "(walFile w)\<lparr>offset := 0\<rparr>"
  have "replayLoop ?f [] = replayLoop (?f\<lparr>offset := length (logBytes rs)\<rparr>) rs"
    using assms replayLoop_log [of ?f "[]" rs "take k (recordBytes r)" "[]"]
    by (simp add: healthy_def)
  moreover have "fst (replayLoop (?f\<lparr>offset := length (logBytes rs)\<rparr>) rs) =
      (if k = 0 \<or> 4 < k then Inr rs else if k < 4 then Inl UnexpectedEOF else Inl EOF)"
    using assms by (intro replayLoop_torn [where pre = "logBytes rs"]) (auto simp: healthy_def)
  ultimately show ?thesis using assms(1) by (simp add: Replay_fst)
qed

lemma Replay_log:
  assumes "healthy (walFile w)" and "\<forall>r \<in> set rs. recordFits r"
    and "content (walFile w) = logBytes rs"
  shows "fst (Replay w) = Inr \<lparr>Seq = 1, Records = rs\<rparr>"
  using Replay_torn [OF assms(1,2), of "\<lparr>Op = 0, Key = [], Value = []\<rparr>" 0] assms(3)
  by (simp add: recordFits_def length_recordBytes)

text \<open>C11. Crash recovery of the log, by where the crash cut the last record. A file that holds
  whole records followed by the first \<open>k\<close> bytes of one more replays to exactly the whole
  records when the cut is at a record boundary or inside the payload; a cut inside the
  4-byte length makes Replay fail with \<open>UnexpectedEOF\<close>, and a cut right after it with
  \<open>EOF\<close>, so these four torn tails are not tolerated.\<close>

theorem replay_torn_tail:
  assumes "healthy (walFile w)" and "\<forall>r \<in> set rs. recordFits r" and "recordFits r"
    and "k < length (recordBytes r)"
    and "content (walFile w) = logBytes rs @ take k (recordBytes r)"
  shows "fst (Replay w) =
    (if k = 0 \<or> 4 < k then Inr \<lparr>Seq = 1, Records = rs\<rparr>
     else if k < 4 then Inl UnexpectedEOF else Inl EOF)"
  using assms by (rule Replay_torn)

definition freshFile :: FileState where
  "freshFile = \<lparr>content = [], synced = 0, syncCalls = 0, offset = 0, writeFaults = [], syncFaults = [],
     seekFault = False, readFault = None, closeFault = False\<rparr>"

definition freshWAL :: WAL where
  "freshWAL = \<lparr>walFile = freshFile, queue = [], closed = False, nextSeq = 0,
     batchCount = 0, totalRecords = 0, acks = []\<rparr>"

lemma Open_fresh: "Open (Inr freshFile) = Inr freshWAL"
  by (simp add: Open_def freshWAL_def)

lemma healthy_fresh [simp]: "healthy (walFile freshWAL)"
  by (simp add: healthy_def freshWAL_def freshFile_def)

definition putRec :: "string \<Rightarrow> string \<Rightarrow> Record" where
  "putRec k v = \<lparr>Op = OpPut, Key = bytesOf k, Value = bytesOf v\<rparr>"

definition walWith :: "bytes \<Rightarrow> WAL" where
  "walWith bs = freshWAL\<lparr>walFile := freshFile\<lparr>content := bs\<rparr>\<rparr>"

lemma healthy_walWith [simp]: "healthy (walFile (walWith bs))"
  by (simp add: walWith_def healthy_def freshFile_def)

lemma replay_torn_tail_witness:
  "fst (Replay (walWith (recordBytes (putRec ''name'' ''Abhay'') @ take 2 (recordBytes (putRec ''age'' ''21'')))))
     = Inl UnexpectedEOF
   \<and> fst (Replay (walWith (recordBytes (putRec ''name'' ''Abhay'') @ take 11 (recordBytes (putRec ''age'' ''21'')))))
     = Inr \<lparr>Seq = 1, Records = [putRec ''name'' ''Abhay'']\<rparr>"
  using replay_torn_tail [of "walWith (recordBytes (putRec ''name'' ''Abhay'') @ take 2 (recordBytes (putRec ''age'' ''21'')))"
      "[putRec ''name'' ''Abhay'']" "putRec ''age'' ''21''" 2]
    replay_torn_tail [of "walWith (recordBytes (putRec ''name'' ''Abhay'') @ take 11 (recordBytes (putRec ''age'' ''21'')))"
      "[putRec ''name'' ''Abhay'']" "putRec ''age'' ''21''" 11]
  by (simp add: putRec_def recordFits_def length_recordBytes) (simp add: walWith_def freshFile_def)

text \<open>Replay invents nothing: on any file content whatever, if Replay succeeds then the
  records it returns are, encoded one after the other, the beginning of the file, and what
  remains is empty or a cut record (more than its length field, less than its payload). The
  sequence it hands to the store is 1.\<close>

lemma replay_sound:
  assumes "healthy (walFile w)" and "fst (Replay w) = Inr rep"
  shows "Seq rep = 1 \<and> (\<forall>r \<in> set (Records rep). lengthsFit r)
    \<and> (\<exists>rest. content (walFile w) = logBytes (Records rep) @ rest \<and> tornTail rest)"
proof -
  obtain rs where rs: "fst (replayLoop ((walFile w)\<lparr>offset := 0\<rparr>) []) = Inr rs"
    and rep: "rep = \<lparr>Seq = 1, Records = rs\<rparr>"
    using assms by (auto simp: Replay_fst split: sum.splits)
  show ?thesis using replayLoop_sound [OF rs] by (auto simp: rep)
qed

lemma replay_sound_witness:
  "\<exists>rest. content (walFile (walWith (recordBytes (putRec ''a'' ''b''))))
      = logBytes [putRec ''a'' ''b''] @ rest \<and> tornTail rest"
proof -
  have "fst (Replay (walWith (recordBytes (putRec ''a'' ''b''))))
      = Inr \<lparr>Seq = 1, Records = [putRec ''a'' ''b'']\<rparr>"
    by (rule Replay_log) (simp_all add: walWith_def freshFile_def putRec_def recordFits_def healthy_def)
  then show ?thesis
    using replay_sound [OF healthy_walWith] by fastforce
qed

section \<open>Properties: committing\<close>

text \<open>A batch is answered as one: either every request in it is told success, and then all
  of its records are in the file behind what was there, in batch order, and the whole file is
  synced; or every request is told the same error, and at most a beginning of the batch has
  reached the file. The batch statistics count it either way.\<close>

lemma commit_batch_all_or_error:
  "BatchStats (commitBatch batch w) = (batchCount w + 1, totalRecords w + int (length batch)) \<and>
   (acks (commitBatch batch w) = acks w @ map (\<lambda>q. (q, None)) batch
      \<and> content (walFile (commitBatch batch w)) = content (walFile w) @ batchBytes batch
      \<and> synced (walFile (commitBatch batch w)) = length (content (walFile (commitBatch batch w)))
    \<or> (\<exists>e k. acks (commitBatch batch w) = acks w @ map (\<lambda>q. (q, Some e)) batch
      \<and> content (walFile (commitBatch batch w)) = content (walFile w) @ take k (batchBytes batch)))"
proof -
  let ?ds = "map (recordBytes \<circ> reqRecord) batch"
  obtain b f1 where w: "writeAll ?ds (walFile w) = (b, f1)" by fastforce
  obtain e f2 where s: "fileSync f1 = (e, f2)" by fastforce
  obtain k where k: "content f1 = content (walFile w) @ take k (batchBytes batch)"
    using writeAll_prefix [OF w] by auto
  have f2: "content f2 = content f1" using fileSync_content [of f1] s by simp
  have stats: "BatchStats (commitBatch batch w) = (batchCount w + 1, totalRecords w + int (length batch))"
    by (simp add: BatchStats_def commitBatch_def encodeBatch_eq ackAll_def w s Let_def
        split: bool.splits option.splits)
  show ?thesis
  proof (cases "b \<or> e \<noteq> None")
    case True
    then have "\<exists>e k. acks (commitBatch batch w) = acks w @ map (\<lambda>q. (q, Some e)) batch
      \<and> content (walFile (commitBatch batch w)) = content (walFile w) @ take k (batchBytes batch)"
      using w s k f2
      by (cases b; cases e) (auto simp: commitBatch_def encodeBatch_eq ackAll_def Let_def)
    with stats show ?thesis by blast
  next
    case False
    then have c: "content f1 = content (walFile w) @ batchBytes batch"
      using writeAll_ok [of ?ds "walFile w" f1] w by simp
    moreover have "synced f2 = length (content f2)"
      using fileSync_ok [of f1 f2] False s f2 by simp
    ultimately show ?thesis
      using stats False w s f2 by (simp add: commitBatch_def encodeBatch_eq ackAll_def Let_def)
  qed
qed

text \<open>A request enqueued on an open log, and several in a row.\<close>

fun enqueueAll :: "Record list \<Rightarrow> WAL \<Rightarrow> WAL" where
  "enqueueAll [] w = w"
| "enqueueAll (r # rs) w =
    (case appendEnqueue r w of Inl e \<Rightarrow> w | Inr (request, w') \<Rightarrow> enqueueAll rs w')"

fun numbered :: "uint64 \<Rightarrow> Record list \<Rightarrow> pendingWrite list" where
  "numbered n [] = []"
| "numbered n (r # rs) = \<lparr>reqRecord = r, reqSeq = n\<rparr> # numbered (n + 1) rs"

lemma map_reqRecord_numbered [simp]: "map reqRecord (numbered n rs) = rs"
  by (induction rs arbitrary: n) simp_all

lemma length_numbered [simp]: "length (numbered n rs) = length rs"
  by (induction rs arbitrary: n) simp_all

lemma numbered_Nil_iff [simp]: "numbered n rs = [] \<longleftrightarrow> rs = []"
  by (cases rs) simp_all

lemma batchBytes_numbered [simp]: "batchBytes (numbered n rs) = logBytes rs"
  by (metis map_map map_reqRecord_numbered)

lemma enqueueAll_open:
  "\<not> closed w \<Longrightarrow> enqueueAll rs w =
     w\<lparr>nextSeq := nextSeq w + word_of_nat (length rs),
       queue := queue w @ numbered (nextSeq w + 1) rs\<rparr>"
proof (induction rs arbitrary: w)
  case Nil
  then show ?case by (cases w) simp
next
  case (Cons r rs)
  then show ?case by (simp add: appendEnqueue_def Let_def add.commute add.left_commute)
qed

text \<open>C26. Group commit: however many records the clients have queued, one turn of the commit
  goroutine answers all of them with success and their sequence numbers are consecutive, in
  queue order; it costs one batch and exactly one Sync, after which the whole file is synced, and
  a Replay then returns the old records followed by the new ones in that order.\<close>

theorem group_commit:
  assumes "healthy (walFile w)" and "\<not> closed w" and "queue w = []" and "new \<noteq> []"
    and "\<forall>r \<in> set (old @ new). recordFits r" and "content (walFile w) = logBytes old"
  shows "\<exists>w'. commitRound (enqueueAll new w) = Some w'
    \<and> acks w' = acks w @ map (\<lambda>q. (q, None)) (numbered (nextSeq w + 1) new)
    \<and> batchCount w' = batchCount w + 1
    \<and> syncCalls (walFile w') = syncCalls (walFile w) + 1
    \<and> synced (walFile w') = length (content (walFile w'))
    \<and> fst (Replay w') = Inr \<lparr>Seq = 1, Records = old @ new\<rparr>"
proof -
  let ?q = "enqueueAll new w"
  let ?w = "commitBatch (numbered (nextSeq w + 1) new) (?q\<lparr>queue := []\<rparr>)"
  have q: "?q = w\<lparr>nextSeq := nextSeq w + word_of_nat (length new),
      queue := numbered (nextSeq w + 1) new\<rparr>"
    using assms(2,3) by (simp add: enqueueAll_open)
  then have round: "commitRound ?q = Some ?w"
    using assms(2,4) by (simp add: commitRound_open)
  have h: "healthy (walFile (?q\<lparr>queue := []\<rparr>))"
    using assms(1) by (simp add: q)
  have c: "content (walFile ?w) = logBytes (old @ new)"
    using assms(6) unfolding commitBatch_healthy [OF h] batchBytes_numbered by (simp add: q)
  have "fst (Replay ?w) = Inr \<lparr>Seq = 1, Records = old @ new\<rparr>"
    by (rule Replay_log [OF commitBatch_stays_healthy [OF h] assms(5) c])
  moreover have "acks ?w = acks w @ map (\<lambda>q. (q, None)) (numbered (nextSeq w + 1) new)
      \<and> batchCount ?w = batchCount w + 1 \<and> syncCalls (walFile ?w) = syncCalls (walFile w) + 1
      \<and> synced (walFile ?w) = length (content (walFile ?w))"
    unfolding commitBatch_healthy [OF h] batchBytes_numbered by (simp add: q)
  ultimately show ?thesis using round by blast
qed

lemma group_commit_witness:
  "\<exists>w'. commitRound (enqueueAll [putRec ''a'' ''1'', putRec ''b'' ''2''] freshWAL) = Some w'
    \<and> syncCalls (walFile w') = 1
    \<and> fst (Replay w') = Inr \<lparr>Seq = 1, Records = [putRec ''a'' ''1'', putRec ''b'' ''2'']\<rparr>"
  using group_commit [of freshWAL "[putRec ''a'' ''1'', putRec ''b'' ''2'']" "[]"]
  by (auto simp: freshWAL_def freshFile_def healthy_def putRec_def recordFits_def)

text \<open>Close with the goroutine at its range receive: it returns exactly if nothing is queued.\<close>

lemma Close_eq:
  "Close w = (if closed w then Some (None, w)
     else if queue w = [] then Some (fileClose (walFile w), w\<lparr>closed := True\<rparr>)
     else None)"
proof -
  have "committerRun (w\<lparr>closed := True\<rparr>) = (if queue w = [] then Some (w\<lparr>closed := True\<rparr>) else None)"
    by (subst committerRun.simps)
       (simp add: commitRound_def collectLoop_closed split: list.splits)
  then show ?thesis by (simp add: Close_def)
qed

section \<open>Properties: appending\<close>

text \<open>Bytes behind a cut record that do not complete it: Replay reads past them to the end.\<close>

lemma Replay_short_payload:
  assumes "healthy (walFile w)" and "\<forall>r \<in> set rs. recordFits r" and "recordFits r" and "4 < k"
    and "k + length tail < length (recordBytes r)"
    and "content (walFile w) = logBytes rs @ take k (recordBytes r) @ tail"
  shows "fst (Replay w) = Inr \<lparr>Seq = 1, Records = rs\<rparr>"
proof -
  let ?f = "(walFile w)\<lparr>offset := 0\<rparr>"
  let ?g = "?f\<lparr>offset := length (logBytes rs)\<rparr>"
  let ?rest = "take (k - 4) (recordPayload r) @ tail"
  have c: "content ?g = logBytes rs @ putUint32 (word_of_nat (length (recordPayload r))) @ ?rest"
    using assms(4,6) by (simp add: recordBytes_def [of r])
  have "replayLoop ?f [] = replayLoop ?g rs"
    using replayLoop_log [of ?f "[]" rs "take k (recordBytes r) @ tail" "[]"]
      assms(1,2,6) by (simp add: healthy_def)
  moreover have "fst (replayLoop ?g rs) = Inr rs"
    using replayLoop_short_payload [of ?g "logBytes rs" r ?rest rs] assms(1) c assms(3-5)
    by (simp add: healthy_def length_recordBytes length_recordPayload)
  ultimately show ?thesis using assms(1) by (simp add: Replay_fst)
qed


lemma Append_closed: "closed w \<Longrightarrow> Append r w = Some (Inl (Errorf ''WAL is closed''), w)"
  by (simp add: Append_def appendEnqueue_def)

lemma Append_healthy:
  assumes "healthy (walFile w)" and "\<not> closed w" and "queue w = []"
  shows "Append r w = Some (Inr (nextSeq w + 1), w\<lparr>
      walFile := (walFile w)\<lparr>content := content (walFile w) @ recordBytes r,
                      synced := length (content (walFile w) @ recordBytes r),
                      syncCalls := Suc (syncCalls (walFile w))\<rparr>,
      nextSeq := nextSeq w + 1, batchCount := batchCount w + 1,
      totalRecords := totalRecords w + 1,
      acks := acks w @ [(\<lparr>reqRecord = r, reqSeq = nextSeq w + 1\<rparr>, None)]\<rparr>)"
  using assms
  by (simp add: Append_def appendEnqueue_def Let_def commitRound_open commitBatch_healthy doneOf_def)

text \<open>C28. An acknowledged write can be lost after a crash. Take a log whose last record \<open>r\<close>
  was cut inside its payload (\<open>k\<close> bytes of it are left, more than the 4 of its length field).
  Replay, as every start of the store runs it, returns the whole records and leaves the cut one
  in place. If a record that is shorter than what is missing is appended then, Append reports
  success and the whole file is synced, but the next Replay takes the new bytes for the rest
  of the cut record and returns only the old records.\<close>

theorem append_after_torn_tail_lost:
  assumes "healthy (walFile w)" and "\<not> closed w" and "queue w = []"
    and "\<forall>r \<in> set rs. recordFits r" and "recordFits r"
    and "4 < k" and "k + length (recordBytes new) < length (recordBytes r)"
    and "content (walFile w) = logBytes rs @ take k (recordBytes r)"
  shows "\<exists>w0 n w'. Replay w = (Inr \<lparr>Seq = 1, Records = rs\<rparr>, w0)
    \<and> Append new w0 = Some (Inr n, w')
    \<and> synced (walFile w') = length (content (walFile w'))
    \<and> fst (Replay w') = Inr \<lparr>Seq = 1, Records = rs\<rparr>"
proof -
  obtain o0 where w0: "snd (Replay w) = w\<lparr>walFile := (walFile w)\<lparr>offset := o0\<rparr>\<rparr>" (is "_ = ?w0")
    using Replay_frame [OF assms(1)] by blast
  have "fst (Replay w) = Inr \<lparr>Seq = 1, Records = rs\<rparr>"
    using Replay_torn [OF assms(1,4,5) _ assms(8)] assms(6,7) by simp
  then have rep: "Replay w = (Inr \<lparr>Seq = 1, Records = rs\<rparr>, ?w0)"
    using w0 by (metis prod.collapse)
  have hw: "healthy (walFile ?w0)" "\<not> closed ?w0" "queue ?w0 = []"
    using assms(1-3) by (simp_all add: healthy_def)
  obtain w' where app: "Append new ?w0 = Some (Inr (nextSeq ?w0 + 1), w')"
    and c: "content (walFile w') = content (walFile w) @ recordBytes new"
    and sy: "synced (walFile w') = length (content (walFile w'))"
    and h: "healthy (walFile w')"
    using Append_healthy [OF hw, of new] hw(1) by (auto simp: healthy_def)
  have "fst (Replay w') = Inr \<lparr>Seq = 1, Records = rs\<rparr>"
    by (rule Replay_short_payload [OF h assms(4,5,6)]) (use c assms(7,8) in simp_all)
  with rep app sy show ?thesis by blast
qed

lemma append_after_torn_tail_lost_witness:
  "\<exists>w0 n w'. Replay (walWith (take 5 (recordBytes (putRec ''name'' ''a value of thirty characters..''))))
      = (Inr \<lparr>Seq = 1, Records = []\<rparr>, w0)
    \<and> Append (putRec ''a'' ''1'') w0 = Some (Inr n, w') \<and> fst (Replay w') = Inr \<lparr>Seq = 1, Records = []\<rparr>"
proof -
  let ?r = "putRec ''name'' ''a value of thirty characters..''"
  have c: "content (walFile (walWith (take 5 (recordBytes ?r)))) = logBytes [] @ take 5 (recordBytes ?r)"
    by (simp add: walWith_def freshFile_def)
  have o: "\<not> closed (walWith (take 5 (recordBytes ?r)))" "queue (walWith (take 5 (recordBytes ?r))) = []"
    by (simp_all add: walWith_def freshWAL_def)
  have fits: "recordFits ?r" by (simp add: putRec_def recordFits_def)
  have len: "5 + length (recordBytes (putRec ''a'' ''1'')) < length (recordBytes ?r)"
    by (simp add: length_recordBytes putRec_def)
  show ?thesis
    using append_after_torn_tail_lost [OF healthy_walWith o _ fits _ len c] by auto
qed

end
