(* ===== verification/Durable_Log.thy ===== *)
theory Durable_Log
  imports Prelude
begin

text \<open>
  The interface the store relies on and the write-ahead log provides: a log that, while it is
  ready, accepts a record that fits, answers with the next sequence number and can afterwards
  be read back with that record at its end. The lemmas are what any client of such a log gets;
  \<^verbatim>\<open>Store\<close> interprets the locale on the model of internal/wal.
\<close>

locale durable_log =
  fixes append :: "'r \<Rightarrow> 'w \<Rightarrow> ((error + 's) \<times> 'w) option"
    and records :: "'w \<Rightarrow> 'r list"
    and lastSeq :: "'w \<Rightarrow> 's"
    and succSeq :: "'s \<Rightarrow> 's"
    and ready :: "'w \<Rightarrow> bool"
    and fits :: "'r \<Rightarrow> bool"
  assumes append_ready: "ready w \<Longrightarrow> fits r \<Longrightarrow>
    \<exists>w'. append r w = Some (Inr (succSeq (lastSeq w)), w')
      \<and> ready w' \<and> records w' = records w @ [r] \<and> lastSeq w' = succSeq (lastSeq w)"
begin

fun appendAll :: "'r list \<Rightarrow> 'w \<Rightarrow> 'w option" where
  "appendAll [] w = Some w"
| "appendAll (r # rs) w =
    (case append r w of Some (Inr s, w') \<Rightarrow> appendAll rs w' | _ \<Rightarrow> None)"

lemma appendAll_records:
  "ready w \<Longrightarrow> \<forall>r \<in> set rs. fits r \<Longrightarrow>
    \<exists>w'. appendAll rs w = Some w' \<and> ready w' \<and> records w' = records w @ rs
      \<and> lastSeq w' = (succSeq ^^ length rs) (lastSeq w)"
proof (induction rs arbitrary: w)
  case Nil
  then show ?case by simp
next
  case (Cons r rs)
  from append_ready [of w r] Cons.prems obtain w1 where
    w1: "append r w = Some (Inr (succSeq (lastSeq w)), w1)" "ready w1"
      "records w1 = records w @ [r]" "lastSeq w1 = succSeq (lastSeq w)"
    by auto
  with Cons.IH [of w1] Cons.prems obtain w' where "appendAll rs w1 = Some w'" "ready w'"
    "records w' = records w1 @ rs" "lastSeq w' = (succSeq ^^ length rs) (lastSeq w1)"
    by auto
  with w1 show ?case by (simp add: funpow_swap1)
qed

text \<open>A client state that is a fold over the records stays one across an append.\<close>

lemma fold_records_append:
  "ready w \<Longrightarrow> fits r \<Longrightarrow> append r w = Some (x, w') \<Longrightarrow>
    fold f (records w') z = f r (fold f (records w) z)"
  using append_ready [of w r] by auto

end

end
