(* ===== verification/Store.thy ===== *)
theory Store
  imports Wal_Proofs Durable_Log "HOL-Library.AList"
begin

text \<open>
  The key-value store (internal/store/store.go): the map, the log it writes ahead to, and the
  ordered application of records by sequence number (\<open>applyOrdered\<close>), where \<open>pending\<close> is an
  association list for the Go map from sequence numbers to records. Operations that wait for
  the log return an option, \<open>None\<close> when that wait never ends. The RWMutex and applyMu make
  each critical section one step; the orders in which concurrent clients reach
  \<open>applyOrdered\<close> are the orders of the calls in the theorems.
\<close>

record Store =
  data :: "gostring \<rightharpoonup> gostring"
  wal :: WAL
  nextApplySeq :: uint64
  pending :: "(uint64 \<times> Record) list"

text \<open>The \<open>switch record.Op\<close> of New, applyOrdered and Apply: other operations are ignored.\<close>

definition applyRecord :: "Record \<Rightarrow> (gostring \<rightharpoonup> gostring) \<Rightarrow> (gostring \<rightharpoonup> gostring)" where
  "applyRecord r d =
    (if Op r = OpPut then d(stringOf (Key r) \<mapsto> stringOf (Value r))
     else if Op r = OpDelete then d(stringOf (Key r) := None)
     else d)"

definition newStore :: "WAL \<Rightarrow> error + Store" where
  "newStore w =
    (case Replay w of
       (Inl e, w') \<Rightarrow> Inl e
     | (Inr replayed, w') \<Rightarrow>
         Inr \<lparr>data = fold applyRecord (Records replayed) Map.empty, wal = w',
              nextApplySeq = Seq replayed, pending = []\<rparr>)"

lemma length_delete_less:
  "map_of xs k = Some v \<Longrightarrow> length (AList.delete k xs) < length xs"
  by (auto simp: AList.delete_eq dest: map_of_SomeD intro!: length_filter_less)

text \<open>The loop of \<open>applyOrdered\<close>; every turn removes an entry of \<open>pending\<close>.\<close>

function drainPending :: "Store \<Rightarrow> Store" where
  "drainPending s =
    (case map_of (pending s) (nextApplySeq s) of
       None \<Rightarrow> s
     | Some r \<Rightarrow> drainPending (s\<lparr>data := applyRecord r (data s),
                                pending := AList.delete (nextApplySeq s) (pending s),
                                nextApplySeq := nextApplySeq s + 1\<rparr>))"
  by pat_completeness auto
termination
  by (relation "measure (\<lambda>s. length (pending s))") (simp_all add: length_delete_less)

declare drainPending.simps [simp del]

definition applyOrdered :: "uint64 \<Rightarrow> Record \<Rightarrow> Store \<Rightarrow> Store" where
  "applyOrdered seq r s = drainPending (s\<lparr>pending := AList.update seq r (pending s)\<rparr>)"

definition storeSet :: "gostring \<Rightarrow> gostring \<Rightarrow> Store \<Rightarrow> (error option \<times> Store) option" where
  "storeSet key val s =
    (let r = \<lparr>Op = OpPut, Key = bytesOf key, Value = bytesOf val\<rparr>
     in case Append r (wal s) of
          None \<Rightarrow> None
        | Some (Inl e, w) \<Rightarrow> Some (Some e, s\<lparr>wal := w\<rparr>)
        | Some (Inr seq, w) \<Rightarrow> Some (None, applyOrdered seq r (s\<lparr>wal := w\<rparr>)))"

definition storeGet :: "gostring \<Rightarrow> Store \<Rightarrow> gostring \<times> bool" where
  "storeGet key s = (case data s key of None \<Rightarrow> ([], False) | Some v \<Rightarrow> (v, True))"

definition storeDelete :: "gostring \<Rightarrow> Store \<Rightarrow> ((error + bool) \<times> Store) option" where
  "storeDelete key s =
    (let existed = (data s key \<noteq> None);
         r = \<lparr>Op = OpDelete, Key = bytesOf key, Value = []\<rparr>
     in case Append r (wal s) of
          None \<Rightarrow> None
        | Some (Inl e, w) \<Rightarrow> Some (Inl e, s\<lparr>wal := w\<rparr>)
        | Some (Inr seq, w) \<Rightarrow> Some (Inr existed, applyOrdered seq r (s\<lparr>wal := w\<rparr>)))"

definition storeApply :: "Record \<Rightarrow> Store \<Rightarrow> Store" where
  "storeApply r s = s\<lparr>data := applyRecord r (data s)\<rparr>"

definition ApplyPut :: "gostring \<Rightarrow> gostring \<Rightarrow> Store \<Rightarrow> (error option \<times> Store) option" where
  "ApplyPut key val s =
    (let r = \<lparr>Op = OpPut, Key = bytesOf key, Value = bytesOf val\<rparr>
     in case Append r (wal s) of
          None \<Rightarrow> None
        | Some (Inl e, w) \<Rightarrow> Some (Some e, s\<lparr>wal := w\<rparr>)
        | Some (Inr seq, w) \<Rightarrow> Some (None, applyOrdered seq r (s\<lparr>wal := w\<rparr>)))"

definition ApplyDelete :: "gostring \<Rightarrow> Store \<Rightarrow> (error option \<times> Store) option" where
  "ApplyDelete key s =
    (let r = \<lparr>Op = OpDelete, Key = bytesOf key, Value = []\<rparr>
     in case Append r (wal s) of
          None \<Rightarrow> None
        | Some (Inl e, w) \<Rightarrow> Some (Some e, s\<lparr>wal := w\<rparr>)
        | Some (Inr seq, w) \<Rightarrow> Some (None, applyOrdered seq r (s\<lparr>wal := w\<rparr>)))"

section \<open>Ordered application\<close>

text \<open>Sequence numbers as indices from the first one the store waits for.\<close>

abbreviation seqIndex :: "uint64 \<Rightarrow> uint64 \<Rightarrow> nat" where
  "seqIndex base q \<equiv> unat (q - base)"

lemma seqIndex_eq_iff:
  "i < 18446744073709551616 \<Longrightarrow> seqIndex base q = i \<longleftrightarrow> q = base + word_of_nat i"
  by (simp add: diff_eq_eq add.commute flip: uint64_eq_of_nat_iff)

text \<open>The store after the records with indices in \<open>I\<close> have arrived and the first \<open>m\<close> have
  been applied, from a map \<open>d\<close>.\<close>

definition arrived ::
  "uint64 \<Rightarrow> Record list \<Rightarrow> (gostring \<rightharpoonup> gostring) \<Rightarrow> nat set \<Rightarrow> nat \<Rightarrow> Store \<Rightarrow> bool" where
  "arrived base rs d I m s \<longleftrightarrow>
     {..<m} \<subseteq> I \<and> I \<subseteq> {..<length rs}
     \<and> data s = fold applyRecord (take m rs) d
     \<and> nextApplySeq s = base + word_of_nat m
     \<and> distinct (map fst (pending s))
     \<and> (\<forall>q. map_of (pending s) q =
          (if seqIndex base q \<in> I \<and> m \<le> seqIndex base q then Some (rs ! seqIndex base q) else None))"

lemma drainPending_arrived:
  assumes "arrived base rs d I m s" and "length rs < 2 ^ 64"
  shows "\<exists>m'. arrived base rs d I m' (drainPending s) \<and> m' \<notin> I \<and> wal (drainPending s) = wal s"
  using assms(1)
proof (induction s arbitrary: m rule: drainPending.induct)
  case (1 s)
  note a = "1.prems"
  have "m \<le> length rs"
    using a by (auto simp: arrived_def) (metis lessThan_subset_iff order_trans)
  with assms(2) have idx: "seqIndex base (nextApplySeq s) = m"
    using a by (simp add: arrived_def)
  then show ?case
  proof (cases "m \<in> I")
    case False
    then have "drainPending s = s"
      using a idx by (subst drainPending.simps) (simp add: arrived_def)
    with a False show ?thesis by auto
  next
    case True
    then have m: "m < length rs" using a by (auto simp: arrived_def)
    have look: "map_of (pending s) (nextApplySeq s) = Some (rs ! m)"
      using a idx True by (simp add: arrived_def)
    let ?s = "s\<lparr>data := applyRecord (rs ! m) (data s),
                pending := AList.delete (nextApplySeq s) (pending s),
                nextApplySeq := nextApplySeq s + 1\<rparr>"
    have step: "drainPending s = drainPending ?s"
      by (subst drainPending.simps) (simp add: look)
    have pend: "map_of (pending ?s) q =
        (if seqIndex base q \<in> I \<and> Suc m \<le> seqIndex base q then Some (rs ! seqIndex base q) else None)"
      for q
    proof (cases "q = nextApplySeq s")
      case True
      then show ?thesis using idx by (simp add: AList.delete_conv')
    next
      case False
      then have "seqIndex base q \<noteq> m"
        using a m assms(2) by (simp add: seqIndex_eq_iff arrived_def)
      with False show ?thesis
        using a by (auto simp: AList.delete_conv' arrived_def)
    qed
    have "arrived base rs d I (Suc m) ?s"
      using a True m pend
      by (simp add: arrived_def take_Suc_conv_app_nth AList.distinct_delete add.commute
          add.left_commute lessThan_Suc)
    from "1.IH" [OF look this] show ?thesis by (simp add: step)
  qed
qed

lemma applyOrdered_arrived:
  assumes "arrived base rs d I m s" and "length rs < 2 ^ 64" and "i < length rs" and "i \<notin> I"
  shows "\<exists>m'. arrived base rs d (insert i I) m' (applyOrdered (base + word_of_nat i) (rs ! i) s)
    \<and> m' \<notin> insert i I \<and> wal (applyOrdered (base + word_of_nat i) (rs ! i) s) = wal s"
proof -
  let ?q = "base + word_of_nat i"
  let ?s = "s\<lparr>pending := AList.update ?q (rs ! i) (pending s)\<rparr>"
  have mi: "m \<le> i" using assms(1,4) by (force simp: arrived_def)
  have "arrived base rs d (insert i I) m ?s"
    using assms mi
    by (auto simp: arrived_def AList.update_conv' AList.distinct_update seqIndex_eq_iff)
  from drainPending_arrived [OF this assms(2)] show ?thesis
    by (simp add: applyOrdered_def)
qed

end
