(* ===== verification/Store_Proofs.thy ===== *)
theory Store_Proofs
  imports Store
begin

text \<open>
  Properties of the store: ordered application whatever the order of arrival, the sequential
  behaviour of Set, Get and Delete, recovery from the log, and what a failed Append does to
  the operations after it. The write-ahead log enters through the locale
  \<^verbatim>\<open>durable_log\<close>, interpreted here.
\<close>

section \<open>The write-ahead log as a durable log\<close>

definition logRecords :: "WAL \<Rightarrow> Record list" where
  "logRecords w = (case fst (Replay w) of Inr rep \<Rightarrow> Records rep | Inl e \<Rightarrow> [])"

definition walReady :: "WAL \<Rightarrow> bool" where
  "walReady w \<longleftrightarrow> healthy (walFile w) \<and> \<not> closed w \<and> queue w = []
     \<and> (\<exists>rs. content (walFile w) = logBytes rs \<and> (\<forall>r \<in> set rs. recordFits r))"

lemma logRecords_eq:
  "healthy (walFile w) \<Longrightarrow> \<forall>r \<in> set rs. recordFits r \<Longrightarrow> content (walFile w) = logBytes rs
    \<Longrightarrow> logRecords w = rs"
  by (simp add: logRecords_def Replay_log)

lemma Append_walReady:
  assumes "walReady w" and "recordFits r"
  shows "\<exists>w'. Append r w = Some (Inr (nextSeq w + 1), w')
    \<and> walReady w' \<and> logRecords w' = logRecords w @ [r] \<and> nextSeq w' = nextSeq w + 1"
proof -
  obtain rs where h: "healthy (walFile w)" "\<not> closed w" "queue w = []"
    and c: "content (walFile w) = logBytes rs" and fits: "\<forall>r \<in> set rs. recordFits r"
    using assms(1) by (auto simp: walReady_def)
  obtain w' where a: "Append r w = Some (Inr (nextSeq w + 1), w')"
    and w': "healthy (walFile w')" "\<not> closed w'" "queue w' = []" "nextSeq w' = nextSeq w + 1"
    and c': "content (walFile w') = logBytes (rs @ [r])"
    using Append_healthy [OF h] h c by (auto simp: healthy_def)
  have fits': "\<forall>r \<in> set (rs @ [r]). recordFits r" using fits assms(2) by simp
  have "walReady w'" using w' c' fits' unfolding walReady_def by blast
  moreover have "logRecords w' = logRecords w @ [r]"
    using logRecords_eq [OF w'(1) fits' c'] logRecords_eq [OF h(1) fits c] by simp
  ultimately show ?thesis using a w'(4) by blast
qed

interpretation wal_log: durable_log Append logRecords nextSeq "\<lambda>q. q + 1" walReady recordFits
  by unfold_locales (rule Append_walReady)

section \<open>Properties: ordered application\<close>

lemma fold_applyOrdered_arrived:
  assumes "length rs < 2 ^ 64" and "arrived base rs d I m s" and "m \<notin> I"
    and "distinct xs" and "set xs \<subseteq> {..<length rs}" and "set xs \<inter> I = {}"
  shows "\<exists>m'. arrived base rs d (I \<union> set xs) m'
      (fold (\<lambda>i. applyOrdered (base + word_of_nat i) (rs ! i)) xs s) \<and> m' \<notin> I \<union> set xs"
  using assms(2-)
proof (induction xs arbitrary: s I m)
  case Nil
  then show ?case by auto
next
  case (Cons i xs)
  from applyOrdered_arrived [OF Cons.prems(1) assms(1), of i] Cons.prems obtain m1 where
    "arrived base rs d (insert i I) m1 (applyOrdered (base + word_of_nat i) (rs ! i) s)"
    "m1 \<notin> insert i I" by auto
  from Cons.IH [OF this] Cons.prems show ?case by auto
qed

lemma arrived_start:
  "pending s = [] \<Longrightarrow> arrived (nextApplySeq s) rs (data s) {} 0 s"
  by (simp add: arrived_def)

text \<open>The length of the gap-free beginning of a set of indices.\<close>

definition gapFree :: "nat \<Rightarrow> nat list \<Rightarrow> nat" where
  "gapFree n xs = length (takeWhile (\<lambda>i. i \<in> set xs) [0..<n])"

lemma gapFree_eq:
  assumes "{..<m} \<subseteq> set xs" and "m \<notin> set xs" and "set xs \<subseteq> {..<n}"
  shows "gapFree n xs = m"
proof -
  have "m \<le> n" using assms(1,3) by (metis lessThan_subset_iff order_trans)
  then have "[0..<n] = [0..<m] @ [m..<n]" by (metis le_add_diff_inverse upt_add_eq_append zero_le)
  moreover have "takeWhile (\<lambda>i. i \<in> set xs) [m..<n] = []"
    using assms(2) by (cases "m < n") (simp_all add: upt_conv_Cons)
  moreover have "takeWhile (\<lambda>i. i \<in> set xs) ([0..<m] @ ys) = [0..<m] @ takeWhile (\<lambda>i. i \<in> set xs) ys" for ys
    using assms(1) by (intro takeWhile_append2) auto
  ultimately show ?thesis by (simp add: gapFree_def)
qed

text \<open>C20. Ordered application, at every moment: whichever of the records numbered from the
  store's next sequence on have reached applyOrdered, in whatever order, the map is the old
  map with exactly the gap-free beginning of them applied, in sequence order; the next
  sequence is the first missing one, and nothing else is lost: the later arrivals are pending
  under their numbers.\<close>

theorem applyOrdered_prefix:
  assumes "pending s = []" and "length rs < 2 ^ 64"
    and "distinct xs" and "set xs \<subseteq> {..<length rs}"
    and "s' = fold (\<lambda>i. applyOrdered (nextApplySeq s + word_of_nat i) (rs ! i)) xs s"
    and "m = gapFree (length rs) xs"
  shows "data s' = fold applyRecord (take m rs) (data s)
    \<and> nextApplySeq s' = nextApplySeq s + word_of_nat m
    \<and> (\<forall>i < length rs. map_of (pending s') (nextApplySeq s + word_of_nat i) =
         (if i \<in> set xs \<and> m \<le> i then Some (rs ! i) else None))"
proof -
  obtain m' where a: "arrived (nextApplySeq s) rs (data s) (set xs) m' s'" and "m' \<notin> set xs"
    using fold_applyOrdered_arrived [OF assms(2) arrived_start [OF assms(1)] _ assms(3,4)]
    by (auto simp: assms(5))
  then have "m' = m"
    using gapFree_eq [of m' xs "length rs"] assms(4,6) by (simp add: arrived_def)
  with a assms(2) show ?thesis by (auto simp: arrived_def)
qed

definition emptyStore :: Store where
  "emptyStore = \<lparr>data = Map.empty, wal = freshWAL, nextApplySeq = 1, pending = []\<rparr>"

lemma emptyStore_simps [simp]:
  "data emptyStore = Map.empty" "wal emptyStore = freshWAL"
  "nextApplySeq emptyStore = 1" "pending emptyStore = []"
  by (simp_all add: emptyStore_def)

lemma applyOrdered_prefix_witness:
  "data (fold (\<lambda>i. applyOrdered (1 + word_of_nat i) ([putRec ''a'' ''0'', putRec ''a'' ''1'', putRec ''a'' ''2''] ! i))
     [2, 0] emptyStore) = [''a'' \<mapsto> ''0'']"
proof -
  let ?rs = "[putRec ''a'' ''0'', putRec ''a'' ''1'', putRec ''a'' ''2'']"
  have g: "1 = gapFree (length ?rs) [2, 0]"
    by (simp add: gapFree_def upt_conv_Cons)
  have "data (fold (\<lambda>i. applyOrdered (nextApplySeq emptyStore + word_of_nat i) (?rs ! i)) [2, 0] emptyStore)
      = fold applyRecord (take 1 ?rs) (data emptyStore)"
    using applyOrdered_prefix [OF _ _ _ _ refl g, of emptyStore] by simp
  then show ?thesis by (simp add: applyRecord_def putRec_def)
qed

text \<open>Once they have all arrived, the order of arrival does not matter: the map is the one
  a sequential execution in sequence order gives, and nothing is left pending.\<close>

lemma applyOrdered_any_order:
  assumes "pending s = []" and "length rs < 2 ^ 64"
    and "distinct xs" and "set xs = {..<length rs}"
    and "s' = fold (\<lambda>i. applyOrdered (nextApplySeq s + word_of_nat i) (rs ! i)) xs s"
  shows "data s' = fold applyRecord rs (data s)
    \<and> nextApplySeq s' = nextApplySeq s + word_of_nat (length rs) \<and> pending s' = []"
proof -
  obtain m' where a: "arrived (nextApplySeq s) rs (data s) (set xs) m' s'" and m': "m' \<notin> set xs"
    using fold_applyOrdered_arrived [OF assms(2) arrived_start [OF assms(1)] _ assms(3)] assms(4)
    by (auto simp: assms(5))
  then have m: "m' = length rs"
    using assms(4) by (auto simp: arrived_def)
  have "map_of (pending s') = Map.empty"
    using a m by (auto simp: arrived_def fun_eq_iff)
  then show ?thesis using a m by (simp add: arrived_def)
qed

lemma applyOrdered_any_order_witness:
  "data (fold (\<lambda>i. applyOrdered (1 + word_of_nat i) ([putRec ''a'' ''0'', putRec ''a'' ''1''] ! i))
     [1, 0] emptyStore) = [''a'' \<mapsto> ''1'']"
proof -
  let ?rs = "[putRec ''a'' ''0'', putRec ''a'' ''1'']"
  have "set [1, 0] = {..<length ?rs}" by auto
  then have "data (fold (\<lambda>i. applyOrdered (nextApplySeq emptyStore + word_of_nat i) (?rs ! i)) [1, 0] emptyStore)
      = fold applyRecord ?rs (data emptyStore)"
    using applyOrdered_any_order [OF _ _ _ _ refl, of emptyStore ?rs "[1, 0]"] by simp
  then show ?thesis by (simp add: applyRecord_def putRec_def)
qed

section \<open>Properties: the sequential store\<close>

definition storeReady :: "Store \<Rightarrow> bool" where
  "storeReady s \<longleftrightarrow> walReady (wal s) \<and> pending s = [] \<and> nextApplySeq s = nextSeq (wal s) + 1
     \<and> data s = fold applyRecord (logRecords (wal s)) Map.empty"

lemma applyOrdered_next:
  "pending s = [] \<Longrightarrow> applyOrdered (nextApplySeq s) r s =
     s\<lparr>data := applyRecord r (data s), nextApplySeq := nextApplySeq s + 1\<rparr>"
  by (simp add: applyOrdered_def) (subst drainPending.simps, simp, subst drainPending.simps, simp)

lemma ApplyPut_eq: "ApplyPut = storeSet"
  by (intro ext) (simp add: ApplyPut_def storeSet_def)

text \<open>One record through the log and into the map, from a ready store.\<close>

lemma store_write_ready:
  assumes "storeReady s" and "recordFits r"
  obtains w where "Append r (wal s) = Some (Inr (nextApplySeq s), w)"
    and "storeReady (applyOrdered (nextApplySeq s) r (s\<lparr>wal := w\<rparr>))"
    and "data (applyOrdered (nextApplySeq s) r (s\<lparr>wal := w\<rparr>)) = applyRecord r (data s)"
proof -
  from assms have rdy: "walReady (wal s)" and p: "pending s = []"
    and n: "nextApplySeq s = nextSeq (wal s) + 1"
    and d: "data s = fold applyRecord (logRecords (wal s)) Map.empty"
    by (simp_all add: storeReady_def)
  from wal_log.append_ready [OF rdy assms(2)] obtain w where
    a: "Append r (wal s) = Some (Inr (nextApplySeq s), w)"
    and w: "walReady w" "logRecords w = logRecords (wal s) @ [r]" "nextSeq w = nextApplySeq s"
    by (auto simp: n)
  have ap: "applyOrdered (nextApplySeq s) r (s\<lparr>wal := w\<rparr>) =
      s\<lparr>data := applyRecord r (data s), wal := w, nextApplySeq := nextApplySeq s + 1\<rparr>"
    using applyOrdered_next [of "s\<lparr>wal := w\<rparr>" r] p by simp
  show ?thesis
    by (rule that [OF a]) (use w p d in \<open>simp_all add: ap storeReady_def\<close>)
qed

definition setFits :: "gostring \<Rightarrow> gostring \<Rightarrow> bool" where
  "setFits k v \<longleftrightarrow> 13 + length k + length v < 2 ^ 32"

lemma applyRecord_put [simp]:
  "applyRecord \<lparr>Op = OpPut, Key = bytesOf k, Value = bytesOf v\<rparr> d = d(k \<mapsto> v)"
  by (simp add: applyRecord_def)

lemma applyRecord_delete [simp]:
  "applyRecord \<lparr>Op = OpDelete, Key = bytesOf k, Value = []\<rparr> d = d(k := None)"
  by (simp add: applyRecord_def OpPut_def OpDelete_def)

lemma storeSet_ready:
  assumes "storeReady s" and "setFits k v"
  shows "\<exists>s'. storeSet k v s = Some (None, s') \<and> storeReady s' \<and> data s' = (data s)(k \<mapsto> v)"
proof -
  have "recordFits \<lparr>Op = OpPut, Key = bytesOf k, Value = bytesOf v\<rparr>"
    using assms(2) by (simp add: recordFits_def setFits_def)
  from store_write_ready [OF assms(1) this] show ?thesis by (force simp: storeSet_def)
qed

lemma storeDelete_ready:
  assumes "storeReady s" and "setFits k []"
  shows "\<exists>s'. storeDelete k s = Some (Inr (data s k \<noteq> None), s') \<and> storeReady s'
    \<and> data s' = (data s)(k := None)"
proof -
  have "recordFits \<lparr>Op = OpDelete, Key = bytesOf k, Value = []\<rparr>"
    using assms(2) by (simp add: recordFits_def setFits_def)
  from store_write_ready [OF assms(1) this] show ?thesis by (force simp: storeDelete_def)
qed

text \<open>A client's calls, one after the other; \<open>None\<close> when one fails or does not return.\<close>

datatype storeOp = SetOp gostring gostring | DeleteOp gostring

fun opFits :: "storeOp \<Rightarrow> bool" where
  "opFits (SetOp k v) = setFits k v"
| "opFits (DeleteOp k) = setFits k []"

fun runOp :: "storeOp \<Rightarrow> Store \<Rightarrow> Store option" where
  "runOp (SetOp k v) s = (case storeSet k v s of Some (None, s') \<Rightarrow> Some s' | _ \<Rightarrow> None)"
| "runOp (DeleteOp k) s = (case storeDelete k s of Some (Inr b, s') \<Rightarrow> Some s' | _ \<Rightarrow> None)"

fun runOps :: "storeOp list \<Rightarrow> Store \<Rightarrow> Store option" where
  "runOps [] s = Some s"
| "runOps (p # ps) s = (case runOp p s of None \<Rightarrow> None | Some s' \<Rightarrow> runOps ps s')"

fun specOp :: "storeOp \<Rightarrow> (gostring \<rightharpoonup> gostring) \<Rightarrow> (gostring \<rightharpoonup> gostring)" where
  "specOp (SetOp k v) d = d(k \<mapsto> v)"
| "specOp (DeleteOp k) d = d(k := None)"

lemma runOp_ready:
  "storeReady s \<Longrightarrow> opFits p \<Longrightarrow> \<exists>s'. runOp p s = Some s' \<and> storeReady s' \<and> data s' = specOp p (data s)"
  by (cases p) (force dest: storeSet_ready storeDelete_ready)+

lemma runOps_ready:
  "storeReady s \<Longrightarrow> \<forall>p \<in> set ps. opFits p \<Longrightarrow>
     \<exists>s'. runOps ps s = Some s' \<and> storeReady s' \<and> data s' = fold specOp ps (data s)"
  by (induction ps arbitrary: s) (force dest: runOp_ready)+

text \<open>C12. Functional refinement: from a ready store (nothing pending, the log intact) every
  sequence of Set and Delete calls whose records fit succeeds, and afterwards Get answers, for
  every key, what a plain map updated by the same calls holds.\<close>

theorem store_refines_map:
  assumes "storeReady s" and "\<forall>p \<in> set ps. opFits p"
  shows "\<exists>s'. runOps ps s = Some s' \<and> storeReady s'
    \<and> (\<forall>k. storeGet k s' = (case fold specOp ps (data s) k of
          None \<Rightarrow> ([], False) | Some v \<Rightarrow> (v, True)))"
  using runOps_ready [OF assms] by (auto simp: storeGet_def)

lemma storeReady_empty [simp]: "storeReady emptyStore"
proof -
  have "walReady freshWAL"
    by (auto simp: walReady_def) (auto simp: freshWAL_def freshFile_def intro: exI [of _ "[]"])
  moreover have "logRecords freshWAL = []"
    by (rule logRecords_eq) (simp_all add: freshWAL_def freshFile_def healthy_def)
  moreover have "nextSeq freshWAL = 0" by (simp add: freshWAL_def)
  ultimately show ?thesis by (simp add: storeReady_def)
qed

lemma store_refines_map_witness:
  "\<exists>s'. runOps [SetOp ''k'' ''v'', SetOp ''l'' ''w'', DeleteOp ''k''] emptyStore = Some s'
     \<and> storeGet ''k'' s' = ([], False) \<and> storeGet ''l'' s' = (''w'', True)"
  using store_refines_map [of emptyStore "[SetOp ''k'' ''v'', SetOp ''l'' ''w'', DeleteOp ''k'']"]
  by (auto simp: setFits_def)

section \<open>Properties: recovery\<close>

lemma newStore_ready:
  assumes "walReady w" and "nextSeq w = 0"
  shows "\<exists>t. newStore w = Inr t \<and> storeReady t \<and> data t = fold applyRecord (logRecords w) Map.empty"
proof -
  obtain rs where h: "healthy (walFile w)" and c: "content (walFile w) = logBytes rs"
    and fits: "\<forall>r \<in> set rs. recordFits r"
    using assms(1) by (auto simp: walReady_def)
  obtain k where w': "snd (Replay w) = w\<lparr>walFile := (walFile w)\<lparr>offset := k\<rparr>\<rparr>" (is "_ = ?w")
    using Replay_frame [OF h] by blast
  have rep: "Replay w = (Inr \<lparr>Seq = 1, Records = rs\<rparr>, ?w)"
    using Replay_log [OF h fits c] w' by (metis prod.collapse)
  have rdy: "walReady ?w" using assms(1) by (simp add: walReady_def healthy_def)
  have "logRecords ?w = rs" and rs: "logRecords w = rs"
    using h c fits by (auto intro!: logRecords_eq simp: healthy_def)
  with rdy assms(2) show ?thesis
    by (simp add: newStore_def rep storeReady_def)
qed

text \<open>Opening a new log on a ready store's file, and a new store from it.\<close>

lemma reopen_ready:
  assumes "storeReady s"
  shows "\<exists>w t. Open (Inr (walFile (wal s))) = Inr w \<and> newStore w = Inr t \<and> storeReady t \<and> data t = data s"
proof -
  let ?w = "\<lparr>walFile = walFile (wal s), queue = [], closed = False, nextSeq = 0,
    batchCount = 0, totalRecords = 0, acks = []\<rparr>"
  have "walReady ?w" using assms by (simp add: storeReady_def walReady_def)
  then obtain t where t: "newStore ?w = Inr t" "storeReady t"
    "data t = fold applyRecord (logRecords ?w) Map.empty"
    using newStore_ready [of ?w] by auto
  obtain rs where h: "healthy (walFile (wal s))" and c: "content (walFile (wal s)) = logBytes rs"
    and fits: "\<forall>r \<in> set rs. recordFits r"
    using assms by (auto simp: storeReady_def walReady_def)
  have "logRecords ?w = logRecords (wal s)"
    using logRecords_eq [of ?w rs] logRecords_eq [of "wal s" rs] h c fits by simp
  then have "data t = data s" using t(3) assms by (simp add: storeReady_def)
  with t show ?thesis by (auto simp: Open_def)
qed

text \<open>C9. Crash recovery of the store: after any sequence of successful Set and Delete calls,
  opening a new WAL on the same file and building a new store from it succeeds and gives
  the same map, and the new store is ready to go on.\<close>

theorem store_recovers:
  assumes "storeReady s" and "\<forall>p \<in> set ps. opFits p"
  shows "\<exists>s' w t. runOps ps s = Some s' \<and> Open (Inr (walFile (wal s'))) = Inr w
    \<and> newStore w = Inr t \<and> storeReady t \<and> data t = fold specOp ps (data s)"
  using runOps_ready [OF assms] reopen_ready by metis

lemma store_recovers_witness:
  "\<exists>s' w t. runOps [SetOp ''k'' ''v'', DeleteOp ''k'', SetOp ''k'' ''x''] emptyStore = Some s'
     \<and> Open (Inr (walFile (wal s'))) = Inr w \<and> newStore w = Inr t \<and> data t = [''k'' \<mapsto> ''x'']"
  using store_recovers [of emptyStore "[SetOp ''k'' ''v'', DeleteOp ''k'', SetOp ''k'' ''x'']"]
  by (force simp: setFits_def)

section \<open>Properties: a failed append\<close>

text \<open>A store whose next expected sequence number was consumed by a failed append: \<open>j\<close> later
  appends are waiting behind it.\<close>

definition gapped :: "nat \<Rightarrow> Store \<Rightarrow> bool" where
  "gapped j s \<longleftrightarrow> healthy (walFile (wal s)) \<and> \<not> closed (wal s) \<and> queue (wal s) = []
     \<and> nextSeq (wal s) = nextApplySeq s + word_of_nat j
     \<and> map_of (pending s) (nextApplySeq s) = None"

lemma gapped_write:
  assumes "gapped j s" and "Suc j < 18446744073709551616"
  shows "\<exists>n w. Append r (wal s) = Some (Inr n, w) \<and> gapped (Suc j) (applyOrdered n r (s\<lparr>wal := w\<rparr>))
    \<and> data (applyOrdered n r (s\<lparr>wal := w\<rparr>)) = data s"
proof -
  define n where "n = nextSeq (wal s) + 1"
  obtain w where a: "Append r (wal s) = Some (Inr n, w)"
    and w: "healthy (walFile w)" "\<not> closed w" "queue w = []" "nextSeq w = n"
    using Append_healthy [of "wal s" r] assms(1) by (auto simp: gapped_def healthy_def n_def)
  have n: "n = nextApplySeq s + word_of_nat (Suc j)"
    using assms(1) by (simp add: gapped_def n_def add.commute add.left_commute)
  have "unat (word_of_nat (Suc j) :: uint64) = Suc j" using assms(2) by (rule unat64_of_nat)
  then have "(word_of_nat (Suc j) :: uint64) \<noteq> 0" by (metis nat.distinct(1) unat_0)
  then have ne: "n \<noteq> nextApplySeq s" unfolding n by simp
  let ?s = "s\<lparr>wal := w, pending := AList.update n r (pending s)\<rparr>"
  have ap: "applyOrdered n r (s\<lparr>wal := w\<rparr>) = ?s"
    using assms(1) ne unfolding applyOrdered_def
    by (subst drainPending.simps) (simp add: gapped_def AList.update_conv')
  have "gapped (Suc j) ?s"
    using w ne n assms(1) by (simp add: gapped_def AList.update_conv' del: of_nat_Suc)
  with a show ?thesis by (intro exI [of _ n] exI [of _ w]) (simp add: ap)
qed

lemma gapped_runOp:
  "gapped j s \<Longrightarrow> Suc j < 18446744073709551616 \<Longrightarrow>
     \<exists>s'. runOp p s = Some s' \<and> gapped (Suc j) s' \<and> data s' = data s"
proof (cases p)
  case (SetOp k v)
  assume "gapped j s" "Suc j < 18446744073709551616"
  from gapped_write [OF this, of "\<lparr>Op = OpPut, Key = bytesOf k, Value = bytesOf v\<rparr>"]
  show ?thesis by (auto simp: SetOp storeSet_def)
next
  case (DeleteOp k)
  assume "gapped j s" "Suc j < 18446744073709551616"
  from gapped_write [OF this, of "\<lparr>Op = OpDelete, Key = bytesOf k, Value = []\<rparr>"]
  show ?thesis by (auto simp: DeleteOp storeDelete_def)
qed

lemma gapped_runOps:
  "gapped j s \<Longrightarrow> j + length ps < 18446744073709551616 \<Longrightarrow>
     \<exists>s'. runOps ps s = Some s' \<and> data s' = data s"
proof (induction ps arbitrary: j s)
  case Nil
  then show ?case by simp
next
  case (Cons p ps)
  from gapped_runOp [OF Cons.prems(1), of p] Cons.prems(2) obtain s1 where
    "runOp p s = Some s1" "gapped (Suc j) s1" "data s1 = data s" by auto
  with Cons.IH [of "Suc j" s1] Cons.prems(2) show ?case by auto
qed

definition withWriteFault :: "nat \<Rightarrow> Store \<Rightarrow> Store" where
  "withWriteFault n s = s\<lparr>wal := (wal s)\<lparr>walFile := (walFile (wal s))\<lparr>writeFaults := [Some n]\<rparr>\<rparr>\<rparr>"

text \<open>C29. One failed write silences the store: when the log's Write fails once (after any
  number of bytes), Set returns the error and the map is unchanged, but the sequence number it
  took is never applied. Every later Set and Delete then reports success (its record is logged
  and synced) while the map never changes again.\<close>

theorem failed_write_blocks_later_operations:
  assumes "storeReady s"
  shows "\<exists>s1. storeSet k v (withWriteFault n s) = Some (Some (Errorf ''failed to write WAL batch''), s1)
    \<and> data s1 = data s
    \<and> (\<forall>ps. length ps < 2 ^ 64 - 1 \<longrightarrow> (\<exists>s2. runOps ps s1 = Some s2 \<and> data s2 = data s))"
proof -
  let ?r = "\<lparr>Op = OpPut, Key = bytesOf k, Value = bytesOf v\<rparr>"
  let ?s = "withWriteFault n s"
  have h: "healthy (walFile (wal s))" "\<not> closed (wal s)" "queue (wal s) = []" "pending s = []"
    "nextApplySeq s = nextSeq (wal s) + 1"
    using assms by (auto simp: storeReady_def walReady_def)
  obtain w where a: "Append ?r (wal ?s) = Some (Inl (Errorf ''failed to write WAL batch''), w)"
    and w: "healthy (walFile w)" "\<not> closed w" "queue w = []" "nextSeq w = nextApplySeq s"
    using h by (auto simp: Append_def withWriteFault_def appendEnqueue_def Let_def commitRound_open
        commitBatch_def encodeBatch_eq fileWrite_def ackAll_def doneOf_def healthy_def)
  let ?s1 = "?s\<lparr>wal := w\<rparr>"
  have "storeSet k v ?s = Some (Some (Errorf ''failed to write WAL batch''), ?s1)"
    using a by (simp add: storeSet_def)
  moreover have d: "data ?s1 = data s" by (simp add: withWriteFault_def)
  moreover have "gapped 0 ?s1"
    using w h by (simp add: gapped_def withWriteFault_def)
  then have "\<forall>ps. length ps < 2 ^ 64 - 1 \<longrightarrow> (\<exists>s2. runOps ps ?s1 = Some s2 \<and> data s2 = data s)"
    using gapped_runOps [of 0 ?s1] d by simp
  ultimately show ?thesis by blast
qed

lemma failed_write_blocks_later_operations_witness:
  "\<exists>s1 s2. storeSet ''k'' ''v'' (withWriteFault 3 emptyStore)
       = Some (Some (Errorf ''failed to write WAL batch''), s1)
     \<and> runOps [SetOp ''k'' ''w'', DeleteOp ''l''] s1 = Some s2 \<and> data s2 = Map.empty"
proof -
  from failed_write_blocks_later_operations [OF storeReady_empty, of "''k''" "''v''" 3]
  obtain s1 where s1: "storeSet ''k'' ''v'' (withWriteFault 3 emptyStore)
       = Some (Some (Errorf ''failed to write WAL batch''), s1)"
    and all: "\<forall>ps. length ps < 2 ^ 64 - 1 \<longrightarrow> (\<exists>s2. runOps ps s1 = Some s2 \<and> data s2 = Map.empty)"
    by auto
  from all [rule_format, of "[SetOp ''k'' ''w'', DeleteOp ''l'']"] s1 show ?thesis by simp
qed

end
