(* ===== verification/Wal_Queue.thy ===== *)
theory Wal_Queue
  imports Wal
begin

text \<open>
  The write-ahead log under concurrent clients (internal/wal/wal.go): any number of goroutines
  in Append, which hold the mutex while they send on the bounded queue, and the commit
  goroutine of \<open>start\<close>, which takes the same mutex between collecting a batch and writing it.
  One step is one operation on the mutex, the channel or the file. Requests are answered in
  sequence order and exactly once; with 1026 clients at the same time the mutex and the full
  queue block each other for good, with fewer something can always move.
\<close>

section \<open>The states of the goroutines\<close>

text \<open>Where the commit goroutine is: at the \<^verbatim>\<open>range\<close> receive, in the collecting loop, before the
  mutex, or between the mutex and the last answer.\<close>

datatype Phase =
    Receiving
  | Collecting "pendingWrite list"
  | Locking "pendingWrite list"
  | Writing "pendingWrite list"

text \<open>The client that holds the mutex, blocked on or about to do the send; the others are not
  part of the state.\<close>

record QState =
  qWal :: WAL
  qHolder :: "pendingWrite option"
  qPhase :: Phase

text \<open>\<open>commitBatch\<close> in its two parts, the counters under the mutex and the rest.\<close>

definition countBatch :: "pendingWrite list \<Rightarrow> WAL \<Rightarrow> WAL" where
  "countBatch batch w =
    w\<lparr>batchCount := batchCount w + 1, totalRecords := totalRecords w + int (length batch)\<rparr>"

definition writeBatch :: "pendingWrite list \<Rightarrow> WAL \<Rightarrow> WAL" where
  "writeBatch batch w =
    (case encodeBatch batch of
       None \<Rightarrow> ackAll batch (Some (Errorf ''failed to encode WAL batch'')) w
     | Some encoded \<Rightarrow>
        (case writeAll encoded (walFile w) of
           (True, f1) \<Rightarrow>
             ackAll batch (Some (Errorf ''failed to write WAL batch'')) (w\<lparr>walFile := f1\<rparr>)
         | (False, f1) \<Rightarrow>
            (case fileSync f1 of
               (Some e, f2) \<Rightarrow> ackAll batch (Some e) (w\<lparr>walFile := f2\<rparr>)
             | (None, f2) \<Rightarrow> ackAll batch None (w\<lparr>walFile := f2\<rparr>))))"

lemma commitBatch_parts: "commitBatch batch w = writeBatch batch (countBatch batch w)"
  by (simp add: commitBatch_def writeBatch_def countBatch_def Let_def)

section \<open>Steps\<close>

definition lockAppend :: "Record \<Rightarrow> QState \<Rightarrow> QState option" where
  "lockAppend r s =
    (if qHolder s \<noteq> None \<or> closed (qWal s) then None
     else let n = nextSeq (qWal s) + 1
          in Some (s\<lparr>qWal := (qWal s)\<lparr>nextSeq := n\<rparr>, qHolder := Some \<lparr>reqRecord = r, reqSeq = n\<rparr>\<rparr>))"

definition sendRequest :: "QState \<Rightarrow> QState option" where
  "sendRequest s =
    (case qHolder s of
       None \<Rightarrow> None
     | Some request \<Rightarrow>
        if length (queue (qWal s)) < queueCap
        then Some (s\<lparr>qWal := (qWal s)\<lparr>queue := queue (qWal s) @ [request]\<rparr>, qHolder := None\<rparr>)
        else None)"

fun committerStep :: "QState \<Rightarrow> QState option" where
  "committerStep s =
    (let w = qWal s in
     case qPhase s of
       Receiving \<Rightarrow>
         (case queue w of
            [] \<Rightarrow> None
          | first # rest \<Rightarrow> Some (s\<lparr>qWal := w\<lparr>queue := rest\<rparr>, qPhase := Collecting [first]\<rparr>))
     | Collecting batch \<Rightarrow>
         (case queue w of
            [] \<Rightarrow> if closed w then Some (s\<lparr>qPhase := Collecting (batch @ [zeroRequest])\<rparr>)
                  else Some (s\<lparr>qPhase := Locking batch\<rparr>)
          | request # rest \<Rightarrow>
              Some (s\<lparr>qWal := w\<lparr>queue := rest\<rparr>, qPhase := Collecting (batch @ [request])\<rparr>))
     | Locking batch \<Rightarrow>
         (if qHolder s \<noteq> None then None
          else Some (s\<lparr>qWal := countBatch batch w, qPhase := Writing batch\<rparr>))
     | Writing batch \<Rightarrow> Some (s\<lparr>qWal := writeBatch batch w, qPhase := Receiving\<rparr>))"

inductive qstep :: "QState \<Rightarrow> QState \<Rightarrow> bool" where
  client: "lockAppend r s = Some s' \<Longrightarrow> qstep s s'"
| send: "sendRequest s = Some s' \<Longrightarrow> qstep s s'"
| committer: "committerStep s = Some s' \<Longrightarrow> qstep s s'"

inductive_cases qstepE: "qstep s s'"

inductive qsteps :: "QState \<Rightarrow> QState \<Rightarrow> bool" where
  qsteps_refl: "qsteps s s"
| qsteps_step: "qsteps s s' \<Longrightarrow> qstep s' s'' \<Longrightarrow> qsteps s s''"

lemma qsteps_trans: "qsteps s2 s3 \<Longrightarrow> qsteps s1 s2 \<Longrightarrow> qsteps s1 s3"
  by (induction rule: qsteps.induct) (auto intro: qsteps_step)

definition startState :: "WAL \<Rightarrow> QState" where
  "startState w = \<lparr>qWal = w, qHolder = None, qPhase = Receiving\<rparr>"

section \<open>Requests are answered once and in order\<close>

fun phaseBatch :: "Phase \<Rightarrow> pendingWrite list" where
  "phaseBatch Receiving = []"
| "phaseBatch (Collecting b) = b"
| "phaseBatch (Locking b) = b"
| "phaseBatch (Writing b) = b"

text \<open>All requests ever made, oldest first: answered, in the goroutine's hands, queued, at the
  send.\<close>

definition allRequests :: "QState \<Rightarrow> pendingWrite list" where
  "allRequests s = map fst (acks (qWal s)) @ phaseBatch (qPhase s) @ queue (qWal s)
     @ (case qHolder s of None \<Rightarrow> [] | Some r \<Rightarrow> [r])"

definition inOrder :: "QState \<Rightarrow> bool" where
  "inOrder s \<longleftrightarrow> \<not> closed (qWal s)
     \<and> nextSeq (qWal s) = word_of_nat (length (allRequests s))
     \<and> map reqSeq (allRequests s) = map word_of_nat [1..<Suc (length (allRequests s))]"

lemma writeBatch_frame:
  "map fst (acks (writeBatch b w)) = map fst (acks w) @ b \<and> queue (writeBatch b w) = queue w
   \<and> closed (writeBatch b w) = closed w \<and> nextSeq (writeBatch b w) = nextSeq w"
  by (auto simp: writeBatch_def ackAll_def comp_def split: option.splits prod.splits bool.splits)

lemma countBatch_frame:
  "acks (countBatch b w) = acks w \<and> queue (countBatch b w) = queue w
   \<and> closed (countBatch b w) = closed w \<and> nextSeq (countBatch b w) = nextSeq w"
  by (simp add: countBatch_def)

lemma committerStep_requests:
  assumes "committerStep s = Some s'" and "\<not> closed (qWal s)"
  shows "allRequests s' = allRequests s \<and> nextSeq (qWal s') = nextSeq (qWal s) \<and> \<not> closed (qWal s')"
  using assms
  by (auto simp: allRequests_def Let_def writeBatch_frame countBatch_frame
      split: Phase.splits list.splits if_splits)

lemma sendRequest_requests:
  assumes "sendRequest s = Some s'"
  shows "allRequests s' = allRequests s \<and> nextSeq (qWal s') = nextSeq (qWal s) \<and> closed (qWal s') = closed (qWal s)"
  using assms by (auto simp: sendRequest_def allRequests_def split: option.splits if_splits)

lemma lockAppend_requests:
  assumes "lockAppend r s = Some s'"
  shows "allRequests s' = allRequests s @ [\<lparr>reqRecord = r, reqSeq = nextSeq (qWal s) + 1\<rparr>]
    \<and> nextSeq (qWal s') = nextSeq (qWal s) + 1 \<and> \<not> closed (qWal s')"
  using assms by (auto simp: lockAppend_def allRequests_def Let_def split: if_splits)

lemma qstep_inOrder: "qstep s s' \<Longrightarrow> inOrder s \<Longrightarrow> inOrder s'"
proof (induction rule: qstep.induct)
  case (client r s s')
  then show ?case
    using lockAppend_requests [OF client.hyps] by (simp add: inOrder_def add.commute)
next
  case (send s s')
  then show ?case using sendRequest_requests [OF send.hyps] by (simp add: inOrder_def)
next
  case (committer s s')
  then show ?case
    using committerStep_requests [OF committer.hyps] by (simp add: inOrder_def)
qed

lemma qsteps_inOrder: "qsteps s s' \<Longrightarrow> inOrder s \<Longrightarrow> inOrder s'"
  by (induction rule: qsteps.induct) (auto intro: qstep_inOrder)

text \<open>C18. Nothing is lost, doubled or overtaken in the queue: from a fresh open log, under any
  interleaving of clients and the commit goroutine, the requests answered so far, then the
  batch in hand, then the queue, then the one at the send are all requests made, numbered
  1, 2, 3, ... without a gap, and nextSeq is their number. In particular the answers are given
  in the order of the sequence numbers.\<close>

theorem requests_in_order:
  assumes "qsteps (startState w) s" and "\<not> closed w" and "queue w = []" and "acks w = []"
    and "nextSeq w = 0"
  shows "map reqSeq (map fst (acks (qWal s)) @ phaseBatch (qPhase s) @ queue (qWal s)
      @ (case qHolder s of None \<Rightarrow> [] | Some r \<Rightarrow> [r]))
    = map word_of_nat [1..<Suc (length (allRequests s))]
    \<and> nextSeq (qWal s) = word_of_nat (length (allRequests s))"
proof -
  have "inOrder (startState w)"
    using assms(2-5) by (simp add: inOrder_def startState_def allRequests_def)
  from qsteps_inOrder [OF assms(1) this] show ?thesis
    by (simp add: inOrder_def allRequests_def [symmetric] del: upt_Suc)
qed

definition openFile :: FileState where
  "openFile = \<lparr>content = [], synced = 0, syncCalls = 0, offset = 0, writeFaults = [], syncFaults = [],
     seekFault = False, readFault = None, closeFault = False\<rparr>"

definition openWAL :: WAL where
  "openWAL = \<lparr>walFile = openFile, queue = [], closed = False, nextSeq = 0, batchCount = 0,
     totalRecords = 0, acks = []\<rparr>"

definition anyRecord :: Record where
  "anyRecord = \<lparr>Op = OpPut, Key = [1], Value = [2]\<rparr>"

lemma lockAppend_Some:
  "qHolder s = None \<Longrightarrow> \<not> closed (qWal s) \<Longrightarrow>
    lockAppend r s = Some (s\<lparr>qWal := (qWal s)\<lparr>nextSeq := nextSeq (qWal s) + 1\<rparr>,
      qHolder := Some \<lparr>reqRecord = r, reqSeq = nextSeq (qWal s) + 1\<rparr>\<rparr>)"
  by (simp add: lockAppend_def Let_def)

text \<open>The first request: enqueued, and taken by the commit goroutine.\<close>

definition firstTaken :: QState where
  "firstTaken = \<lparr>qWal = openWAL\<lparr>nextSeq := 1\<rparr>, qHolder = None,
     qPhase = Collecting [\<lparr>reqRecord = anyRecord, reqSeq = 1\<rparr>]\<rparr>"

lemma first_request: "qsteps (startState openWAL) firstTaken"
proof -
  let ?w1 = "openWAL\<lparr>nextSeq := 1\<rparr>" and ?r1 = "\<lparr>reqRecord = anyRecord, reqSeq = 1\<rparr>"
  have 1: "qstep (startState openWAL) \<lparr>qWal = ?w1, qHolder = Some ?r1, qPhase = Receiving\<rparr>"
    by (rule client [of anyRecord]) (simp add: lockAppend_def startState_def openWAL_def)
  have 2: "qstep \<lparr>qWal = ?w1, qHolder = Some ?r1, qPhase = Receiving\<rparr>
      \<lparr>qWal = ?w1\<lparr>queue := [?r1]\<rparr>, qHolder = None, qPhase = Receiving\<rparr>"
    by (rule send) (simp add: sendRequest_def openWAL_def queueCap_def)
  have 3: "qstep \<lparr>qWal = ?w1\<lparr>queue := [?r1]\<rparr>, qHolder = None, qPhase = Receiving\<rparr> firstTaken"
    by (rule committer) (simp add: openWAL_def firstTaken_def)
  show ?thesis by (rule qsteps_step [OF qsteps_step [OF qsteps_step [OF qsteps_refl 1] 2] 3])
qed

text \<open>Two clients in a row: the first request is in hand, the second client holds the mutex.\<close>

lemma requests_in_order_witness:
  "\<exists>s. qsteps (startState openWAL) s
     \<and> map reqSeq (map fst (acks (qWal s)) @ phaseBatch (qPhase s) @ queue (qWal s)
        @ (case qHolder s of None \<Rightarrow> [] | Some r \<Rightarrow> [r])) = [1, 2]"
proof -
  let ?s = "firstTaken\<lparr>qWal := openWAL\<lparr>nextSeq := 2\<rparr>, qHolder := Some \<lparr>reqRecord = anyRecord, reqSeq = 2\<rparr>\<rparr>"
  have "qstep firstTaken ?s"
    by (rule client [of anyRecord]) (simp add: lockAppend_def openWAL_def firstTaken_def)
  then have run: "qsteps (startState openWAL) ?s" by (rule qsteps_step [OF first_request])
  have len: "length (allRequests ?s) = 2" by (simp add: allRequests_def openWAL_def firstTaken_def)
  have two: "map word_of_nat [1..<Suc 2] = ([1, 2] :: uint64 list)" by (simp add: upt_rec)
  have fresh: "\<not> closed openWAL" "queue openWAL = []" "acks openWAL = []" "nextSeq openWAL = 0"
    by (simp_all add: openWAL_def)
  show ?thesis
    by (rule exI [of _ ?s], rule conjI, rule run)
       (rule conjunct1 [OF requests_in_order [OF run fresh, unfolded len two]])
qed

section \<open>The mutex and the full queue\<close>

definition stuck :: "QState \<Rightarrow> bool" where
  "stuck s \<longleftrightarrow> \<not> (\<exists>s'. qstep s s')"

definition outstanding :: "QState \<Rightarrow> nat" where
  "outstanding s = length (phaseBatch (qPhase s)) + length (queue (qWal s))
     + (case qHolder s of None \<Rightarrow> 0 | Some r \<Rightarrow> 1)"

text \<open>The queue never exceeds its capacity, and a collected batch is not empty.\<close>

definition queueOk :: "QState \<Rightarrow> bool" where
  "queueOk s \<longleftrightarrow> \<not> closed (qWal s) \<and> length (queue (qWal s)) \<le> queueCap
     \<and> (qPhase s = Receiving \<or> phaseBatch (qPhase s) \<noteq> [])"

lemma qstep_queueOk: "qstep s s' \<Longrightarrow> queueOk s \<Longrightarrow> queueOk s'"
proof (induction rule: qstep.induct)
  case (client r s s')
  then show ?case by (auto simp: lockAppend_def queueOk_def Let_def split: if_splits)
next
  case (send s s')
  then show ?case by (auto simp: sendRequest_def queueOk_def split: option.splits if_splits)
next
  case (committer s s')
  then show ?case
    by (auto simp: queueOk_def Let_def writeBatch_frame countBatch_frame
        split: Phase.splits list.splits if_splits)
qed

lemma qsteps_queueOk: "qsteps s s' \<Longrightarrow> queueOk s \<Longrightarrow> queueOk s'"
  by (induction rule: qsteps.induct) (auto intro: qstep_queueOk)

lemma stuck_iff:
  assumes "queueOk s"
  shows "stuck s \<longleftrightarrow> qHolder s \<noteq> None \<and> length (queue (qWal s)) = queueCap \<and> (\<exists>b. qPhase s = Locking b)"
proof
  assume st: "stuck s"
  have "qHolder s \<noteq> None"
  proof
    assume "qHolder s = None"
    from lockAppend_Some [OF this, of anyRecord] assms have "\<exists>s'. qstep s s'"
      by (auto simp: queueOk_def intro: client)
    with st show False by (simp add: stuck_def)
  qed
  moreover have full: "length (queue (qWal s)) = queueCap"
  proof (rule ccontr)
    assume "length (queue (qWal s)) \<noteq> queueCap"
    then have "sendRequest s \<noteq> None"
      using assms \<open>qHolder s \<noteq> None\<close> by (auto simp: sendRequest_def queueOk_def)
    with st show False by (auto simp: stuck_def intro: send)
  qed
  moreover have "committerStep s = None"
    using st by (cases "committerStep s") (auto simp: stuck_def simp del: committerStep.simps intro: committer)
  then have "\<exists>b. qPhase s = Locking b"
    using full by (auto simp: Let_def queueCap_def split: Phase.splits list.splits if_splits)
  ultimately show "qHolder s \<noteq> None \<and> length (queue (qWal s)) = queueCap \<and> (\<exists>b. qPhase s = Locking b)"
    by blast
next
  assume "qHolder s \<noteq> None \<and> length (queue (qWal s)) = queueCap \<and> (\<exists>b. qPhase s = Locking b)"
  then show "stuck s"
    by (auto simp: stuck_def lockAppend_def sendRequest_def elim!: qstepE)
qed

text \<open>C13. When the log can stop for good: a state reached from an open log has no next step
  exactly if a client sits in Append with the mutex, the queue is full, and the commit goroutine
  wants the mutex. Then at least 1026 Append calls are outstanding, so with fewer concurrent
  clients the log always makes progress.\<close>

theorem queue_stuck_exactly:
  assumes "qsteps (startState w) s" and "\<not> closed w" and "queue w = []"
  shows "(stuck s \<longleftrightarrow> qHolder s \<noteq> None \<and> length (queue (qWal s)) = 1024 \<and> (\<exists>b. qPhase s = Locking b))
    \<and> (stuck s \<longrightarrow> 1026 \<le> outstanding s)"
proof -
  have "queueOk (startState w)" using assms(2,3) by (simp add: queueOk_def startState_def)
  from qsteps_queueOk [OF assms(1) this] have ok: "queueOk s" .
  then have "1026 \<le> outstanding s" if "stuck s"
    using that stuck_iff [OF ok] by (cases "phaseBatch (qPhase s)")
      (auto simp: outstanding_def queueOk_def queueCap_def)
  with stuck_iff [OF ok] show ?thesis by (simp add: queueCap_def)
qed

text \<open>The commit goroutine before the mutex with a batch of one, the queue filling up.\<close>

lemma fill_queue:
  assumes "qHolder s = None" and "\<not> closed (qWal s)" and "length (queue (qWal s)) + n \<le> queueCap"
  shows "\<exists>s'. qsteps s s' \<and> qHolder s' = None \<and> \<not> closed (qWal s') \<and> qPhase s' = qPhase s
    \<and> length (queue (qWal s')) = length (queue (qWal s)) + n"
  using assms(3)
proof (induction n)
  case 0
  then show ?case using assms by (intro exI [of _ s]) (simp add: qsteps_refl)
next
  case (Suc n)
  then obtain s' where s': "qsteps s s'" "qHolder s' = None" "\<not> closed (qWal s')" "qPhase s' = qPhase s"
    "length (queue (qWal s')) = length (queue (qWal s)) + n" by auto
  let ?r = "\<lparr>reqRecord = anyRecord, reqSeq = nextSeq (qWal s') + 1\<rparr>"
  let ?w = "(qWal s')\<lparr>nextSeq := nextSeq (qWal s') + 1\<rparr>"
  let ?a = "s'\<lparr>qWal := ?w, qHolder := Some ?r\<rparr>"
  let ?b = "s'\<lparr>qWal := ?w\<lparr>queue := queue (qWal s') @ [?r]\<rparr>, qHolder := None\<rparr>"
  have a: "qstep s' ?a" by (rule client [OF lockAppend_Some [OF s'(2,3)]])
  have "qstep ?a ?b"
    by (rule send) (use Suc.prems s'(5) in \<open>simp add: sendRequest_def\<close>)
  then have "qsteps s ?b" by (rule qsteps_step [OF qsteps_step [OF s'(1) a]])
  with s' show ?case by (intro exI [of _ ?b]) simp
qed

lemma deadlock_run: "\<exists>s. qsteps (startState openWAL) s \<and> stuck s"
proof -
  let ?r1 = "\<lparr>reqRecord = anyRecord, reqSeq = 1\<rparr>"
  let ?s = "firstTaken\<lparr>qPhase := Locking [?r1]\<rparr>"
  have "qstep firstTaken ?s" by (rule committer) (simp add: openWAL_def firstTaken_def)
  then have run: "qsteps (startState openWAL) ?s" by (rule qsteps_step [OF first_request])
  from fill_queue [of ?s queueCap] obtain s' where s': "qsteps ?s s'" "qHolder s' = None"
    "\<not> closed (qWal s')" "qPhase s' = Locking [?r1]" "length (queue (qWal s')) = queueCap"
    by (auto simp: openWAL_def firstTaken_def)
  let ?e = "s'\<lparr>qWal := (qWal s')\<lparr>nextSeq := nextSeq (qWal s') + 1\<rparr>,
    qHolder := Some \<lparr>reqRecord = anyRecord, reqSeq = nextSeq (qWal s') + 1\<rparr>\<rparr>"
  have "qstep s' ?e" by (rule client [OF lockAppend_Some [OF s'(2,3)]])
  then have "qsteps (startState openWAL) ?e" by (rule qsteps_step [OF qsteps_trans [OF s'(1) run]])
  moreover have "stuck ?e" using s' by (subst stuck_iff) (simp_all add: queueOk_def)
  ultimately show ?thesis by blast
qed

lemma queue_stuck_exactly_witness:
  "\<exists>s. qsteps (startState openWAL) s \<and> stuck s \<and> 1026 \<le> outstanding s"
proof -
  obtain s where s: "qsteps (startState openWAL) s" "stuck s" using deadlock_run by blast
  with queue_stuck_exactly [OF s(1)] show ?thesis by (auto simp: openWAL_def)
qed

end
