(* ===== verification/Wal_Close.thy ===== *)
theory Wal_Close
  imports Wal_Queue Wal_Proofs
begin

text \<open>
  Close (internal/wal/wal.go) at every moment of the commit goroutine: waiting at the
  \<^verbatim>\<open>range\<close> receive, collecting a batch, before the mutex, or writing. The states are those of
  \<open>Wal_Queue\<close>; Close holds the mutex while it closes the queue, so no client is inside Append's
  critical section then, and afterwards every Append is refused. What remains is the goroutine
  alone, which Close waits for.
\<close>

section \<open>The goroutine after the queue is closed\<close>

text \<open>To the end of the goroutine (the \<^verbatim>\<open>range\<close> over a closed empty queue ends); \<open>None\<close> when it
  never gets there.\<close>

partial_function (option) goroutineEnd :: "QState \<Rightarrow> QState option" where
  "goroutineEnd s =
    (if qPhase s = Receiving \<and> queue (qWal s) = [] \<and> closed (qWal s) then Some s
     else (case committerStep s of None \<Rightarrow> None | Some s' \<Rightarrow> goroutineEnd s'))"

text \<open>Close from the moment it has the mutex.\<close>

definition CloseAt :: "QState \<Rightarrow> (error option \<times> QState) option" where
  "CloseAt s =
    (if closed (qWal s) then Some (None, s)
     else (case goroutineEnd (s\<lparr>qWal := (qWal s)\<lparr>closed := True\<rparr>\<rparr>) of
             None \<Rightarrow> None
           | Some s' \<Rightarrow> Some (fileClose (walFile (qWal s')), s')))"

section \<open>Receiving zero values forever\<close>

text \<open>A closed queue with something left in it, or a goroutine in its collecting loop: every step
  leads to such a state again.\<close>

definition doomed :: "QState \<Rightarrow> bool" where
  "doomed s \<longleftrightarrow> closed (qWal s) \<and> (queue (qWal s) \<noteq> [] \<or> (\<exists>b. qPhase s = Collecting b))"

lemma committerStep_doomed: "committerStep s = Some s' \<Longrightarrow> doomed s \<Longrightarrow> doomed s'"
  by (auto simp: doomed_def Let_def writeBatch_frame countBatch_frame
      split: Phase.splits list.splits if_splits)

lemma goroutineEnd_Some_not_doomed:
  assumes "goroutineEnd s = Some s'"
  shows "\<not> doomed s"
proof (rule goroutineEnd.raw_induct [OF _ assms])
  fix g :: "QState \<Rightarrow> QState option" and s s'
  assume IH: "\<And>s s'. g s = Some s' \<Longrightarrow> \<not> doomed s"
    and body: "(if qPhase s = Receiving \<and> queue (qWal s) = [] \<and> closed (qWal s) then Some s
      else (case committerStep s of None \<Rightarrow> None | Some s1 \<Rightarrow> g s1)) = Some s'"
  show "\<not> doomed s"
  proof (cases "qPhase s = Receiving \<and> queue (qWal s) = [] \<and> closed (qWal s)")
    case True
    then show ?thesis by (auto simp: doomed_def)
  next
    case False
    with body obtain s1 where s1: "committerStep s = Some s1" "g s1 = Some s'"
      by (auto simp del: committerStep.simps split: option.splits)
    from IH [OF s1(2)] committerStep_doomed [OF s1(1)] show ?thesis by blast
  qed
qed

lemma goroutineEnd_doomed: "doomed s \<Longrightarrow> goroutineEnd s = None"
  using goroutineEnd_Some_not_doomed by (cases "goroutineEnd s") auto

text \<open>Once it collects from a closed drained queue, the batch grows by one zero request a turn,
  without bound.\<close>

lemma zero_requests_forever:
  assumes "closed (qWal s)" and "queue (qWal s) = []" and "qPhase s = Collecting b"
  shows "((\<lambda>t. Option.bind t committerStep) ^^ n) (Some s)
    = Some (s\<lparr>qPhase := Collecting (b @ replicate n zeroRequest)\<rparr>)"
proof (induction n)
  case 0
  then show ?case using assms(3) by (cases s) simp
next
  case (Suc n)
  then show ?case using assms(1,2) by (simp add: replicate_append_same)
qed

section \<open>When Close returns\<close>

lemma goroutineEnd_receiving:
  "qPhase s = Receiving \<Longrightarrow> queue (qWal s) = [] \<Longrightarrow> closed (qWal s) \<Longrightarrow> goroutineEnd s = Some s"
  by (subst goroutineEnd.simps) simp

lemma goroutineEnd_writing:
  assumes "qPhase s = Writing b" and "queue (qWal s) = []" and "closed (qWal s)"
  shows "goroutineEnd s = Some (s\<lparr>qWal := writeBatch b (qWal s), qPhase := Receiving\<rparr>)"
  using assms
  by (subst goroutineEnd.simps) (simp add: goroutineEnd_receiving writeBatch_frame Let_def)

lemma goroutineEnd_locking:
  assumes "qPhase s = Locking b" and "queue (qWal s) = []" and "closed (qWal s)" and "qHolder s = None"
  shows "goroutineEnd s = Some (s\<lparr>qWal := commitBatch b (qWal s), qPhase := Receiving\<rparr>)"
  using assms
  by (subst goroutineEnd.simps)
     (simp add: goroutineEnd_writing countBatch_frame commitBatch_parts Let_def)

text \<open>\<open>Close\<close> is this Close with the goroutine waiting.\<close>

lemma Close_at_receive: "Close w = map_option (map_prod id qWal) (CloseAt (startState w))"
  by (auto simp: Close_eq CloseAt_def startState_def goroutineEnd_doomed doomed_def
      goroutineEnd_receiving)

text \<open>C27. When Close returns, wherever the commit goroutine is when Close gets the mutex: on a log
  that is already closed it returns without error and without change. Otherwise it returns
  exactly if nothing is queued and the goroutine is not inside its collecting loop. Then the
  goroutine finishes the batch it has in hand (one it is about to count and write, or is
  writing), and Close answers what closing the file answers. In the remaining cases, with a
  request queued or with the goroutine between taking the first request and seeing the empty
  queue, the goroutine ends up receiving zero values from the closed queue forever.\<close>

theorem close_returns_iff_drained:
  assumes "qHolder s = None"
  shows "CloseAt s =
    (if closed (qWal s) then Some (None, s)
     else if queue (qWal s) \<noteq> [] then None
     else let w = (qWal s)\<lparr>closed := True\<rparr>;
              finished = (\<lambda>w'. Some (fileClose (walFile w'), \<lparr>qWal = w', qHolder = None, qPhase = Receiving\<rparr>))
          in case qPhase s of
               Receiving \<Rightarrow> finished w
             | Collecting b \<Rightarrow> None
             | Locking b \<Rightarrow> finished (commitBatch b w)
             | Writing b \<Rightarrow> finished (writeBatch b w))"
proof (cases "closed (qWal s) \<or> queue (qWal s) \<noteq> []")
  case True
  then show ?thesis by (auto simp: CloseAt_def goroutineEnd_doomed doomed_def)
next
  case False
  with assms show ?thesis
    by (cases s; cases "qPhase s")
       (auto simp: CloseAt_def Let_def goroutineEnd_doomed doomed_def goroutineEnd_receiving
         goroutineEnd_writing goroutineEnd_locking)
qed

text \<open>An open empty log: Close returns while the goroutine waits, and does not while the goroutine
  holds the only request made so far in its collecting loop.\<close>

lemma close_returns_iff_drained_witness:
  "CloseAt (startState openWAL) = Some (None, startState (openWAL\<lparr>closed := True\<rparr>))
   \<and> qsteps (startState openWAL) firstTaken \<and> CloseAt firstTaken = None"
proof -
  have "CloseAt (startState openWAL) = Some (None, startState (openWAL\<lparr>closed := True\<rparr>))"
    using close_returns_iff_drained [of "startState openWAL"]
    by (simp add: startState_def openWAL_def openFile_def fileClose_def)
  moreover have "CloseAt firstTaken = None"
    using close_returns_iff_drained [of firstTaken]
    by (simp add: firstTaken_def openWAL_def)
  ultimately show ?thesis using first_request by blast
qed

end
