(* ===== verification/Raft_Log.thy ===== *)
theory Raft_Log
  imports Prelude
begin

text \<open>
  The replicated log (internal/raft/log.go): commands, entries that carry their own index and
  term, and the five operations of \<open>RaftLog\<close>. Indices are \<open>uint64\<close> and start at 1; \<open>Get\<close>
  returns Go's zero entry and \<open>false\<close> out of range.
\<close>

type_synonym CommandType = byte

definition CommandSet :: CommandType where "CommandSet = 0"
definition CommandDelete :: CommandType where "CommandDelete = 1"

record Command =
  cmdType :: CommandType
  cmdKey :: gostring
  cmdValue :: gostring

record LogEntry =
  entryIndex :: uint64
  entryTerm :: uint64
  entryCommand :: Command

record RaftLog =
  Entries :: "LogEntry list"

definition zeroCommand :: Command where
  "zeroCommand = \<lparr>cmdType = 0, cmdKey = [], cmdValue = []\<rparr>"

definition zeroEntry :: LogEntry where
  "zeroEntry = \<lparr>entryIndex = 0, entryTerm = 0, entryCommand = zeroCommand\<rparr>"

definition LastIndex :: "RaftLog \<Rightarrow> uint64" where
  "LastIndex l = (if Entries l = [] then 0 else entryIndex (last (Entries l)))"

definition outOfRange :: "RaftLog \<Rightarrow> uint64 \<Rightarrow> bool" where
  "outOfRange l index \<longleftrightarrow> index = 0 \<or> index > word_of_nat (length (Entries l))"

definition logAppend :: "uint64 \<Rightarrow> Command \<Rightarrow> RaftLog \<Rightarrow> LogEntry \<times> RaftLog" where
  "logAppend t command l =
    (let entry = \<lparr>entryIndex = LastIndex l + 1, entryTerm = t, entryCommand = command\<rparr>
     in (entry, l\<lparr>Entries := Entries l @ [entry]\<rparr>))"

definition logGet :: "uint64 \<Rightarrow> RaftLog \<Rightarrow> LogEntry \<times> bool" where
  "logGet index l =
    (if outOfRange l index then (zeroEntry, False)
     else (Entries l ! unat (index - 1), True))"

definition EntriesFrom :: "uint64 \<Rightarrow> RaftLog \<Rightarrow> LogEntry list" where
  "EntriesFrom index l =
    (if outOfRange l index then [] else drop (unat (index - 1)) (Entries l))"

definition TruncateFrom :: "uint64 \<Rightarrow> RaftLog \<Rightarrow> RaftLog" where
  "TruncateFrom index l =
    (if outOfRange l index then l else l\<lparr>Entries := take (unat (index - 1)) (Entries l)\<rparr>)"

section \<open>Well-formed logs\<close>

text \<open>Entry \<open>i\<close> (from 0) carries index \<open>i + 1\<close>. The bound keeps indices below Go's largest
  \<open>int\<close>, to which the replication code converts them.\<close>

definition numberedFrom :: "nat \<Rightarrow> LogEntry list \<Rightarrow> bool" where
  "numberedFrom n es \<longleftrightarrow> (\<forall>i < length es. entryIndex (es ! i) = word_of_nat (n + i + 1))"

definition logWf :: "RaftLog \<Rightarrow> bool" where
  "logWf l \<longleftrightarrow> numberedFrom 0 (Entries l)"

definition logSmall :: "RaftLog \<Rightarrow> bool" where
  "logSmall l \<longleftrightarrow> length (Entries l) < 9223372036854775807"

lemma numberedFrom_Nil [simp]: "numberedFrom n []"
  by (simp add: numberedFrom_def)

lemma numberedFrom_append:
  "numberedFrom n (xs @ ys) \<longleftrightarrow> numberedFrom n xs \<and> numberedFrom (n + length xs) ys"
proof
  assume a: "numberedFrom n (xs @ ys)"
  have "entryIndex (ys ! i) = word_of_nat (n + length xs + i + 1)" if "i < length ys" for i
    using a that unfolding numberedFrom_def
    by (drule_tac x = "length xs + i" in spec) (simp add: nth_append add.assoc)
  moreover have "entryIndex (xs ! i) = word_of_nat (n + i + 1)" if "i < length xs" for i
    using a that unfolding numberedFrom_def
    by (drule_tac x = i in spec) (simp add: nth_append)
  ultimately show "numberedFrom n xs \<and> numberedFrom (n + length xs) ys"
    unfolding numberedFrom_def by blast
next
  assume a: "numberedFrom n xs \<and> numberedFrom (n + length xs) ys"
  have "entryIndex ((xs @ ys) ! i) = word_of_nat (n + i + 1)" if "i < length (xs @ ys)" for i
  proof (cases "i < length xs")
    case True
    then show ?thesis using a by (simp add: numberedFrom_def nth_append)
  next
    case False
    then have "i - length xs < length ys" and "n + length xs + (i - length xs) + 1 = n + i + 1"
      using that by auto
    with a False show ?thesis
      unfolding numberedFrom_def by (metis nth_append)
  qed
  then show "numberedFrom n (xs @ ys)" unfolding numberedFrom_def by blast
qed

lemma numberedFrom_Cons:
  "numberedFrom n (e # es) \<longleftrightarrow> entryIndex e = word_of_nat (n + 1) \<and> numberedFrom (Suc n) es"
  using numberedFrom_append [of n "[e]" es] by (simp add: numberedFrom_def)

lemma numberedFrom_take: "numberedFrom n es \<Longrightarrow> numberedFrom n (take k es)"
  by (simp add: numberedFrom_def)

lemma numberedFrom_drop: "numberedFrom n es \<Longrightarrow> numberedFrom (n + k) (drop k es)"
  by (cases "k \<le> length es") (simp_all add: numberedFrom_def add.assoc)

text \<open>The operations on a well-formed log, over list positions.\<close>

lemma LastIndex_wf:
  assumes "logWf l" shows "LastIndex l = word_of_nat (length (Entries l))"
proof (cases "Entries l = []")
  case False
  then obtain n where "length (Entries l) = Suc n" by (cases "length (Entries l)") auto
  with False show ?thesis
    using assms unfolding LastIndex_def logWf_def numberedFrom_def
    by (simp add: last_conv_nth)
qed (simp add: LastIndex_def)

lemma outOfRange_iff:
  assumes "logSmall l"
  shows "outOfRange l index \<longleftrightarrow> unat index = 0 \<or> length (Entries l) < unat index"
proof -
  have "unat (word_of_nat (length (Entries l)) :: uint64) = length (Entries l)"
    using assms by (simp add: logSmall_def)
  then show ?thesis
    by (simp add: outOfRange_def word_less_nat_alt unat_eq_zero)
qed

lemma unat_pred: "index \<noteq> 0 \<Longrightarrow> unat (index - 1) = unat index - 1" for index :: uint64
  by (rule unat_minus_one)

lemma logGet_small:
  "logSmall l \<Longrightarrow> logGet index l =
    (if unat index = 0 \<or> length (Entries l) < unat index then (zeroEntry, False)
     else (Entries l ! (unat index - 1), True))"
  by (auto simp: logGet_def outOfRange_iff unat_pred unat_eq_zero)

lemma EntriesFrom_small:
  "logSmall l \<Longrightarrow> EntriesFrom index l =
    (if unat index = 0 then [] else drop (unat index - 1) (Entries l))"
  by (auto simp: EntriesFrom_def outOfRange_iff unat_pred unat_eq_zero)

lemma TruncateFrom_small:
  "logSmall l \<Longrightarrow> Entries (TruncateFrom index l) =
    (if unat index = 0 then Entries l else take (unat index - 1) (Entries l))"
  by (auto simp: TruncateFrom_def outOfRange_iff unat_pred unat_eq_zero)

lemma logAppend_wf:
  "logWf l \<Longrightarrow> logWf (snd (logAppend t c l))"
  by (simp add: logAppend_def logWf_def numberedFrom_append numberedFrom_Cons Let_def
      LastIndex_wf [unfolded logWf_def] add.commute)

lemma TruncateFrom_wf: "logWf l \<Longrightarrow> logWf (TruncateFrom index l)"
  by (simp add: TruncateFrom_def logWf_def numberedFrom_take)

section \<open>Properties\<close>

text \<open>The log's operations keep its indexing and do what their names say: on a
  well-formed log that is not at the integer limit, Append keeps it well-formed and hands out
  the next index, at which Get then finds the entry while every earlier index is unchanged;
  truncating from an index keeps exactly the entries below it; and the entries from an index
  are those that truncating there would remove.\<close>

lemma log_operations:
  assumes "logWf l" and "logSmall l" and "logAppend t c l = (entry, l')"
  shows "logWf l' \<and> entryIndex entry = LastIndex l + 1 \<and> LastIndex l' = LastIndex l + 1
    \<and> logGet (entryIndex entry) l' = (entry, True)
    \<and> (\<forall>i \<le> LastIndex l. logGet i l' = logGet i l)
    \<and> logWf (TruncateFrom i l)
    \<and> (0 < i \<longrightarrow> Entries (TruncateFrom i l) @ EntriesFrom i l = Entries l)"
proof -
  let ?n = "length (Entries l)"
  have l': "Entries l' = Entries l @ [entry]" and ix: "entryIndex entry = LastIndex l + 1"
    using assms(3) by (auto simp: logAppend_def Let_def)
  have wf': "logWf l'" using logAppend_wf [OF assms(1), of t c] assms(3) by simp
  have last: "LastIndex l = word_of_nat ?n" by (rule LastIndex_wf [OF assms(1)])
  have last': "LastIndex l' = LastIndex l + 1"
    using LastIndex_wf [OF wf'] l' last by simp
  have n: "unat (LastIndex l) = ?n" "unat (LastIndex l + 1) = Suc ?n"
    using assms(2) unat64_of_nat [of ?n] unat64_of_nat [of "Suc ?n"]
    by (auto simp: last logSmall_def add.commute)
  have len': "unat (word_of_nat (length (Entries l')) :: uint64) = Suc ?n"
    using n(2) by (simp add: l' last add.commute)
  have nz: "LastIndex l + 1 \<noteq> 0" using n(2) by (metis nat.distinct(1) unat_0)
  have get: "logGet (entryIndex entry) l' = (entry, True)"
    using n len' nz by (simp add: logGet_def outOfRange_def word_less_nat_alt ix l' last)
  have old: "logGet i l' = logGet i l" if "i \<le> LastIndex l" for i
  proof (cases "i = 0")
    case False
    then have "0 < unat i" by (simp add: unat_gt_0)
    then show ?thesis
      using that False n len' assms(2)
      by (auto simp: logGet_def outOfRange_def word_less_nat_alt word_le_nat_alt l' nth_append
          unat_pred logSmall_def)
  qed (simp add: logGet_def outOfRange_def)
  have "0 < i \<longrightarrow> Entries (TruncateFrom i l) @ EntriesFrom i l = Entries l"
    using assms(2) by (auto simp: TruncateFrom_small EntriesFrom_small word_less_nat_alt)
  with wf' ix last' get old TruncateFrom_wf [OF assms(1)] show ?thesis by blast
qed

definition setCmd :: "gostring \<Rightarrow> gostring \<Rightarrow> Command" where
  "setCmd k v = \<lparr>cmdType = CommandSet, cmdKey = k, cmdValue = v\<rparr>"

definition entryAt :: "uint64 \<Rightarrow> uint64 \<Rightarrow> gostring \<Rightarrow> LogEntry" where
  "entryAt i t k = \<lparr>entryIndex = i, entryTerm = t, entryCommand = setCmd k k\<rparr>"

lemma entryAt_simps [simp]:
  "entryIndex (entryAt i t k) = i" "entryTerm (entryAt i t k) = t"
  "entryCommand (entryAt i t k) = setCmd k k"
  by (simp_all add: entryAt_def)

lemma log_operations_witness:
  "logGet 2 (snd (logAppend 3 (setCmd ''y'' ''y'') \<lparr>Entries = [entryAt 1 1 ''x'']\<rparr>))
     = (entryAt 2 3 ''y'', True)"
proof -
  let ?l = "\<lparr>Entries = [entryAt 1 1 ''x'']\<rparr>"
  have wf: "logWf ?l" and small: "logSmall ?l"
    by (simp_all add: logWf_def numberedFrom_def logSmall_def entryAt_def)
  have app: "logAppend 3 (setCmd ''y'' ''y'') ?l =
      (entryAt 2 3 ''y'', \<lparr>Entries = [entryAt 1 1 ''x'', entryAt 2 3 ''y'']\<rparr>)"
    by (simp add: logAppend_def LastIndex_def Let_def entryAt_def)
  have "logGet (entryIndex (entryAt 2 3 ''y'')) \<lparr>Entries = [entryAt 1 1 ''x'', entryAt 2 3 ''y'']\<rparr>
      = (entryAt 2 3 ''y'', True)"
    using log_operations [OF wf small app] by blast
  then show ?thesis by (simp add: app)
qed

end
