(* ===== verification/Events.thy ===== *)
theory Events
  imports Prelude "HOL-Library.Sublist"
begin

text \<open>
  The event bus (internal/events/events.go). A subscriber is a pointer; \<open>chans\<close> is the heap of
  their buffered channels (the events waiting, and whether the channel is closed). \<open>Publish\<close>
  is its two parts: the critical section, which records the event and copies the subscriber
  list, and the sends, which run after the lock is released. A send on a closed channel
  panics, which is the result \<open>None\<close>.
\<close>

type_synonym EventType = string

definition ElectionStarted :: EventType where "ElectionStarted = ''election_started''"
definition VoteGrantedEv :: EventType where "VoteGrantedEv = ''vote_granted''"
definition VoteRejected :: EventType where "VoteRejected = ''vote_rejected''"
definition BecameLeader :: EventType where "BecameLeader = ''became_leader''"
definition BecameFollower :: EventType where "BecameFollower = ''became_follower''"
definition BecameCandidate :: EventType where "BecameCandidate = ''became_candidate''"
definition HeartbeatSent :: EventType where "HeartbeatSent = ''heartbeat_sent''"
definition HeartbeatReceived :: EventType where "HeartbeatReceived = ''heartbeat_received''"
definition AppendEntriesSent :: EventType where "AppendEntriesSent = ''append_entries_sent''"
definition AppendEntriesSuccess :: EventType where "AppendEntriesSuccess = ''append_entries_success''"
definition AppendEntriesFailed :: EventType where "AppendEntriesFailed = ''append_entries_failed''"
definition LogAppended :: EventType where "LogAppended = ''log_appended''"
definition LogReplicated :: EventType where "LogReplicated = ''log_replicated''"
definition CommitAdvanced :: EventType where "CommitAdvanced = ''commit_advanced''"
definition CommandApplied :: EventType where "CommandApplied = ''command_applied''"
definition NodeStopped :: EventType where "NodeStopped = ''node_stopped''"
definition NodeRestarted :: EventType where "NodeRestarted = ''node_restarted''"
definition LeaderChanged :: EventType where "LeaderChanged = ''leader_changed''"

text \<open>\<open>Timestamp\<close> is a clock reading; 0 is Go's zero time.\<close>

record Event =
  Timestamp :: nat
  NodeID :: int
  EventTypeOf :: EventType
  EventTerm :: uint64
  Message :: string
  PeerID :: int
  LogIndex :: uint64

type_synonym SubPtr = nat

record Bus =
  subscribers :: "SubPtr list"
  recent :: "Event list"
  maxRecent :: nat
  chans :: "SubPtr \<rightharpoonup> (Event list \<times> bool)"
  nextPtr :: SubPtr

definition subCap :: nat where
  "subCap = 256"

definition NewBus :: Bus where
  "NewBus = \<lparr>subscribers = [], recent = [], maxRecent = 1000, chans = Map.empty, nextPtr = 0\<rparr>"

definition Subscribe :: "Bus \<Rightarrow> SubPtr \<times> Bus" where
  "Subscribe b =
    (let sub = nextPtr b
     in (sub, b\<lparr>subscribers := subscribers b @ [sub],
                chans := (chans b)(sub \<mapsto> ([], False)), nextPtr := Suc sub\<rparr>))"

definition Unsubscribe :: "SubPtr \<Rightarrow> Bus \<Rightarrow> Bus" where
  "Unsubscribe sub b =
    (if sub \<in> set (subscribers b)
     then b\<lparr>subscribers := remove1 sub (subscribers b),
            chans := (chans b)(sub := map_option (\<lambda>(es, c). (es, True)) (chans b sub))\<rparr>
     else b)"

definition publishLocked :: "nat \<Rightarrow> Event \<Rightarrow> Bus \<Rightarrow> Event \<times> SubPtr list \<times> Bus" where
  "publishLocked now e b =
    (let e' = (if Timestamp e = 0 then e\<lparr>Timestamp := now\<rparr> else e);
         appended = recent b @ [e'];
         trimmed = (if length appended > maxRecent b
                    then drop (length appended - maxRecent b) appended else appended)
     in (e', subscribers b, b\<lparr>recent := trimmed\<rparr>))"

text \<open>The \<open>select\<close> with a default: send when there is room, drop otherwise.\<close>

definition sendOrDrop :: "SubPtr \<Rightarrow> Event \<Rightarrow> Bus \<Rightarrow> Bus option" where
  "sendOrDrop sub e b =
    (case chans b sub of
       None \<Rightarrow> Some b
     | Some (es, isClosed) \<Rightarrow>
         if isClosed then None
         else if length es < subCap then Some (b\<lparr>chans := (chans b)(sub \<mapsto> (es @ [e], False))\<rparr>)
         else Some b)"

fun publishSends :: "SubPtr list \<Rightarrow> Event \<Rightarrow> Bus \<Rightarrow> Bus option" where
  "publishSends [] e b = Some b"
| "publishSends (sub # subs) e b =
    (case sendOrDrop sub e b of None \<Rightarrow> None | Some b' \<Rightarrow> publishSends subs e b')"

definition Publish :: "nat \<Rightarrow> Event \<Rightarrow> Bus \<Rightarrow> Bus option" where
  "Publish now e b =
    (case publishLocked now e b of (e', subs, b') \<Rightarrow> publishSends subs e' b')"

definition Recent :: "Bus \<Rightarrow> Event list" where
  "Recent b = recent b"

text \<open>A subscriber's receive from its channel.\<close>

definition receive :: "SubPtr \<Rightarrow> Bus \<Rightarrow> (Event \<times> Bus) option" where
  "receive sub b =
    (case chans b sub of
       Some (e # es, c) \<Rightarrow> Some (e, b\<lparr>chans := (chans b)(sub \<mapsto> (es, c))\<rparr>)
     | _ \<Rightarrow> None)"

section \<open>The bus invariant\<close>

text \<open>Pointers are fresh, every listed subscriber has an open channel, buffers and window are
  within their bounds.\<close>

definition busWf :: "Bus \<Rightarrow> bool" where
  "busWf b \<longleftrightarrow> distinct (subscribers b)
     \<and> (\<forall>sub \<in> set (subscribers b). \<exists>es. chans b sub = Some (es, False))
     \<and> (\<forall>sub ch. chans b sub = Some ch \<longrightarrow> sub < nextPtr b \<and> length (fst ch) \<le> subCap)
     \<and> length (recent b) \<le> maxRecent b"

lemma busWf_new: "busWf NewBus"
  by (simp add: busWf_def NewBus_def)

lemma busWf_subscribe: "busWf b \<Longrightarrow> busWf (snd (Subscribe b))"
  by (fastforce simp: busWf_def Subscribe_def Let_def less_Suc_eq)

lemma busWf_unsubscribe: "busWf b \<Longrightarrow> busWf (Unsubscribe sub b)"
  by (fastforce simp: busWf_def Unsubscribe_def distinct_remove1 dest: notin_set_remove1)

lemma receiveE:
  assumes "receive sub b = Some (e, b')"
  obtains es c where "chans b sub = Some (e # es, c)" and "b' = b\<lparr>chans := (chans b)(sub \<mapsto> (es, c))\<rparr>"
  using assms by (auto simp: receive_def split: option.splits list.splits prod.splits)

lemma busWf_receive:
  assumes "busWf b" and "receive sub b = Some (e, b')"
  shows "busWf b'"
  using assms(2)
proof (rule receiveE)
  fix es c
  assume *: "chans b sub = Some (e # es, c)" "b' = b\<lparr>chans := (chans b)(sub \<mapsto> (es, c))\<rparr>"
  have "sub < nextPtr b" "length es \<le> subCap" "sub \<in> set (subscribers b) \<Longrightarrow> \<not> c"
    using assms(1) *(1) by (force simp: busWf_def)+
  with assms(1) show "busWf b'" by (simp add: busWf_def *(2))
qed

lemma busWf_recent: "busWf b \<Longrightarrow> length es \<le> maxRecent b \<Longrightarrow> busWf (b\<lparr>recent := es\<rparr>)"
  by (simp add: busWf_def)

text \<open>The last \<open>n\<close> elements, which is how the critical section trims the window.\<close>

definition lastN :: "nat \<Rightarrow> 'a list \<Rightarrow> 'a list" where
  "lastN n xs = drop (length xs - n) xs"

lemma lastN_rev: "lastN n xs = rev (take n (rev xs))"
  by (simp add: lastN_def take_rev)

lemma length_lastN: "length (lastN n xs) \<le> n"
  by (simp add: lastN_def)

lemma lastN_append_lastN: "lastN n (lastN n xs @ ys) = lastN n (xs @ ys)"
  by (simp add: lastN_rev min_def)

lemma lastN_short: "length xs \<le> n \<Longrightarrow> lastN n xs = xs"
  by (simp add: lastN_def)

definition stamped :: "nat \<Rightarrow> Event \<Rightarrow> Event" where
  "stamped now e = (if Timestamp e = 0 then e\<lparr>Timestamp := now\<rparr> else e)"

lemma publishLocked_eq:
  "publishLocked now e b =
    (stamped now e, subscribers b, b\<lparr>recent := lastN (maxRecent b) (recent b @ [stamped now e])\<rparr>)"
  by (simp add: publishLocked_def stamped_def lastN_def Let_def)

lemma busWf_update_chan:
  "busWf b \<Longrightarrow> sub \<in> set (subscribers b) \<Longrightarrow> length es \<le> subCap \<Longrightarrow>
    busWf (b\<lparr>chans := (chans b)(sub \<mapsto> (es, False))\<rparr>)"
  by (auto simp: busWf_def)

lemma sendOrDrop_wf:
  assumes "busWf b" and "sub \<in> set (subscribers b)"
  shows "\<exists>b'. sendOrDrop sub e b = Some b' \<and> busWf b' \<and> subscribers b' = subscribers b
      \<and> recent b' = recent b \<and> maxRecent b' = maxRecent b"
proof -
  obtain es where "chans b sub = Some (es, False)" using assms by (auto simp: busWf_def)
  then show ?thesis
    using assms busWf_update_chan [OF assms, of "es @ [e]"] by (simp add: sendOrDrop_def)
qed

text \<open>What one publication does to a channel's buffer.\<close>

definition offered :: "Event \<Rightarrow> Event list \<Rightarrow> Event list" where
  "offered e es = (if length es < subCap then es @ [e] else es)"

lemma sendOrDrop_chans:
  "sendOrDrop sub e b = Some b' \<Longrightarrow> chans b sub = Some (es, False) \<Longrightarrow>
    chans b' = (chans b)(sub \<mapsto> (offered e es, False))"
  by (auto simp: sendOrDrop_def offered_def split: if_splits)

lemma publishSends_wf:
  "busWf b \<Longrightarrow> set subs \<subseteq> set (subscribers b) \<Longrightarrow> distinct subs \<Longrightarrow>
    \<exists>b'. publishSends subs e b = Some b' \<and> busWf b' \<and> subscribers b' = subscribers b
      \<and> recent b' = recent b \<and> maxRecent b' = maxRecent b
      \<and> (\<forall>sub. chans b' sub = (if sub \<in> set subs
            then map_option (\<lambda>(es, c). (offered e es, c)) (chans b sub) else chans b sub))"
proof (induction subs arbitrary: b)
  case Nil
  then show ?case by simp
next
  case (Cons sub subs)
  from Cons.prems obtain es where es: "chans b sub = Some (es, False)"
    by (auto simp: busWf_def)
  from sendOrDrop_wf [OF Cons.prems(1), of sub e] Cons.prems(2) obtain b1 where
    b1: "sendOrDrop sub e b = Some b1" "busWf b1" "subscribers b1 = subscribers b"
      "recent b1 = recent b" "maxRecent b1 = maxRecent b" by auto
  note c1 = sendOrDrop_chans [OF b1(1) es]
  from Cons.IH [OF b1(2)] Cons.prems b1(3) obtain b' where
    b': "publishSends subs e b1 = Some b'" "busWf b'" "subscribers b' = subscribers b1"
      "recent b' = recent b1" "maxRecent b' = maxRecent b1"
      "\<forall>sub. chans b' sub = (if sub \<in> set subs
            then map_option (\<lambda>(es, c). (offered e es, c)) (chans b1 sub) else chans b1 sub)"
    by auto
  then show ?case using b1 Cons.prems(3) es by (auto simp: c1)
qed

section \<open>Properties\<close>

fun publishAll :: "(nat \<times> Event) list \<Rightarrow> Bus \<Rightarrow> Bus option" where
  "publishAll [] b = Some b"
| "publishAll ((now, e) # es) b =
    (case Publish now e b of None \<Rightarrow> None | Some b' \<Rightarrow> publishAll es b')"

abbreviation stampedAll :: "(nat \<times> Event) list \<Rightarrow> Event list" where
  "stampedAll es \<equiv> map (\<lambda>(now, e). stamped now e) es"

lemma Publish_wf:
  assumes "busWf b"
  shows "\<exists>b'. Publish now e b = Some b' \<and> busWf b' \<and> subscribers b' = subscribers b
    \<and> maxRecent b' = maxRecent b
    \<and> recent b' = lastN (maxRecent b) (recent b @ [stamped now e])
    \<and> (\<forall>sub es. sub \<in> set (subscribers b) \<longrightarrow> chans b sub = Some (es, False) \<longrightarrow>
          chans b' sub = Some (offered (stamped now e) es, False))"
proof -
  let ?b = "b\<lparr>recent := lastN (maxRecent b) (recent b @ [stamped now e])\<rparr>"
  have "busWf ?b" by (rule busWf_recent [OF assms length_lastN])
  moreover have "distinct (subscribers b)" using assms by (simp add: busWf_def)
  ultimately obtain b' where "publishSends (subscribers b) (stamped now e) ?b = Some b'" "busWf b'"
    "subscribers b' = subscribers b" "recent b' = recent ?b" "maxRecent b' = maxRecent b"
    "\<forall>sub. chans b' sub = (if sub \<in> set (subscribers b)
       then map_option (\<lambda>(es, c). (offered (stamped now e) es, c)) (chans b sub) else chans b sub)"
    using publishSends_wf [of ?b "subscribers b" "stamped now e"] by auto
  then show ?thesis by (simp add: Publish_def publishLocked_eq)
qed

lemma offered_take: "length es \<le> subCap \<Longrightarrow> offered e es = take subCap (es @ [e])"
  by (auto simp: offered_def)

lemma publishAll_wf:
  "busWf b \<Longrightarrow> \<exists>b'. publishAll es b = Some b' \<and> busWf b' \<and> subscribers b' = subscribers b
    \<and> recent b' = lastN (maxRecent b) (recent b @ stampedAll es)
    \<and> (\<forall>sub buf. sub \<in> set (subscribers b) \<longrightarrow> chans b sub = Some (buf, False) \<longrightarrow>
          chans b' sub = Some (take subCap (buf @ stampedAll es), False))"
proof (induction es arbitrary: b)
  case Nil
  then show ?case by (fastforce simp: busWf_def lastN_short)
next
  case (Cons x es)
  obtain now e where x: "x = (now, e)" by fastforce
  from Publish_wf [OF Cons.prems, of now e] obtain b1 where
    p: "Publish now e b = Some b1" and b1: "busWf b1" "subscribers b1 = subscribers b"
      "maxRecent b1 = maxRecent b" "recent b1 = lastN (maxRecent b) (recent b @ [stamped now e])"
    and c1: "\<And>sub buf. sub \<in> set (subscribers b) \<Longrightarrow> chans b sub = Some (buf, False) \<Longrightarrow>
          chans b1 sub = Some (offered (stamped now e) buf, False)"
    by blast
  from Cons.IH [OF b1(1)] obtain b' where
    q: "publishAll es b1 = Some b'" and b': "busWf b'" "subscribers b' = subscribers b1"
      "recent b' = lastN (maxRecent b1) (recent b1 @ stampedAll es)"
    and c': "\<And>sub buf. sub \<in> set (subscribers b1) \<Longrightarrow> chans b1 sub = Some (buf, False) \<Longrightarrow>
          chans b' sub = Some (take subCap (buf @ stampedAll es), False)"
    by blast
  have "chans b' sub = Some (take subCap (buf @ stampedAll (x # es)), False)"
    if s: "sub \<in> set (subscribers b)" and c: "chans b sub = Some (buf, False)" for sub buf
  proof -
    have "length buf \<le> subCap" using Cons.prems c by (auto simp: busWf_def)
    then have "take subCap (offered (stamped now e) buf @ stampedAll es)
        = take subCap (buf @ stampedAll (x # es))"
      by (auto simp: x offered_def take_Cons')
    then show ?thesis using c' [OF _ c1 [OF s c]] s b1(2) by simp
  qed
  with p q b1 b' show ?case by (auto simp: x lastN_append_lastN)
qed

declare publishAll.simps [simp del]

text \<open>C30. Publishing, while nobody unsubscribes meanwhile, always succeeds and is what the
  comments promise: the window Recent is the last \<open>maxRecent\<close> events of everything ever
  published, in order; a subscriber that does not read receives, in order and without gaps,
  the events that still fit its 256-element buffer and none after (the publisher is never
  blocked), and the bus invariant (bounds, open channels) is kept.\<close>

theorem publish_window_and_delivery:
  assumes "busWf b"
  shows "\<exists>b'. publishAll es b = Some b' \<and> busWf b'
    \<and> Recent b' = lastN (maxRecent b) (Recent b @ stampedAll es)
    \<and> (\<forall>sub buf. sub \<in> set (subscribers b) \<longrightarrow> chans b sub = Some (buf, False) \<longrightarrow>
          chans b' sub = Some (take subCap (buf @ stampedAll es), False))"
  unfolding Recent_def using publishAll_wf [OF assms, of es] by blast

definition tick :: Event where
  "tick = \<lparr>Timestamp = 0, NodeID = 1, EventTypeOf = HeartbeatSent, EventTerm = 1,
     Message = ''m'', PeerID = 2, LogIndex = 0\<rparr>"

lemma publish_window_and_delivery_witness:
  "\<exists>b'. publishAll [(7, tick), (8, tick)] (snd (Subscribe NewBus)) = Some b'
     \<and> Recent b' = [tick\<lparr>Timestamp := 7\<rparr>, tick\<lparr>Timestamp := 8\<rparr>]
     \<and> chans b' 0 = Some ([tick\<lparr>Timestamp := 7\<rparr>, tick\<lparr>Timestamp := 8\<rparr>], False)"
  using publish_window_and_delivery [OF busWf_subscribe [OF busWf_new], of "[(7, tick), (8, tick)]"]
  by (force simp: Subscribe_def NewBus_def Recent_def lastN_def stamped_def tick_def subCap_def Let_def)

lemma publishSends_closed:
  "sub \<in> set subs \<Longrightarrow> chans b sub = Some (es, True) \<Longrightarrow> publishSends subs e b = None"
proof (induction subs arbitrary: b)
  case Nil
  then show ?case by simp
next
  case (Cons x subs)
  show ?case
  proof (cases "x = sub")
    case True
    then show ?thesis using Cons.prems by (simp add: sendOrDrop_def)
  next
    case False
    have "chans b' sub = Some (es, True)" if "sendOrDrop x e b = Some b'" for b'
      using that Cons.prems(2) False
      by (auto simp: sendOrDrop_def split: option.splits if_splits)
    then show ?thesis
      using False Cons by (auto split: option.splits)
  qed
qed

text \<open>C35. Publish copies the subscriber list and sends after releasing the lock, so an
  Unsubscribe of any current subscriber that runs in between closes a channel Publish still
  sends on: the send panics. (The publisher is a Raft handler.)\<close>

theorem publish_unsubscribe_race_panics:
  assumes "busWf b" and "sub \<in> set (subscribers b)"
    and "publishLocked now e b = (e', subs, b1)"
  shows "publishSends subs e' (Unsubscribe sub b1) = None"
proof -
  obtain es where "chans b sub = Some (es, False)" using assms by (auto simp: busWf_def)
  moreover have "subs = subscribers b" "chans b1 = chans b" "subscribers b1 = subscribers b"
    using assms(3) by (auto simp: publishLocked_eq)
  ultimately show ?thesis
    using assms(2) by (intro publishSends_closed) (auto simp: Unsubscribe_def)
qed

lemma publish_unsubscribe_race_panics_witness:
  "publishSends [0] (stamped 7 tick)
     (Unsubscribe 0 (snd (snd (publishLocked 7 tick (snd (Subscribe NewBus)))))) = None"
  using publish_unsubscribe_race_panics [OF busWf_subscribe [OF busWf_new], of 0 7 tick]
  by (simp add: publishLocked_eq Subscribe_def NewBus_def Let_def)

end
