(* ===== verification/Raft_Node.thy ===== *)
theory Raft_Node
  imports Raft_Log Events
begin

text \<open>
  The Raft node (internal/raft/node.go with the message types of vote.go and
  append_entries.go). Every handler runs under the node's mutex, so it is one function from
  node to node; what it does besides is its list of effects, in order: an event for the bus, a
  call of \<open>applyFunc\<close>, a goroutine started, an RPC goroutine started for a peer. The callback
  that runs when an RPC returns is a function of its own. The election timer is a flag (armed
  or not); when it fires is up to the environment. Go's map \<open>peers\<close> is an association list
  whose order is the order of one \<^verbatim>\<open>range\<close> over it.
\<close>

datatype State = Follower | Candidate | Leader

fun stateString :: "State \<Rightarrow> string" where
  "stateString Follower = ''FOLLOWER''"
| "stateString Candidate = ''CANDIDATE''"
| "stateString Leader = ''LEADER''"

text \<open>The closures the program installs as \<open>applyFunc\<close> (kv_node.go has the only one), and
  references to buses and transports.\<close>

datatype ApplyFunc = ApplyToStore

type_synonym BusRef = nat
type_synonym TransportRef = nat

record RequestVoteArgs =
  rvTerm :: uint64
  rvCandidateID :: int
  rvLastLogIndex :: uint64
  rvLastLogTerm :: uint64

record RequestVoteReply =
  rvrTerm :: uint64
  rvrVoteGranted :: bool

record AppendEntriesArgs =
  aeTerm :: uint64
  aeLeaderID :: int
  aePrevLogIndex :: goint
  aePrevLogTerm :: goint
  aeEntries :: "LogEntry list"
  aeLeaderCommit :: goint

record AppendEntriesReply =
  aerTerm :: uint64
  aerSuccess :: bool

datatype Effect =
    EmitEvent BusRef int EventType uint64 string int uint64
  | CallApply ApplyFunc Command
  | GoHeartbeatLoop
  | GoElectionTimer
  | GoRequestVote int string RequestVoteArgs
  | GoAppendEntries int string AppendEntriesArgs

record RaftNode =
  nodeId :: int
  state :: State
  currentTerm :: uint64
  votedFor :: int
  timerArmed :: bool
  raftLog :: RaftLog
  nextIndex :: "int \<rightharpoonup> uint64"
  matchIndex :: "int \<rightharpoonup> uint64"
  commitIndex :: uint64
  lastApplied :: uint64
  peers :: "(int \<times> string) list"
  transport :: "TransportRef option"
  applyFunc :: "ApplyFunc option"
  stopClosed :: bool
  leaderID :: int
  eventBus :: "BusRef option"

definition NewRaftNode :: "int \<Rightarrow> RaftNode" where
  "NewRaftNode i =
    \<lparr>nodeId = i, state = Follower, currentTerm = 0, votedFor = -1, timerArmed = True,
     raftLog = \<lparr>Entries = []\<rparr>, nextIndex = Map.empty, matchIndex = Map.empty,
     commitIndex = 0, lastApplied = 0, peers = [], transport = None, applyFunc = None,
     stopClosed = False, leaderID = -1, eventBus = None\<rparr>"

definition emitEvent :: "RaftNode \<Rightarrow> EventType \<Rightarrow> string \<Rightarrow> int \<Rightarrow> uint64 \<Rightarrow> Effect list" where
  "emitEvent r eventType msg peerID logIndex =
    (case eventBus r of
       None \<Rightarrow> []
     | Some bus \<Rightarrow> [EmitEvent bus (nodeId r) eventType (currentTerm r) msg peerID logIndex])"

text \<open>A read of a Go map yields the zero value for a missing key.\<close>

definition mapRead :: "(int \<rightharpoonup> uint64) \<Rightarrow> int \<Rightarrow> uint64" where
  "mapRead m k = (case m k of None \<Rightarrow> 0 | Some v \<Rightarrow> v)"

definition resetElectionTimer :: "RaftNode \<Rightarrow> RaftNode" where
  "resetElectionTimer r = r\<lparr>timerArmed := True\<rparr>"

section \<open>Role changes\<close>

definition becomeCandidate :: "RaftNode \<Rightarrow> RaftNode \<times> Effect list" where
  "becomeCandidate r =
    (let r1 = r\<lparr>state := Candidate, currentTerm := currentTerm r + 1, votedFor := nodeId r\<rparr>
     in (r1, emitEvent r1 BecameCandidate ''Node became candidate'' (-1) 0))"

definition becomeLeader :: "RaftNode \<Rightarrow> RaftNode \<times> Effect list" where
  "becomeLeader r =
    (let lastIndex = LastIndex (raftLog r);
         r1 = r\<lparr>state := Leader, leaderID := nodeId r,
                nextIndex := fold (\<lambda>(p, _) m. m(p \<mapsto> lastIndex + 1)) (peers r) Map.empty,
                matchIndex := fold (\<lambda>(p, _) m. m(p \<mapsto> 0)) (peers r) Map.empty\<rparr>
     in (r1, emitEvent r1 BecameLeader ''Node became leader'' (-1) 0 @ [GoHeartbeatLoop]))"

section \<open>Elections\<close>

definition electionArgs :: "RaftNode \<Rightarrow> RequestVoteArgs" where
  "electionArgs r =
    (let lastIndex = LastIndex (raftLog r)
     in \<lparr>rvTerm = currentTerm r, rvCandidateID = nodeId r, rvLastLogIndex = lastIndex,
         rvLastLogTerm =
           (if lastIndex > 0 then entryTerm (fst (logGet lastIndex (raftLog r))) else 0)\<rparr>)"

text \<open>The critical section of \<open>startElection\<close> and the loop that starts one goroutine per
  other peer. The counter \<open>votes\<close> those goroutines share starts at 1.\<close>

definition startElection :: "RaftNode \<Rightarrow> RaftNode \<times> Effect list" where
  "startElection r =
    (case becomeCandidate r of (r1, e1) \<Rightarrow>
      let r2 = resetElectionTimer r1;
          e2 = emitEvent r2 ElectionStarted ''Election started'' (-1) 0;
          args = electionArgs r2;
          sends = map (\<lambda>(p, address). GoRequestVote p address args)
                    (filter (\<lambda>(p, _). p \<noteq> nodeId r2) (peers r2))
      in (r2, e1 @ e2 @ sends))"

definition initialVotes :: nat where
  "initialVotes = 1"

definition wonElection :: "RaftNode \<Rightarrow> nat \<Rightarrow> bool" where
  "wonElection r votes \<longleftrightarrow> votes \<ge> length (peers r) div 2 + 1"

text \<open>What an election goroutine does with the answer to its RPC.\<close>

definition voteReply ::
  "RequestVoteArgs \<Rightarrow> int \<Rightarrow> error + RequestVoteReply \<Rightarrow> nat \<Rightarrow> RaftNode
    \<Rightarrow> RaftNode \<times> nat \<times> Effect list" where
  "voteReply args peerID result votes r =
    (case result of
       Inl e \<Rightarrow> (r, votes, [])
     | Inr reply \<Rightarrow>
        if state r \<noteq> Candidate \<or> currentTerm r \<noteq> rvTerm args then (r, votes, [])
        else if rvrTerm reply > currentTerm r then
          (let r1 = r\<lparr>currentTerm := rvrTerm reply, state := Follower, votedFor := -1\<rparr>
           in (r1, votes,
               emitEvent r1 BecameFollower ''Stepped down: discovered higher term'' peerID 0))
        else if rvrVoteGranted reply then
          (let votes1 = votes + 1;
               e1 = emitEvent r VoteGrantedEv ''Vote granted'' peerID 0
           in if state r = Candidate \<and> currentTerm r = rvTerm args
                 \<and> wonElection r votes1
              then (case becomeLeader r of (r1, e2) \<Rightarrow> (r1, votes1, e1 @ e2))
              else (r, votes1, e1))
        else (r, votes, []))"

section \<open>Committing and applying\<close>

text \<open>How many nodes hold the entry at \<open>index\<close>, the leader included.\<close>

definition replicaCount :: "RaftNode \<Rightarrow> uint64 \<Rightarrow> nat" where
  "replicaCount r index =
    1 + length (filter (\<lambda>(p, _). p \<noteq> nodeId r \<and> mapRead (matchIndex r) p \<ge> index) (peers r))"

definition commitQuorum :: "RaftNode \<Rightarrow> nat \<Rightarrow> bool" where
  "commitQuorum r count \<longleftrightarrow> count > length (peers r) div 2"

definition commitStep :: "uint64 \<Rightarrow> RaftNode \<times> Effect list \<Rightarrow> RaftNode \<times> Effect list" where
  "commitStep index acc =
    (case acc of (r, es) \<Rightarrow>
       if commitQuorum r (replicaCount r index)
       then (let r1 = r\<lparr>commitIndex := index\<rparr>
             in (r1, es @ emitEvent r1 CommitAdvanced ''Commit index advanced'' (-1) (commitIndex r1)))
       else (r, es))"

text \<open>The indices of the loop, from \<open>commitIndex + 1\<close> to \<open>LastIndex\<close>. (With
  \<open>LastIndex = 2 ^ 64 - 1\<close> the code's counter would wrap and the loop not end.)\<close>

definition updateCommitIndex :: "RaftNode \<Rightarrow> RaftNode \<times> Effect list" where
  "updateCommitIndex r =
    fold commitStep
      (map word_of_nat [unat (commitIndex r + 1)..<Suc (unat (LastIndex (raftLog r)))])
      (r, [])"

function applyCommitted :: "RaftNode \<Rightarrow> RaftNode \<times> Effect list" where
  "applyCommitted r =
    (if lastApplied r < commitIndex r then
       (let r1 = r\<lparr>lastApplied := lastApplied r + 1\<rparr>
        in case logGet (lastApplied r1) (raftLog r1) of
             (entry, ok) \<Rightarrow>
               if \<not> ok then (r1, [])
               else case applyFunc r1 of
                      None \<Rightarrow> applyCommitted r1
                    | Some f \<Rightarrow>
                       (case applyCommitted r1 of (r2, es) \<Rightarrow>
                          (r2, CallApply f (entryCommand entry)
                               # emitEvent r1 CommandApplied ''Command applied'' (-1) (lastApplied r1)
                               @ es)))
     else (r, []))"
  by pat_completeness auto
termination
proof (relation "measure (\<lambda>r. unat (commitIndex r) - unat (lastApplied r))")
  show "wf (measure (\<lambda>r. unat (commitIndex r) - unat (lastApplied r)))" by simp
  fix r r1 :: RaftNode
  assume "lastApplied r < commitIndex r" and "r1 = r\<lparr>lastApplied := lastApplied r + 1\<rparr>"
  moreover from this(1) have "unat (lastApplied r + 1) = Suc (unat (lastApplied r))"
    by (rule unat_plus_one_less)
  ultimately show "(r1, r) \<in> measure (\<lambda>r. unat (commitIndex r) - unat (lastApplied r))"
    and "(r1, r) \<in> measure (\<lambda>r. unat (commitIndex r) - unat (lastApplied r))"
    by (simp_all add: word_less_nat_alt)
qed

declare applyCommitted.simps [simp del]

definition SetApplyFunc :: "ApplyFunc option \<Rightarrow> RaftNode \<Rightarrow> RaftNode" where
  "SetApplyFunc fn r = r\<lparr>applyFunc := fn\<rparr>"

text \<open>The commands handed to \<open>applyFunc\<close>, in order.\<close>

fun callsOf :: "Effect list \<Rightarrow> Command list" where
  "callsOf [] = []"
| "callsOf (CallApply f c # es) = c # callsOf es"
| "callsOf (_ # es) = callsOf es"

lemma callsOf_append [simp]: "callsOf (xs @ ys) = callsOf xs @ callsOf ys"
  by (induction xs rule: callsOf.induct) simp_all

lemma callsOf_emitEvent [simp]: "callsOf (emitEvent r t m p i) = []"
  by (simp add: emitEvent_def split: option.splits)

section \<open>Client entry, stop and restart\<close>

definition Start :: "Command \<Rightarrow> RaftNode \<Rightarrow> RaftNode \<times> Effect list \<times> (uint64 \<times> uint64 \<times> bool)" where
  "Start command r =
    (if state r \<noteq> Leader then (r, [], (0, currentTerm r, False))
     else case logAppend (currentTerm r) command (raftLog r) of
            (entry, l) \<Rightarrow>
              let r1 = r\<lparr>raftLog := l\<rparr>;
                  msg = ''Appended '' @ showNat (unat (cmdType command)) @ '' ''
                        @ cmdKey command @ '' at index '' @ showNat (unat (entryIndex entry))
              in (r1, emitEvent r1 LogAppended msg (-1) (entryIndex entry),
                  (entryIndex entry, currentTerm r, True)))"

definition Stop :: "RaftNode \<Rightarrow> RaftNode \<times> Effect list" where
  "Stop r =
    (if stopClosed r then (r\<lparr>timerArmed := False\<rparr>, [])
     else let r1 = r\<lparr>stopClosed := True\<rparr>
          in (r1\<lparr>timerArmed := False\<rparr>, emitEvent r1 NodeStopped ''Node stopped'' (-1) 0))"

definition Restart :: "RaftNode \<Rightarrow> RaftNode \<times> Effect list" where
  "Restart r =
    (if stopClosed r
     then let r1 = r\<lparr>stopClosed := False, state := Follower, votedFor := -1\<rparr>
          in (r1\<lparr>timerArmed := True\<rparr>,
              emitEvent r1 NodeRestarted ''Node restarted'' (-1) 0
                @ [GoElectionTimer, GoHeartbeatLoop])
     else (r, []))"

text \<open>One turn of the election-timer loop: when the timer has fired, the test of the state under
  the mutex (the flag says whether an election follows), and the whole turn. Between the two
  the mutex is free, so the cluster model takes them as separate steps.\<close>

definition timerFired :: "RaftNode \<Rightarrow> RaftNode \<times> bool" where
  "timerFired r = (r\<lparr>timerArmed := False\<rparr>, state r \<noteq> Leader)"

definition electionTimeout :: "RaftNode \<Rightarrow> RaftNode \<times> Effect list" where
  "electionTimeout r =
    (case timerFired r of (r1, goOn) \<Rightarrow> if goOn then startElection r1 else (r1, []))"

section \<open>Getters and setters\<close>

definition ID :: "RaftNode \<Rightarrow> int" where
  "ID r = nodeId r"

definition CurrentTerm :: "RaftNode \<Rightarrow> uint64" where
  "CurrentTerm r = currentTerm r"

definition CommitIndex :: "RaftNode \<Rightarrow> uint64" where
  "CommitIndex r = commitIndex r"

definition LastApplied :: "RaftNode \<Rightarrow> uint64" where
  "LastApplied r = lastApplied r"

definition GetState :: "RaftNode \<Rightarrow> State" where
  "GetState r = state r"

definition LeaderID :: "RaftNode \<Rightarrow> int" where
  "LeaderID r = leaderID r"

definition IsStopped :: "RaftNode \<Rightarrow> bool" where
  "IsStopped r = stopClosed r"

definition LastLogIndex :: "RaftNode \<Rightarrow> uint64" where
  "LastLogIndex r = LastIndex (raftLog r)"

definition SetPeers :: "(int \<times> string) list \<Rightarrow> RaftNode \<Rightarrow> RaftNode" where
  "SetPeers ps r = r\<lparr>peers := ps\<rparr>"

definition SetTransport :: "TransportRef option \<Rightarrow> RaftNode \<Rightarrow> RaftNode" where
  "SetTransport t r = r\<lparr>transport := t\<rparr>"

definition SetEventBus :: "BusRef option \<Rightarrow> RaftNode \<Rightarrow> RaftNode" where
  "SetEventBus bus r = r\<lparr>eventBus := bus\<rparr>"

record NodeStatus =
  statusID :: int
  statusState :: string
  statusTerm :: uint64
  statusLeaderID :: int
  statusLastLogIndex :: uint64
  statusCommitIndex :: uint64
  statusLastApplied :: uint64
  statusAlive :: bool

definition Status :: "RaftNode \<Rightarrow> NodeStatus" where
  "Status r =
    \<lparr>statusID = nodeId r, statusState = stateString (state r), statusTerm = currentTerm r,
     statusLeaderID = leaderID r, statusLastLogIndex = LastIndex (raftLog r),
     statusCommitIndex = commitIndex r, statusLastApplied = lastApplied r,
     statusAlive = (\<not> stopClosed r)\<rparr>"

end
