(* ===== verification/Raft_Rpc.thy ===== *)
theory Raft_Rpc
  imports Raft_Node
begin

text \<open>
  The two RPC handlers and the leader's side of replication: \<open>RequestVote\<close> and
  \<open>isCandidateLogUpToDate\<close> (internal/raft/vote.go), \<open>AppendEntries\<close> and \<open>sendHeartbeats\<close>
  with its per-peer callback (internal/raft/append_entries.go).
\<close>

section \<open>RequestVote\<close>

definition isCandidateLogUpToDate :: "uint64 \<Rightarrow> uint64 \<Rightarrow> RaftNode \<Rightarrow> bool" where
  "isCandidateLogUpToDate lastLogIndex lastLogTerm r =
    (let lastIndex = LastIndex (raftLog r);
         lastTerm = (if lastIndex > 0 then entryTerm (fst (logGet lastIndex (raftLog r))) else 0)
     in if lastLogTerm \<noteq> lastTerm then lastLogTerm > lastTerm
        else lastLogIndex \<ge> lastIndex)"

definition RequestVote :: "RequestVoteArgs \<Rightarrow> RaftNode \<Rightarrow> RaftNode \<times> RequestVoteReply" where
  "RequestVote args r =
    (if rvTerm args < currentTerm r
     then (r, \<lparr>rvrTerm = currentTerm r, rvrVoteGranted = False\<rparr>)
     else
       let r1 = (if rvTerm args > currentTerm r
                 then r\<lparr>currentTerm := rvTerm args, state := Follower, votedFor := -1\<rparr>
                 else r);
           reply = \<lparr>rvrTerm = currentTerm r1, rvrVoteGranted = False\<rparr>
       in if votedFor r1 \<noteq> -1 \<and> votedFor r1 \<noteq> rvCandidateID args then (r1, reply)
          else if \<not> isCandidateLogUpToDate (rvLastLogIndex args) (rvLastLogTerm args) r1
            then (r1, reply)
          else (resetElectionTimer (r1\<lparr>votedFor := rvCandidateID args\<rparr>),
                reply\<lparr>rvrVoteGranted := True\<rparr>))"

section \<open>AppendEntries\<close>

text \<open>One turn of the loop over the new entries.\<close>

definition mergeEntry :: "LogEntry \<Rightarrow> RaftLog \<Rightarrow> RaftLog" where
  "mergeEntry newEntry l =
    (case logGet (entryIndex newEntry) l of
       (existing, ok) \<Rightarrow>
         if ok then
           if entryTerm existing \<noteq> entryTerm newEntry
           then (let l1 = TruncateFrom (entryIndex newEntry) l
                 in l1\<lparr>Entries := Entries l1 @ [newEntry]\<rparr>)
           else l
         else l\<lparr>Entries := Entries l @ [newEntry]\<rparr>)"

text \<open>The check of the previous entry; \<open>True\<close> when the handler goes on.\<close>

definition prevMatches :: "AppendEntriesArgs \<Rightarrow> RaftNode \<Rightarrow> bool" where
  "prevMatches args r =
    (if 0 <s aePrevLogIndex args then
       if aePrevLogIndex args > LastIndex (raftLog r) then False
       else (case logGet (aePrevLogIndex args) (raftLog r) of
               (entry, ok) \<Rightarrow> if \<not> ok then False else entryTerm entry = aePrevLogTerm args)
     else True)"

definition advanceCommit :: "goint \<Rightarrow> RaftNode \<Rightarrow> RaftNode" where
  "advanceCommit leaderCommit r =
    (if commitIndex r <s leaderCommit
     then (if leaderCommit > LastIndex (raftLog r)
           then r\<lparr>commitIndex := LastIndex (raftLog r)\<rparr>
           else r\<lparr>commitIndex := leaderCommit\<rparr>)
     else r)"

definition AppendEntries ::
  "AppendEntriesArgs \<Rightarrow> RaftNode \<Rightarrow> RaftNode \<times> Effect list \<times> AppendEntriesReply" where
  "AppendEntries args r =
    (if aeTerm args < currentTerm r
     then (r, [], \<lparr>aerTerm = currentTerm r, aerSuccess = False\<rparr>)
     else
       let r1 = (if aeTerm args > currentTerm r
                 then r\<lparr>currentTerm := aeTerm args, votedFor := -1\<rparr> else r);
           prevLeader = leaderID r1;
           r2 = r1\<lparr>state := Follower, leaderID := aeLeaderID args\<rparr>;
           e1 = (if prevLeader \<noteq> aeLeaderID args
                 then emitEvent r2 LeaderChanged
                        (''Leader changed to Node '' @ showInt (aeLeaderID args)) (aeLeaderID args) 0
                 else []);
           e2 = emitEvent r2 HeartbeatReceived
                  (''Heartbeat received from Node '' @ showInt (aeLeaderID args)) (aeLeaderID args) 0;
           r3 = resetElectionTimer r2;
           reply = \<lparr>aerTerm = currentTerm r3, aerSuccess = False\<rparr>
       in if \<not> prevMatches args r3 then (r3, e1 @ e2, reply)
          else
            let r4 = r3\<lparr>raftLog := fold mergeEntry (aeEntries args) (raftLog r3)\<rparr>;
                r5 = advanceCommit (aeLeaderCommit args) r4
            in (case applyCommitted r5 of
                  (r6, e3) \<Rightarrow> (r6, e1 @ e2 @ e3, reply\<lparr>aerSuccess := True\<rparr>)))"

section \<open>The leader's side\<close>

definition heartbeatArgs :: "RaftNode \<Rightarrow> int \<Rightarrow> AppendEntriesArgs" where
  "heartbeatArgs r p =
    (let next = mapRead (nextIndex r) p;
         prevLogIndex = (if next > 1 then next - 1 else 0);
         prevLogTerm = (if next > 1
                        then (case logGet prevLogIndex (raftLog r) of
                                (entry, ok) \<Rightarrow> if ok then entryTerm entry else 0)
                        else 0)
     in \<lparr>aeTerm = currentTerm r, aeLeaderID = nodeId r, aePrevLogIndex = prevLogIndex,
         aePrevLogTerm = prevLogTerm, aeEntries = EntriesFrom next (raftLog r),
         aeLeaderCommit = commitIndex r\<rparr>)"

definition sendHeartbeats :: "RaftNode \<Rightarrow> Effect list" where
  "sendHeartbeats r =
    (if state r \<noteq> Leader then []
     else concat (map (\<lambda>(p, address).
            emitEvent r HeartbeatSent (''Heartbeat sent to Node '' @ showInt p) p 0
              @ [GoAppendEntries p address (heartbeatArgs r p)])
          (filter (\<lambda>(p, _). p \<noteq> nodeId r) (peers r))))"

text \<open>One turn of the heartbeat loop at a tick: send, stop when no longer leader, send again.
  The flag says whether the loop goes on. (Between the two sends other handlers may run; the
  cluster model takes the two sends as separate steps.)\<close>

definition heartbeatTick :: "RaftNode \<Rightarrow> Effect list \<times> bool" where
  "heartbeatTick r =
    (if state r \<noteq> Leader then (sendHeartbeats r, False)
     else (sendHeartbeats r @ sendHeartbeats r, True))"

text \<open>What a replication goroutine does with the answer to its RPC.\<close>

definition appendReply ::
  "AppendEntriesArgs \<Rightarrow> int \<Rightarrow> error + AppendEntriesReply \<Rightarrow> RaftNode \<Rightarrow> RaftNode \<times> Effect list" where
  "appendReply args peerID result r =
    (case result of
       Inl e \<Rightarrow> (r, [])
     | Inr reply \<Rightarrow>
        if state r \<noteq> Leader \<or> currentTerm r \<noteq> aeTerm args then (r, [])
        else if aerTerm reply > currentTerm r then
          (r\<lparr>currentTerm := aerTerm reply, state := Follower, votedFor := -1\<rparr>, [])
        else if \<not> aerSuccess reply then
          (if mapRead (nextIndex r) peerID > 1
           then (r\<lparr>nextIndex := (nextIndex r)(peerID \<mapsto> mapRead (nextIndex r) peerID - 1)\<rparr>, [])
           else (r, []))
        else
          let match = aePrevLogIndex args + word_of_nat (length (aeEntries args));
              r1 = r\<lparr>matchIndex := (matchIndex r)(peerID \<mapsto> match),
                     nextIndex := (nextIndex r)(peerID \<mapsto> match + 1)\<rparr>;
              e1 = (if length (aeEntries args) > 0
                    then emitEvent r1 LogReplicated
                           (''Log replicated to Node '' @ showInt peerID) peerID match
                    else [])
          in (case updateCommitIndex r1 of (r2, e2) \<Rightarrow>
                (case applyCommitted r2 of (r3, e3) \<Rightarrow> (r3, e1 @ e2 @ e3))))"

end
