(* ===== verification/Raft_Proofs.thy ===== *)
theory Raft_Proofs
  imports Raft_Rpc
begin

text \<open>
  Properties of the Raft handlers on one node: when a vote is granted and what it changes, what
  AppendEntries does to the log (against a reference definition), how the commit index moves
  and which commands reach the state machine.
\<close>

section \<open>Frames\<close>

text \<open>What the helpers leave alone.\<close>

lemma resetElectionTimer_frame [simp]:
  "nodeId (resetElectionTimer r) = nodeId r" "state (resetElectionTimer r) = state r"
  "currentTerm (resetElectionTimer r) = currentTerm r" "votedFor (resetElectionTimer r) = votedFor r"
  "raftLog (resetElectionTimer r) = raftLog r" "commitIndex (resetElectionTimer r) = commitIndex r"
  "lastApplied (resetElectionTimer r) = lastApplied r" "peers (resetElectionTimer r) = peers r"
  "nextIndex (resetElectionTimer r) = nextIndex r" "matchIndex (resetElectionTimer r) = matchIndex r"
  "applyFunc (resetElectionTimer r) = applyFunc r" "leaderID (resetElectionTimer r) = leaderID r"
  "eventBus (resetElectionTimer r) = eventBus r" "stopClosed (resetElectionTimer r) = stopClosed r"
  by (simp_all add: resetElectionTimer_def)

lemma advanceCommit_only: "advanceCommit c r = r\<lparr>commitIndex := commitIndex (advanceCommit c r)\<rparr>"
  by (simp add: advanceCommit_def)

text \<open>The apply loop with its two continuations merged, and its induction rule.\<close>

definition applyEffects :: "RaftNode \<Rightarrow> LogEntry \<Rightarrow> Effect list" where
  "applyEffects r e =
    (case applyFunc r of
       None \<Rightarrow> []
     | Some f \<Rightarrow> CallApply f (entryCommand e)
         # emitEvent r CommandApplied ''Command applied'' (-1) (lastApplied r))"

lemma applyCommitted_unfold:
  "applyCommitted r =
    (if lastApplied r < commitIndex r then
       (let r1 = r\<lparr>lastApplied := lastApplied r + 1\<rparr>; g = logGet (lastApplied r1) (raftLog r)
        in if snd g then (fst (applyCommitted r1), applyEffects r1 (fst g) @ snd (applyCommitted r1))
           else (r1, []))
     else (r, []))"
  by (subst applyCommitted.simps)
     (auto simp: Let_def applyEffects_def split: prod.splits option.splits)

lemma applyCommitted_induct:
  assumes "\<And>r. (lastApplied r < commitIndex r \<Longrightarrow> P (r\<lparr>lastApplied := lastApplied r + 1\<rparr>)) \<Longrightarrow> P r"
  shows "P r"
proof (induction "unat (commitIndex r) - unat (lastApplied r)" arbitrary: r rule: less_induct)
  case less
  show ?case
  proof (rule assms, rule less)
    assume "lastApplied r < commitIndex r"
    moreover note unat_plus_one_less [OF this]
    ultimately show "unat (commitIndex (r\<lparr>lastApplied := lastApplied r + 1\<rparr>))
        - unat (lastApplied (r\<lparr>lastApplied := lastApplied r + 1\<rparr>))
      < unat (commitIndex r) - unat (lastApplied r)"
      by (simp add: word_less_nat_alt)
  qed
qed

lemma applyCommitted_only:
  "fst (applyCommitted r) = r\<lparr>lastApplied := lastApplied (fst (applyCommitted r))\<rparr>"
proof (induction r rule: applyCommitted_induct)
  case (1 r)
  then show ?case by (subst (1 2) applyCommitted_unfold) (simp add: Let_def)
qed

lemma applyCommitted_frame [simp]:
  "nodeId (fst (applyCommitted r)) = nodeId r" "state (fst (applyCommitted r)) = state r"
  "currentTerm (fst (applyCommitted r)) = currentTerm r" "votedFor (fst (applyCommitted r)) = votedFor r"
  "raftLog (fst (applyCommitted r)) = raftLog r" "commitIndex (fst (applyCommitted r)) = commitIndex r"
  "peers (fst (applyCommitted r)) = peers r" "nextIndex (fst (applyCommitted r)) = nextIndex r"
  "matchIndex (fst (applyCommitted r)) = matchIndex r"
  "applyFunc (fst (applyCommitted r)) = applyFunc r"
  by (subst applyCommitted_only, simp)+

lemma advanceCommit_frame [simp]:
  "nodeId (advanceCommit c r) = nodeId r" "state (advanceCommit c r) = state r"
  "currentTerm (advanceCommit c r) = currentTerm r" "votedFor (advanceCommit c r) = votedFor r"
  "raftLog (advanceCommit c r) = raftLog r" "lastApplied (advanceCommit c r) = lastApplied r"
  "peers (advanceCommit c r) = peers r" "nextIndex (advanceCommit c r) = nextIndex r"
  "matchIndex (advanceCommit c r) = matchIndex r" "applyFunc (advanceCommit c r) = applyFunc r"
  by (simp_all add: advanceCommit_def)

section \<open>Voting\<close>

lemma RequestVote_cases:
  obtains (old) "rvTerm args < currentTerm r" "RequestVote args r =
        (r, \<lparr>rvrTerm = currentTerm r, rvrVoteGranted = False\<rparr>)"
  | (seen) r1 where "currentTerm r \<le> rvTerm args"
      "r1 = (if currentTerm r < rvTerm args
         then r\<lparr>currentTerm := rvTerm args, state := Follower, votedFor := -1\<rparr> else r)"
      "RequestVote args r =
        (if (votedFor r1 = -1 \<or> votedFor r1 = rvCandidateID args)
            \<and> isCandidateLogUpToDate (rvLastLogIndex args) (rvLastLogTerm args) r1
         then (resetElectionTimer (r1\<lparr>votedFor := rvCandidateID args\<rparr>),
               \<lparr>rvrTerm = currentTerm r1, rvrVoteGranted = True\<rparr>)
         else (r1, \<lparr>rvrTerm = currentTerm r1, rvrVoteGranted = False\<rparr>))"
proof (cases "rvTerm args < currentTerm r")
  case True
  then show ?thesis by (intro old) (simp_all add: RequestVote_def)
next
  case False
  then show ?thesis
    by (intro seen [OF _ refl]) (simp_all add: RequestVote_def Let_def)
qed

lemma isCandidateLogUpToDate_log:
  "raftLog r = raftLog s \<Longrightarrow> isCandidateLogUpToDate i t r = isCandidateLogUpToDate i t s"
  by (simp add: isCandidateLogUpToDate_def)

text \<open>C19. When a vote is granted: exactly if the candidate's term is not older, this node has
  not voted for another candidate in that term, and the candidate's log is up to date. The
  node's term becomes the larger of the two and is the term of the reply, the log, commit and
  applied indices never change, and the vote recorded afterwards is the candidate if granted,
  the old vote if the term did not move, and none otherwise.\<close>

theorem request_vote_decision:
  assumes "RequestVote args r = (r', reply)"
  shows "(rvrVoteGranted reply \<longleftrightarrow>
      currentTerm r \<le> rvTerm args
      \<and> (currentTerm r < rvTerm args \<or> votedFor r = -1 \<or> votedFor r = rvCandidateID args)
      \<and> isCandidateLogUpToDate (rvLastLogIndex args) (rvLastLogTerm args) r)
    \<and> currentTerm r' = max (currentTerm r) (rvTerm args) \<and> rvrTerm reply = currentTerm r'
    \<and> votedFor r' = (if rvrVoteGranted reply then rvCandidateID args
                     else if currentTerm r < rvTerm args then -1 else votedFor r)
    \<and> state r' = (if currentTerm r < rvTerm args then Follower else state r)
    \<and> raftLog r' = raftLog r \<and> commitIndex r' = commitIndex r \<and> lastApplied r' = lastApplied r"
proof (cases rule: RequestVote_cases [of args r])
  case old
  with assms show ?thesis by (auto simp: max_def)
next
  case (seen r1)
  have "isCandidateLogUpToDate i t r1 = isCandidateLogUpToDate i t r" for i t
    using seen(2) by (intro isCandidateLogUpToDate_log) simp
  with seen assms show ?thesis by (auto simp: max_def split: if_splits)
qed

definition voteArgs :: "uint64 \<Rightarrow> int \<Rightarrow> RequestVoteArgs" where
  "voteArgs t c = \<lparr>rvTerm = t, rvCandidateID = c, rvLastLogIndex = 0, rvLastLogTerm = 0\<rparr>"

lemma request_vote_decision_witness:
  "rvrVoteGranted (snd (RequestVote (voteArgs 1 2) (NewRaftNode 1)))"
  using request_vote_decision [of "voteArgs 1 2" "NewRaftNode 1"]
  by (cases "RequestVote (voteArgs 1 2) (NewRaftNode 1)")
     (simp add: voteArgs_def NewRaftNode_def isCandidateLogUpToDate_def LastIndex_def)

section \<open>Merging entries\<close>

text \<open>The reference: walk along the entries while they agree with the log by term; at the
  first position that disagrees or is missing, the log is cut and the rest appended.\<close>

fun mergeSpec :: "nat \<Rightarrow> LogEntry list \<Rightarrow> LogEntry list \<Rightarrow> LogEntry list" where
  "mergeSpec p [] l = l"
| "mergeSpec p (e # es) l =
    (if p < length l \<and> entryTerm (l ! p) = entryTerm e then mergeSpec (Suc p) es l
     else take p l @ e # es)"

lemma fold_mergeEntry_beyond:
  "numberedFrom (length (Entries l)) es \<Longrightarrow> length (Entries l) + length es < 9223372036854775807 \<Longrightarrow>
    fold mergeEntry es l = l\<lparr>Entries := Entries l @ es\<rparr>"
proof (induction es arbitrary: l)
  case Nil
  then show ?case by simp
next
  case (Cons e es)
  let ?n = "length (Entries l)"
  have "unat (entryIndex e) = Suc ?n"
    using Cons.prems unat64_of_nat [of "Suc ?n"] by (simp add: numberedFrom_Cons)
  then have "logGet (entryIndex e) l = (zeroEntry, False)"
    using Cons.prems(2) by (simp add: logGet_small logSmall_def)
  then have "mergeEntry e l = l\<lparr>Entries := Entries l @ [e]\<rparr>"
    by (simp add: mergeEntry_def)
  with Cons.IH [of "l\<lparr>Entries := Entries l @ [e]\<rparr>"] Cons.prems show ?case
    by (simp add: numberedFrom_Cons)
qed

lemma fold_mergeEntry:
  "numberedFrom p es \<Longrightarrow> p \<le> length (Entries l) \<Longrightarrow> logSmall l
    \<Longrightarrow> p + length es < 9223372036854775807 \<Longrightarrow>
    fold mergeEntry es l = l\<lparr>Entries := mergeSpec p es (Entries l)\<rparr>"
proof (induction es arbitrary: p l)
  case Nil
  then show ?case by simp
next
  case (Cons e es)
  have idx: "unat (entryIndex e) = Suc p" and num: "numberedFrom (Suc p) es"
    using Cons.prems unat64_of_nat [of "Suc p"] by (simp_all add: numberedFrom_Cons)
  show ?case
  proof (cases "p < length (Entries l)")
    case False
    with Cons.prems have "p = length (Entries l)" by simp
    with Cons.prems show ?thesis
      by (simp add: fold_mergeEntry_beyond del: fold.simps)
  next
    case True
    then have get: "logGet (entryIndex e) l = (Entries l ! p, True)"
      using idx Cons.prems(3) by (simp add: logGet_small)
    show ?thesis
    proof (cases "entryTerm (Entries l ! p) = entryTerm e")
      case same: True
      then have "mergeEntry e l = l" by (simp add: mergeEntry_def get)
      with same True Cons.IH [OF num] Cons.prems show ?thesis by simp
    next
      case False
      let ?l = "l\<lparr>Entries := take p (Entries l) @ [e]\<rparr>"
      have "Entries (TruncateFrom (entryIndex e) l) = take p (Entries l)"
        using Cons.prems(3) idx by (simp add: TruncateFrom_small)
      then have "mergeEntry e l = ?l"
        using False by (simp add: mergeEntry_def get Let_def)
      moreover have "fold mergeEntry es ?l = ?l\<lparr>Entries := Entries ?l @ es\<rparr>"
        using num True Cons.prems(4) by (intro fold_mergeEntry_beyond) (simp_all add: min_def)
      ultimately show ?thesis using False True by simp
    qed
  qed
qed

lemma mergeSpec_wf:
  "numberedFrom 0 l \<Longrightarrow> numberedFrom p es \<Longrightarrow> p \<le> length l \<Longrightarrow> numberedFrom 0 (mergeSpec p es l)"
proof (induction p es l rule: mergeSpec.induct)
  case (1 p l)
  then show ?case by simp
next
  case (2 p e es l)
  then show ?case
    by (auto simp: numberedFrom_Cons numberedFrom_append min_def intro: numberedFrom_take)
qed

lemma mergeSpec_prefix: "p \<le> length l \<Longrightarrow> take p (mergeSpec p es l) = take p l"
proof (induction p es l rule: mergeSpec.induct)
  case (1 p l)
  then show ?case by simp
next
  case (2 p e es l)
  then show ?case
    by (auto simp: min_def) (metis Suc_leI take_take min.absorb1 lessI less_imp_le)
qed

lemma mergeSpec_length: "p \<le> length l \<Longrightarrow> p + length es \<le> length (mergeSpec p es l)"
  by (induction p es l rule: mergeSpec.induct) auto

lemma length_mergeSpec_le: "p \<le> length l \<Longrightarrow> length (mergeSpec p es l) \<le> max (length l) (p + length es)"
  by (induction p es l rule: mergeSpec.induct) auto

text \<open>Entry by entry: inside the message's range the terms are the message's; the result's
  entry is the old one where it agreed and the message's otherwise.\<close>

lemma mergeSpec_terms:
  "p \<le> length l \<Longrightarrow> i < length es \<Longrightarrow> entryTerm (mergeSpec p es l ! (p + i)) = entryTerm (es ! i)"
proof (induction p es l arbitrary: i rule: mergeSpec.induct)
  case (1 p l)
  then show ?case by simp
next
  case (2 p e es l)
  show ?case
  proof (cases "p < length l \<and> entryTerm (l ! p) = entryTerm e")
    case False
    then have "mergeSpec p (e # es) l = take p l @ e # es" by auto
    then show ?thesis using "2.prems" by (simp add: nth_append)
  next
    case True
    then have m: "mergeSpec p (e # es) l = mergeSpec (Suc p) es l" by simp
    show ?thesis
    proof (cases i)
      case 0
      have "mergeSpec (Suc p) es l ! p = take (Suc p) (mergeSpec (Suc p) es l) ! p" by simp
      also have "\<dots> = l ! p" using True by (simp add: mergeSpec_prefix)
      finally show ?thesis using True 0 m by simp
    next
      case (Suc k)
      with "2.IH" [of k] "2.prems" True m show ?thesis by simp
    qed
  qed
qed

text \<open>A message the log already agrees with changes nothing: a delayed or repeated
  AppendEntries never removes entries.\<close>

lemma mergeSpec_agree:
  "p + length es \<le> length l \<Longrightarrow> \<forall>i < length es. entryTerm (l ! (p + i)) = entryTerm (es ! i)
    \<Longrightarrow> mergeSpec p es l = l"
proof (induction p es l rule: mergeSpec.induct)
  case (1 p l)
  then show ?case by simp
next
  case (2 p e es l)
  have "entryTerm (l ! p) = entryTerm e" using "2.prems"(2) by (drule_tac spec [of _ 0]) simp
  moreover have "\<forall>i < length es. entryTerm (l ! (Suc p + i)) = entryTerm (es ! i)"
    using "2.prems"(2) by (auto dest: spec [of _ "Suc _"])
  ultimately show ?case using "2.IH" "2.prems"(1) by simp
qed

section \<open>AppendEntries\<close>

text \<open>A message as a leader builds it: a non-negative previous index and entries numbered from
  there, below the integer limit.\<close>

definition argsWf :: "AppendEntriesArgs \<Rightarrow> bool" where
  "argsWf args \<longleftrightarrow> numberedFrom (unat (aePrevLogIndex args)) (aeEntries args)
     \<and> unat (aePrevLogIndex args) + length (aeEntries args) < 9223372036854775807"

text \<open>The node once the message's term and sender are accepted.\<close>

definition adoptLeader :: "AppendEntriesArgs \<Rightarrow> RaftNode \<Rightarrow> RaftNode" where
  "adoptLeader args r = r\<lparr>currentTerm := aeTerm args,
     votedFor := (if currentTerm r < aeTerm args then -1 else votedFor r),
     state := Follower, leaderID := aeLeaderID args, timerArmed := True\<rparr>"

definition installed :: "AppendEntriesArgs \<Rightarrow> RaftNode \<Rightarrow> RaftNode" where
  "installed args r = advanceCommit (aeLeaderCommit args)
     ((adoptLeader args r)\<lparr>raftLog := fold mergeEntry (aeEntries args) (raftLog r)\<rparr>)"

lemma AppendEntries_cases:
  obtains (old) "aeTerm args < currentTerm r" "AppendEntries args r =
        (r, [], \<lparr>aerTerm = currentTerm r, aerSuccess = False\<rparr>)"
  | (mismatch) es where "currentTerm r \<le> aeTerm args" "\<not> prevMatches args r"
      "AppendEntries args r =
        (adoptLeader args r, es, \<lparr>aerTerm = aeTerm args, aerSuccess = False\<rparr>)"
  | (match) es where "currentTerm r \<le> aeTerm args" "prevMatches args r"
      "AppendEntries args r =
        (fst (applyCommitted (installed args r)), es, \<lparr>aerTerm = aeTerm args, aerSuccess = True\<rparr>)"
proof (cases "aeTerm args < currentTerm r")
  case True
  then show ?thesis by (intro old) (simp_all add: AppendEntries_def)
next
  case False
  then have le: "currentTerm r \<le> aeTerm args" by simp
  define r3 where "r3 = resetElectionTimer
    ((if aeTerm args > currentTerm r then r\<lparr>currentTerm := aeTerm args, votedFor := -1\<rparr> else r)
      \<lparr>state := Follower, leaderID := aeLeaderID args\<rparr>)"
  have r3: "r3 = adoptLeader args r"
    using le by (cases r) (auto simp: r3_def adoptLeader_def resetElectionTimer_def)
  have pm: "prevMatches args r3 = prevMatches args r"
    by (simp add: prevMatches_def r3 adoptLeader_def)
  have log: "raftLog r3 = raftLog r" and trm: "currentTerm r3 = aeTerm args"
    by (simp_all add: r3 adoptLeader_def)
  show ?thesis
  proof (cases "prevMatches args r")
    case True
    have "\<exists>es. AppendEntries args r =
        (fst (applyCommitted (installed args r)), es, \<lparr>aerTerm = aeTerm args, aerSuccess = True\<rparr>)"
      using False True pm trm
      unfolding AppendEntries_def Let_def r3_def [symmetric] installed_def r3 [symmetric] log [symmetric]
      by (simp split: prod.splits)
    then show ?thesis using le True match by blast
  next
    case no: False
    have "\<exists>es. AppendEntries args r =
        (adoptLeader args r, es, \<lparr>aerTerm = aeTerm args, aerSuccess = False\<rparr>)"
      using False no pm trm
      unfolding AppendEntries_def Let_def r3_def [symmetric] r3 [symmetric]
      by simp
    then show ?thesis using le no mismatch by blast
  qed
qed

lemma AppendEntries_successD:
  assumes "AppendEntries args r = (r1, es, reply)" and "aerSuccess reply"
  shows "currentTerm r \<le> aeTerm args \<and> prevMatches args r
    \<and> r1 = fst (applyCommitted (installed args r))"
proof (cases rule: AppendEntries_cases [of args r])
  case old
  with assms show ?thesis by auto
next
  case (mismatch es)
  with assms show ?thesis by auto
next
  case (match es)
  with assms show ?thesis by auto
qed

lemma AppendEntries_accept:
  assumes "currentTerm r \<le> aeTerm args" and "prevMatches args r"
  obtains es where "AppendEntries args r =
    (fst (applyCommitted (installed args r)), es, \<lparr>aerTerm = aeTerm args, aerSuccess = True\<rparr>)"
  using assms by (cases rule: AppendEntries_cases [of args r]) auto

text \<open>The previous-entry check over list positions.\<close>

definition prevAgrees :: "nat \<Rightarrow> uint64 \<Rightarrow> LogEntry list \<Rightarrow> bool" where
  "prevAgrees p t l \<longleftrightarrow> p = 0 \<or> p \<le> length l \<and> entryTerm (l ! (p - 1)) = t"

lemma prevMatches_iff:
  assumes "logWf (raftLog r)" and "logSmall (raftLog r)"
    and "unat (aePrevLogIndex args) < 9223372036854775808"
  shows "prevMatches args r \<longleftrightarrow>
    prevAgrees (unat (aePrevLogIndex args)) (aePrevLogTerm args) (Entries (raftLog r))"
proof -
  let ?p = "aePrevLogIndex args"
  have s: "0 <s ?p \<longleftrightarrow> 0 < unat ?p"
    using assms(3) by (simp add: sless_small)
  have last: "LastIndex (raftLog r) < ?p \<longleftrightarrow> length (Entries (raftLog r)) < unat ?p"
    using assms(1,2) by (simp add: LastIndex_wf word_less_nat_alt logSmall_def)
  show ?thesis
    using assms(2) by (auto simp: prevMatches_def prevAgrees_def s last logGet_small)
qed

lemma installed_log:
  assumes "logWf (raftLog r)" and "logSmall (raftLog r)" and "argsWf args" and "prevMatches args r"
  shows "Entries (raftLog (installed args r)) =
      mergeSpec (unat (aePrevLogIndex args)) (aeEntries args) (Entries (raftLog r))
    \<and> logWf (raftLog (installed args r)) \<and> logSmall (raftLog (installed args r))"
proof -
  let ?p = "unat (aePrevLogIndex args)" and ?l = "Entries (raftLog r)"
  have p: "?p \<le> length ?l"
    using assms prevMatches_iff [of r args] by (auto simp: argsWf_def prevAgrees_def)
  have "fold mergeEntry (aeEntries args) (raftLog r) = (raftLog r)\<lparr>Entries := mergeSpec ?p (aeEntries args) ?l\<rparr>"
    using assms p by (intro fold_mergeEntry) (simp_all add: argsWf_def)
  then have e: "Entries (raftLog (installed args r)) = mergeSpec ?p (aeEntries args) ?l"
    by (simp add: installed_def)
  moreover have "numberedFrom 0 (mergeSpec ?p (aeEntries args) ?l)"
    using assms p by (intro mergeSpec_wf) (simp_all add: logWf_def argsWf_def)
  moreover have "length (mergeSpec ?p (aeEntries args) ?l) < 9223372036854775807"
    using length_mergeSpec_le [OF p, of "aeEntries args"] assms(2,3)
    by (auto simp: logSmall_def argsWf_def)
  ultimately show ?thesis by (simp add: logWf_def logSmall_def)
qed

text \<open>C10. What AppendEntries does to the log, for a message as a leader builds it. It succeeds
  exactly when the term is not older and the log holds the previous entry with its term; then
  the log is the reference merge: unchanged up to the previous entry, agreeing with the message
  by term on the message's range, and well-formed. When it fails, the log and both indices are
  untouched. The reply carries the larger term.\<close>

theorem append_entries_merges:
  assumes "logWf (raftLog r)" and "logSmall (raftLog r)" and "argsWf args"
    and "AppendEntries args r = (r', es, reply)"
    and "p = unat (aePrevLogIndex args)" and "l = Entries (raftLog r)"
  shows "aerTerm reply = max (currentTerm r) (aeTerm args) \<and> currentTerm r' = aerTerm reply
    \<and> (aerSuccess reply \<longleftrightarrow> currentTerm r \<le> aeTerm args \<and> prevAgrees p (aePrevLogTerm args) l)
    \<and> (if aerSuccess reply
       then Entries (raftLog r') = mergeSpec p (aeEntries args) l
         \<and> take p (Entries (raftLog r')) = take p l
         \<and> (\<forall>i < length (aeEntries args).
              entryTerm (Entries (raftLog r') ! (p + i)) = entryTerm (aeEntries args ! i))
         \<and> logWf (raftLog r')
       else raftLog r' = raftLog r \<and> commitIndex r' = commitIndex r \<and> lastApplied r' = lastApplied r)"
proof -
  have pm: "prevMatches args r \<longleftrightarrow> prevAgrees p (aePrevLogTerm args) l"
    using assms prevMatches_iff [of r args] by (simp add: argsWf_def)
  show ?thesis
  proof (cases rule: AppendEntries_cases [of args r])
    case old
    with assms show ?thesis by (auto simp: max_def)
  next
    case (mismatch es)
    with assms pm show ?thesis by (auto simp: max_def adoptLeader_def)
  next
    case (match es)
    then have p: "p \<le> length l" using pm by (auto simp: prevAgrees_def)
    have t: "currentTerm (installed args r) = aeTerm args"
      by (simp add: installed_def adoptLeader_def)
    show ?thesis
      using match assms pm installed_log [OF assms(1-3) match(2)] t
        mergeSpec_prefix [OF p] mergeSpec_terms [OF p]
      by (auto simp: max_def)
  qed
qed

definition appendArgs :: "uint64 \<Rightarrow> goint \<Rightarrow> goint \<Rightarrow> LogEntry list \<Rightarrow> goint \<Rightarrow> AppendEntriesArgs" where
  "appendArgs t p pt es c = \<lparr>aeTerm = t, aeLeaderID = 0, aePrevLogIndex = p, aePrevLogTerm = pt,
     aeEntries = es, aeLeaderCommit = c\<rparr>"

definition nodeWithLog :: "int \<Rightarrow> uint64 \<Rightarrow> LogEntry list \<Rightarrow> RaftNode" where
  "nodeWithLog i t es = (NewRaftNode i)\<lparr>currentTerm := t, raftLog := \<lparr>Entries = es\<rparr>\<rparr>"

lemma nodeWithLog_simps [simp]:
  "raftLog (nodeWithLog i t es) = \<lparr>Entries = es\<rparr>" "currentTerm (nodeWithLog i t es) = t"
  "state (nodeWithLog i t es) = Follower" "commitIndex (nodeWithLog i t es) = 0"
  "lastApplied (nodeWithLog i t es) = 0" "applyFunc (nodeWithLog i t es) = None"
  by (simp_all add: nodeWithLog_def NewRaftNode_def)

lemma append_entries_merges_witness:
  "Entries (raftLog (fst (AppendEntries (appendArgs 2 1 1 [entryAt 2 2 ''b''] 0)
      (nodeWithLog 1 1 [entryAt 1 1 ''a'', entryAt 2 1 ''x'', entryAt 3 1 ''y''])))) =
     [entryAt 1 1 ''a'', entryAt 2 2 ''b'']"
proof -
  let ?a = "appendArgs 2 1 1 [entryAt 2 2 ''b''] 0"
  let ?l = "[entryAt 1 1 ''a'', entryAt 2 1 ''x'', entryAt 3 1 ''y'']"
  let ?r = "nodeWithLog 1 1 ?l"
  obtain r' es reply where a: "AppendEntries ?a ?r = (r', es, reply)" by (metis prod_cases3)
  have wf: "logWf (raftLog ?r)" and small: "logSmall (raftLog ?r)"
    by (simp_all add: logWf_def logSmall_def numberedFrom_Cons)
  have args: "argsWf ?a"
    by (simp add: argsWf_def appendArgs_def numberedFrom_Cons)
  have "Entries (raftLog r') = mergeSpec 1 [entryAt 2 2 ''b''] ?l"
    using append_entries_merges [OF wf small args a refl refl]
    by (auto simp: prevAgrees_def appendArgs_def split: if_splits)
  then show ?thesis by (simp add: a)
qed

text \<open>Repeating a message is harmless: handling an accepted AppendEntries a second time is
  accepted again and changes neither the log nor the commit index. (A delayed copy therefore
  removes nothing.)\<close>

lemma append_entries_idempotent:
  assumes "logWf (raftLog r)" and "logSmall (raftLog r)" and "argsWf args"
    and "AppendEntries args r = (r1, es1, reply1)" and "aerSuccess reply1"
    and "AppendEntries args r1 = (r2, es2, reply2)"
  shows "aerSuccess reply2 \<and> raftLog r2 = raftLog r1 \<and> commitIndex r2 = commitIndex r1"
proof -
  let ?p = "unat (aePrevLogIndex args)" and ?es = "aeEntries args"
  let ?l = "Entries (raftLog r)" and ?l1 = "Entries (raftLog r1)"
  have m: "currentTerm r \<le> aeTerm args" "prevMatches args r"
    and r1: "r1 = fst (applyCommitted (installed args r))"
    using AppendEntries_successD [OF assms(4,5)] by blast+
  have l1: "?l1 = mergeSpec ?p ?es ?l" "logWf (raftLog r1)" "logSmall (raftLog r1)"
    using installed_log [OF assms(1-3) m(2)] by (simp_all add: r1)
  have prev: "prevAgrees ?p (aePrevLogTerm args) ?l" and p: "?p \<le> length ?l"
    using m(2) prevMatches_iff [of r args] assms by (auto simp: argsWf_def prevAgrees_def)
  have tk: "take ?p ?l1 = take ?p ?l" using mergeSpec_prefix [OF p] l1(1) by simp
  have len: "?p + length ?es \<le> length ?l1" using mergeSpec_length [OF p] l1(1) by simp
  have "?l1 ! (?p - 1) = ?l ! (?p - 1)" if "0 < ?p"
    using arg_cong [OF tk, of "\<lambda>xs. xs ! (?p - 1)"] that by simp
  then have "prevMatches args r1"
    using prev len prevMatches_iff [of r1 args] l1 assms(3) by (auto simp: prevAgrees_def argsWf_def)
  moreover have t1: "currentTerm r1 = aeTerm args"
    by (simp add: r1 installed_def adoptLeader_def)
  ultimately have "currentTerm r1 \<le> aeTerm args" "prevMatches args r1" by simp_all
  then obtain es where "AppendEntries args r1 =
      (fst (applyCommitted (installed args r1)), es, \<lparr>aerTerm = aeTerm args, aerSuccess = True\<rparr>)"
    by (rule AppendEntries_accept)
  with assms(6) have r2: "r2 = fst (applyCommitted (installed args r1))" and s: "aerSuccess reply2"
    by auto
  have same: "mergeSpec ?p ?es ?l1 = ?l1"
    using len mergeSpec_terms [OF p] l1(1) by (intro mergeSpec_agree) auto
  have "fold mergeEntry ?es (raftLog r1) = (raftLog r1)\<lparr>Entries := mergeSpec ?p ?es ?l1\<rparr>"
    using assms(3) l1 len by (intro fold_mergeEntry) (simp_all add: argsWf_def)
  then have log: "fold mergeEntry ?es (raftLog r1) = raftLog r1" using same by simp
  then have "raftLog r2 = raftLog r1" by (simp add: r2 installed_def)
  moreover have c1: "commitIndex r1 = commitIndex (advanceCommit (aeLeaderCommit args)
      ((adoptLeader args r)\<lparr>raftLog := raftLog r1\<rparr>))"
    by (simp add: r1 installed_def)
  have "commitIndex r2 = commitIndex (advanceCommit (aeLeaderCommit args) (adoptLeader args r1))"
    using log by (simp add: r2 installed_def adoptLeader_def)
  then have "commitIndex r2 = commitIndex r1"
    using c1 by (auto simp: advanceCommit_def adoptLeader_def split: if_splits)
  ultimately show ?thesis using s by simp
qed

lemma append_entries_idempotent_witness:
  "raftLog (fst (AppendEntries (appendArgs 2 0 0 [entryAt 1 2 ''b''] 0)
     (fst (AppendEntries (appendArgs 2 0 0 [entryAt 1 2 ''b''] 0) (nodeWithLog 1 1 [])))))
   = raftLog (fst (AppendEntries (appendArgs 2 0 0 [entryAt 1 2 ''b''] 0) (nodeWithLog 1 1 [])))"
proof -
  let ?a = "appendArgs 2 0 0 [entryAt 1 2 ''b''] 0" and ?r = "nodeWithLog 1 1 []"
  obtain r1 es1 rep1 where a1: "AppendEntries ?a ?r = (r1, es1, rep1)" by (metis prod_cases3)
  obtain r2 es2 rep2 where a2: "AppendEntries ?a r1 = (r2, es2, rep2)" by (metis prod_cases3)
  have wf: "logWf (raftLog ?r)" "logSmall (raftLog ?r)" "argsWf ?a"
    by (simp_all add: logWf_def logSmall_def argsWf_def appendArgs_def numberedFrom_Cons)
  have "aerSuccess rep1"
    using append_entries_merges [OF wf a1 refl refl] by (simp add: prevAgrees_def appendArgs_def)
  from append_entries_idempotent [OF wf a1 this a2] show ?thesis by (simp add: a1 a2)
qed

section \<open>Applying committed entries\<close>

lemma callsOf_applyEffects [simp]:
  "callsOf (applyEffects r e) = (if applyFunc r = None then [] else [entryCommand e])"
  by (auto simp: applyEffects_def split: option.splits)

lemma applyCommitted_range:
  "logSmall (raftLog r) \<Longrightarrow> unat (commitIndex r) \<le> length (Entries (raftLog r)) \<Longrightarrow>
   lastApplied r \<le> commitIndex r \<Longrightarrow> applyFunc r \<noteq> None \<Longrightarrow>
   callsOf (snd (applyCommitted r)) = map entryCommand
       (take (unat (commitIndex r) - unat (lastApplied r))
         (drop (unat (lastApplied r)) (Entries (raftLog r))))
   \<and> fst (applyCommitted r) = r\<lparr>lastApplied := commitIndex r\<rparr>"
proof (induction r rule: applyCommitted_induct)
  case (1 r)
  let ?a = "unat (lastApplied r)" and ?c = "unat (commitIndex r)" and ?l = "Entries (raftLog r)"
  let ?r = "r\<lparr>lastApplied := lastApplied r + 1\<rparr>"
  show ?case
  proof (cases "lastApplied r < commitIndex r")
    case False
    with "1.prems"(3) have "lastApplied r = commitIndex r" by simp
    then show ?thesis by (subst (1 2) applyCommitted_unfold) (cases r; simp)
  next
    case True
    have suc: "unat (lastApplied r + 1) = Suc ?a" by (rule unat_plus_one_less [OF True])
    have a: "?a < length ?l" and ac: "?a < ?c"
      using True "1.prems"(2) by (simp_all add: word_less_nat_alt)
    have get: "logGet (lastApplied r + 1) (raftLog r) = (?l ! ?a, True)"
      using "1.prems"(1) a suc by (simp add: logGet_small)
    have le: "lastApplied ?r \<le> commitIndex ?r"
      using ac suc by (simp add: word_le_nat_alt)
    from "1.IH" [OF True] "1.prems" le
    have ih: "callsOf (snd (applyCommitted ?r)) = map entryCommand (take (?c - Suc ?a) (drop (Suc ?a) ?l))"
      and ih': "fst (applyCommitted ?r) = ?r\<lparr>lastApplied := commitIndex r\<rparr>"
      by (simp_all add: suc)
    have "take (?c - ?a) (drop ?a ?l) = ?l ! ?a # take (?c - Suc ?a) (drop (Suc ?a) ?l)"
      using a ac by (simp add: Cons_nth_drop_Suc [symmetric] take_Cons')
    then show ?thesis
      using True get ih ih' "1.prems"(4) applyCommitted_unfold [of r] by (simp add: Let_def)
  qed
qed

text \<open>C22. Applying is exact: with \<open>applyFunc\<close> set and the commit index inside the log, the
  loop hands over the commands of the entries after \<open>lastApplied\<close> up to \<open>commitIndex\<close>, each
  once and in log order, and leaves \<open>lastApplied\<close> at \<open>commitIndex\<close> and the node otherwise
  unchanged.\<close>

theorem apply_committed_exact:
  assumes "logSmall (raftLog r)" and "unat (commitIndex r) \<le> length (Entries (raftLog r))"
    and "lastApplied r \<le> commitIndex r" and "applyFunc r \<noteq> None"
    and "applyCommitted r = (r', es)"
  shows "callsOf es = map entryCommand
      (take (unat (commitIndex r) - unat (lastApplied r))
        (drop (unat (lastApplied r)) (Entries (raftLog r))))
    \<and> r' = r\<lparr>lastApplied := commitIndex r\<rparr>"
  using applyCommitted_range [OF assms(1-4)] assms(5) by simp

lemma apply_committed_exact_witness:
  "callsOf (snd (applyCommitted ((nodeWithLog 1 1 [entryAt 1 1 ''name'', entryAt 2 1 ''age''])
     \<lparr>commitIndex := 2, applyFunc := Some ApplyToStore\<rparr>))) = [setCmd ''name'' ''name'', setCmd ''age'' ''age'']"
  using apply_committed_exact [of "(nodeWithLog 1 1 [entryAt 1 1 ''name'', entryAt 2 1 ''age''])
     \<lparr>commitIndex := 2, applyFunc := Some ApplyToStore\<rparr>", OF _ _ _ _ prod.collapse [symmetric]]
  by (simp add: logSmall_def)

section \<open>Advancing the commit index\<close>

definition hasQuorum :: "RaftNode \<Rightarrow> uint64 \<Rightarrow> bool" where
  "hasQuorum r index \<longleftrightarrow> commitQuorum r (replicaCount r index)"

lemma replicaCount_commitIndex [simp]:
  "replicaCount (r\<lparr>commitIndex := c\<rparr>) i = replicaCount r i"
  by (simp add: replicaCount_def)

lemma filter_length_mono:
  "(\<And>x. P x \<Longrightarrow> Q x) \<Longrightarrow> length (filter P xs) \<le> length (filter Q xs)"
  by (induction xs) auto

lemma hasQuorum_mono: "hasQuorum r j \<Longrightarrow> i \<le> j \<Longrightarrow> hasQuorum r i"
  unfolding hasQuorum_def replicaCount_def commitQuorum_def
  by (erule less_le_trans) (auto intro!: filter_length_mono)

lemma commitStep_fst:
  "fst (commitStep i (r, es)) = (if hasQuorum r i then r\<lparr>commitIndex := i\<rparr> else r)"
  by (simp add: commitStep_def hasQuorum_def Let_def)

lemma fold_commitStep:
  "\<exists>c. fst (fold commitStep (map word_of_nat [a..<b]) (r, es)) = r\<lparr>commitIndex := c\<rparr>
    \<and> (c = commitIndex r \<and> (\<forall>n \<in> {a..<b}. \<not> hasQuorum r (word_of_nat n))
       \<or> (\<exists>n \<in> {a..<b}. c = word_of_nat n \<and> hasQuorum r c
            \<and> (\<forall>m \<in> {n<..<b}. \<not> hasQuorum r (word_of_nat m))))"
proof (induction b)
  case 0
  then show ?case by (intro exI [of _ "commitIndex r"]) simp
next
  case (Suc b)
  then obtain c where c: "fst (fold commitStep (map word_of_nat [a..<b]) (r, es)) = r\<lparr>commitIndex := c\<rparr>"
    and alt: "c = commitIndex r \<and> (\<forall>n \<in> {a..<b}. \<not> hasQuorum r (word_of_nat n))
       \<or> (\<exists>n \<in> {a..<b}. c = word_of_nat n \<and> hasQuorum r c
            \<and> (\<forall>m \<in> {n<..<b}. \<not> hasQuorum r (word_of_nat m)))"
    by blast
  obtain es' where f: "fold commitStep (map word_of_nat [a..<b]) (r, es) = (r\<lparr>commitIndex := c\<rparr>, es')"
    using c by (metis prod.collapse)
  show ?case
  proof (cases "a \<le> b")
    case False
    then show ?thesis using c alt by (intro exI [of _ c]) auto
  next
    case True
    have q: "hasQuorum (r\<lparr>commitIndex := c\<rparr>) i = hasQuorum r i" for i
      by (simp add: hasQuorum_def commitQuorum_def)
    have step: "fst (fold commitStep (map word_of_nat [a..<Suc b]) (r, es)) =
        (if hasQuorum r (word_of_nat b) then r\<lparr>commitIndex := word_of_nat b\<rparr> else r\<lparr>commitIndex := c\<rparr>)"
      using True f by (simp add: commitStep_fst q)
    show ?thesis
    proof (cases "hasQuorum r (word_of_nat b)")
      case True
      then show ?thesis
        using step \<open>a \<le> b\<close>
        by (intro exI [of _ "word_of_nat b"] conjI disjI2 bexI [of _ b]) auto
    next
      case False
      note none = False
      have now: "fst (fold commitStep (map word_of_nat [a..<Suc b]) (r, es)) = r\<lparr>commitIndex := c\<rparr>"
        using step none by simp
      from alt show ?thesis
      proof
        assume "c = commitIndex r \<and> (\<forall>n \<in> {a..<b}. \<not> hasQuorum r (word_of_nat n))"
        with now none show ?thesis
          by (intro exI [of _ c] conjI disjI1) (auto simp: less_Suc_eq simp del: upt_Suc)
      next
        assume "\<exists>n \<in> {a..<b}. c = word_of_nat n \<and> hasQuorum r c
            \<and> (\<forall>m \<in> {n<..<b}. \<not> hasQuorum r (word_of_nat m))"
        then obtain n where n: "n \<in> {a..<b}" and cn: "c = word_of_nat n" "hasQuorum r c"
          and no: "\<forall>m \<in> {n<..<b}. \<not> hasQuorum r (word_of_nat m)" by blast
        have "\<not> hasQuorum r (word_of_nat m)" if "m \<in> {n<..<Suc b}" for m
          using that no none by (cases "m = b") simp_all
        moreover have "n \<in> {a..<Suc b}" using n by simp
        ultimately show ?thesis using now cn by blast
      qed
    qed
  qed
qed

lemma updateCommitIndex_spec:
  assumes "logWf (raftLog r)" and "logSmall (raftLog r)"
    and "commitIndex r \<le> LastIndex (raftLog r)" and "updateCommitIndex r = (r', es)"
  shows "r' = r\<lparr>commitIndex := commitIndex r'\<rparr>
    \<and> commitIndex r \<le> commitIndex r' \<and> commitIndex r' \<le> LastIndex (raftLog r)
    \<and> (\<forall>i. commitIndex r < i \<longrightarrow> i \<le> LastIndex (raftLog r) \<longrightarrow>
          (hasQuorum r i \<longleftrightarrow> i \<le> commitIndex r'))"
proof -
  let ?last = "LastIndex (raftLog r)" and ?ci = "commitIndex r"
  have last: "unat ?last < 9223372036854775807"
    using assms(1,2) by (simp add: LastIndex_wf logSmall_def)
  have le: "unat ?ci \<le> unat ?last" using assms(3) by (simp add: word_le_nat_alt)
  have suc: "unat (?ci + 1) = Suc (unat ?ci)" using le last by (intro unat_plus_one) simp
  obtain c where c: "fst (updateCommitIndex r) = r\<lparr>commitIndex := c\<rparr>"
    and alt: "c = ?ci \<and> (\<forall>n \<in> {Suc (unat ?ci)..<Suc (unat ?last)}. \<not> hasQuorum r (word_of_nat n))
       \<or> (\<exists>n \<in> {Suc (unat ?ci)..<Suc (unat ?last)}. c = word_of_nat n \<and> hasQuorum r c
            \<and> (\<forall>m \<in> {n<..<Suc (unat ?last)}. \<not> hasQuorum r (word_of_nat m)))"
    using fold_commitStep [of "Suc (unat ?ci)" "Suc (unat ?last)" r "[]"]
    unfolding updateCommitIndex_def suc by blast
  have r': "r' = r\<lparr>commitIndex := c\<rparr>" using c assms(4) by simp
  show ?thesis
  proof (cases "c = ?ci")
    case True
    have "\<not> hasQuorum r i" if "?ci < i" "i \<le> ?last" for i
    proof -
      have "unat i \<in> {Suc (unat ?ci)..<Suc (unat ?last)}"
        using that by (simp add: word_less_nat_alt word_le_nat_alt)
      moreover have "\<forall>n \<in> {Suc (unat ?ci)..<Suc (unat ?last)}. \<not> hasQuorum r (word_of_nat n)"
        using alt
      proof
        assume "\<exists>n \<in> {Suc (unat ?ci)..<Suc (unat ?last)}. c = word_of_nat n \<and> hasQuorum r c
            \<and> (\<forall>m \<in> {n<..<Suc (unat ?last)}. \<not> hasQuorum r (word_of_nat m))"
        then obtain n where n: "Suc (unat ?ci) \<le> n" "n < Suc (unat ?last)" and cn: "c = word_of_nat n"
          by auto
        from n(2) last have "n < 18446744073709551616" by linarith
        then have "unat (word_of_nat n :: uint64) = n" by (rule unat64_of_nat)
        then have "unat c = n" by (simp only: cn)
        with n(1) True show ?thesis by simp
      qed simp
      ultimately show ?thesis by fastforce
    qed
    then show ?thesis using r' True assms(3) by auto
  next
    case False
    then obtain n where n: "Suc (unat ?ci) \<le> n" "n \<le> unat ?last" and cn: "c = word_of_nat n"
      and q: "hasQuorum r c"
      and no: "\<forall>m \<in> {n<..<Suc (unat ?last)}. \<not> hasQuorum r (word_of_nat m)"
      using alt by auto
    have un: "unat c = n" using n last by (simp add: cn)
    have "\<not> hasQuorum r i" if "i \<le> ?last" "\<not> i \<le> c" for i
    proof -
      have "unat i \<in> {n<..<Suc (unat ?last)}"
        using that by (simp add: word_le_nat_alt un)
      then show ?thesis using no by fastforce
    qed
    then show ?thesis
      using r' n un hasQuorum_mono [OF q] by (auto simp: word_le_nat_alt)
  qed
qed

text \<open>C21. The commit rule, as it is: on a well-formed log, updateCommitIndex moves the commit
  index forward (never back, never past the log) to the last index that a majority of the peers
  is known to hold, the leader counted, and changes nothing else; every index it passes over is
  held by a majority as well. The term of the entry at that index plays no part.\<close>

theorem update_commit_index:
  assumes "logWf (raftLog r)" and "logSmall (raftLog r)"
    and "commitIndex r \<le> LastIndex (raftLog r)" and "updateCommitIndex r = (r', es)"
  shows "r' = r\<lparr>commitIndex := commitIndex r'\<rparr>
    \<and> commitIndex r \<le> commitIndex r' \<and> commitIndex r' \<le> LastIndex (raftLog r)
    \<and> (\<forall>i. commitIndex r < i \<longrightarrow> i \<le> LastIndex (raftLog r) \<longrightarrow>
          (hasQuorum r i \<longleftrightarrow> i \<le> commitIndex r'))"
  using assms by (rule updateCommitIndex_spec)

lemma update_commit_index_witness:
  "commitIndex (fst (updateCommitIndex ((nodeWithLog 0 1 [entryAt 1 1 ''a''])
     \<lparr>peers := [(0, ''x''), (1, ''y''), (2, ''z'')], matchIndex := [1 \<mapsto> 1]\<rparr>))) = 1"
proof -
  let ?r = "(nodeWithLog 0 1 [entryAt 1 1 ''a''])
     \<lparr>peers := [(0, ''x''), (1, ''y''), (2, ''z'')], matchIndex := [1 \<mapsto> 1]\<rparr>"
  obtain r' es where u: "updateCommitIndex ?r = (r', es)" by fastforce
  have wf: "logWf (raftLog ?r)" "logSmall (raftLog ?r)" "commitIndex ?r \<le> LastIndex (raftLog ?r)"
    by (simp_all add: logWf_def logSmall_def numberedFrom_Cons)
  have last: "LastIndex (raftLog ?r) = 1" by (simp add: LastIndex_def)
  have "hasQuorum ?r 1"
    by (simp add: hasQuorum_def commitQuorum_def replicaCount_def mapRead_def nodeWithLog_def NewRaftNode_def)
  with update_commit_index [OF wf u] last have "1 \<le> commitIndex r'" "commitIndex r' \<le> 1"
    by auto
  then show ?thesis by (simp add: u)
qed

end
