(* ===== verification/Replication.thy ===== *)
theory Replication
  imports Raft_Proofs
begin

text \<open>
  Replication between a leader and one follower when the messages get through: one round is a
  heartbeat's AppendEntries (internal/raft/append_entries.go), the follower's handler and the
  leader's handling of the answer. Whatever the follower's log is, as long as the two logs match
  where their terms agree, at most \<open>nextIndex\<close> rounds make the leader's log a prefix of the
  follower's.
\<close>

section \<open>Logs that match\<close>

definition logsMatch :: "LogEntry list \<Rightarrow> LogEntry list \<Rightarrow> bool" where
  "logsMatch l g \<longleftrightarrow> (\<forall>k. k < length l \<longrightarrow> k < length g \<longrightarrow>
     entryTerm (l ! k) = entryTerm (g ! k) \<longrightarrow> take (Suc k) l = take (Suc k) g)"

lemma logsMatchD:
  "logsMatch l g \<Longrightarrow> k < length l \<Longrightarrow> k < length g \<Longrightarrow> entryTerm (l ! k) = entryTerm (g ! k) \<Longrightarrow>
    take (Suc k) l = take (Suc k) g"
  by (simp add: logsMatch_def)

text \<open>Merging a piece of \<open>g\<close> into a log that matches it keeps the log or yields the piece's end.\<close>

lemma merge_explained:
  assumes "logsMatch l g" and "p \<le> k" and "k \<le> length g" and "take p l = take p g"
  shows "mergeSpec p (drop p (take k g)) l \<in> {l, take k g}"
  using assms(2,4)
proof (induction "k - p" arbitrary: p)
  case 0
  then show ?case by simp
next
  case (Suc d)
  then have p: "p < k" by simp
  then have es: "drop p (take k g) = g ! p # drop (Suc p) (take k g)"
    using assms(3) Cons_nth_drop_Suc [of p "take k g"] by simp
  show ?case
  proof (cases "p < length l \<and> entryTerm (l ! p) = entryTerm (g ! p)")
    case True
    then have "take (Suc p) l = take (Suc p) g"
      using p assms(3) by (intro logsMatchD [OF assms(1)]) simp_all
    then have "mergeSpec (Suc p) (drop (Suc p) (take k g)) l \<in> {l, take k g}"
      using Suc.hyps(2) p by (intro Suc.hyps(1)) simp_all
    with True show ?thesis by (simp add: es)
  next
    case False
    then have "mergeSpec p (drop p (take k g)) l = take p l @ drop p (take k g)" by (auto simp: es)
    also have "\<dots> = take p (take k g) @ drop p (take k g)" using Suc.prems p by (simp add: min_def)
    finally show ?thesis by (simp only: append_take_drop_id insert_iff simp_thms)
  qed
qed

lemma prevAgrees_prefix:
  assumes "logsMatch l g" and "prevAgrees p t l" and "p \<le> length g"
    and "0 < p \<longrightarrow> t = entryTerm (g ! (p - 1))"
  shows "take p l = take p g"
proof (cases p)
  case (Suc m)
  with assms(2-4) show ?thesis
    by (auto simp: prevAgrees_def intro: logsMatchD [OF assms(1)])
qed simp

text \<open>A log that ends like \<open>g\<close> does at the end of \<open>g\<close> has \<open>g\<close> as a prefix.\<close>

lemma merge_whole:
  assumes "logsMatch l g" and "p \<le> length l" and "p \<le> length g" and "take p l = take p g"
  shows "take (length g) (mergeSpec p (drop p g) l) = g"
proof -
  let ?m = "mergeSpec p (drop p g) l"
  have "?m = l \<or> ?m = g"
    using merge_explained [OF assms(1,3) order_refl assms(4)] by simp
  then show ?thesis
  proof
    assume l: "?m = l"
    show ?thesis
    proof (cases "p = length g")
      case True
      with l assms(4) show ?thesis by simp
    next
      case False
      then have p: "p < length g" using assms(3) by simp
      let ?k = "length g - 1"
      have "length g \<le> length l"
        using mergeSpec_length [OF assms(2), of "drop p g"] l p by simp
      moreover have "entryTerm (l ! ?k) = entryTerm (g ! ?k)"
        using mergeSpec_terms [OF assms(2), of "?k - p" "drop p g"] l p by simp
      ultimately have "take (Suc ?k) l = take (Suc ?k) g"
        using p by (intro logsMatchD [OF assms(1)]) simp_all
      moreover have "Suc ?k = length g" using p by simp
      ultimately show ?thesis using l by simp
    qed
  qed simp
qed

section \<open>The leader's messages\<close>

definition nextInLog :: "RaftNode \<Rightarrow> int \<Rightarrow> bool" where
  "nextInLog r p \<longleftrightarrow> 1 \<le> unat (mapRead (nextIndex r) p)
     \<and> unat (mapRead (nextIndex r) p) \<le> Suc (length (Entries (raftLog r)))"

lemma mapRead_upd [simp]: "mapRead (m(p \<mapsto> v)) q = (if q = p then v else mapRead m q)"
  by (simp add: mapRead_def)

lemma heartbeatArgs_fields:
  assumes "nextInLog r p" and "logSmall (raftLog r)"
  defines "n \<equiv> unat (mapRead (nextIndex r) p) - 1" and "l \<equiv> Entries (raftLog r)"
  shows "aeTerm (heartbeatArgs r p) = currentTerm r"
    and "unat (aePrevLogIndex (heartbeatArgs r p)) = n"
    and "aeEntries (heartbeatArgs r p) = drop n l"
    and "0 < n \<longrightarrow> aePrevLogTerm (heartbeatArgs r p) = entryTerm (l ! (n - 1))"
    and "n \<le> length l"
proof -
  let ?next = "mapRead (nextIndex r) p"
  have b: "1 \<le> unat ?next" "unat ?next \<le> Suc (length (Entries (raftLog r)))"
    using assms(1) by (simp_all add: nextInLog_def)
  have gt: "1 < ?next \<longleftrightarrow> 0 < n" using b by (auto simp: word_less_nat_alt n_def)
  have pr: "unat (?next - 1) = n" unfolding n_def by (rule unat_minus_one) (use b(1) in auto)
  show le: "n \<le> length l" using b by (simp add: n_def l_def)
  show "aeTerm (heartbeatArgs r p) = currentTerm r" by (simp add: heartbeatArgs_def Let_def)
  show "unat (aePrevLogIndex (heartbeatArgs r p)) = n"
    using gt pr by (simp add: heartbeatArgs_def Let_def)
  show "aeEntries (heartbeatArgs r p) = drop n l"
    using b(1) by (simp add: heartbeatArgs_def Let_def EntriesFrom_small [OF assms(2)] n_def l_def)
  show "0 < n \<longrightarrow> aePrevLogTerm (heartbeatArgs r p) = entryTerm (l ! (n - 1))"
    using gt pr le by (auto simp: heartbeatArgs_def Let_def logGet_small [OF assms(2)] l_def)
qed

lemma heartbeatArgs_wf:
  assumes "nextInLog r p" and "logSmall (raftLog r)" and "logWf (raftLog r)"
  shows "argsWf (heartbeatArgs r p)"
proof -
  note f = heartbeatArgs_fields [OF assms(1,2)]
  show ?thesis
    using assms(2,3) f(5) numberedFrom_drop [of 0 "Entries (raftLog r)"]
    by (simp add: argsWf_def f(2,3) logWf_def logSmall_def)
qed

lemma AppendEntries_stopClosed [simp]: "stopClosed (fst (AppendEntries args r)) = stopClosed r"
proof -
  have "stopClosed (fst (applyCommitted x)) = stopClosed x" for x by (subst applyCommitted_only) simp
  then show ?thesis
    by (cases rule: AppendEntries_cases [of args r])
       (simp_all add: installed_def adoptLeader_def advanceCommit_def)
qed

section \<open>One round\<close>

definition syncRound :: "int \<Rightarrow> RaftNode \<times> RaftNode \<Rightarrow> RaftNode \<times> RaftNode" where
  "syncRound p LF =
    (case LF of (L, F) \<Rightarrow>
      let args = heartbeatArgs L p
      in case AppendEntries args F of (F', es, reply) \<Rightarrow>
        case appendReply args p (Inr reply) L of (L', es') \<Rightarrow> (L', F'))"

text \<open>The situation: a leader, a follower of no newer term, and logs that match.\<close>

definition syncReady :: "int \<Rightarrow> RaftNode \<Rightarrow> RaftNode \<Rightarrow> bool" where
  "syncReady p L F \<longleftrightarrow> state L = Leader \<and> currentTerm F \<le> currentTerm L
     \<and> logWf (raftLog L) \<and> logSmall (raftLog L) \<and> logWf (raftLog F) \<and> logSmall (raftLog F)
     \<and> nextInLog L p \<and> logsMatch (Entries (raftLog F)) (Entries (raftLog L))"

definition synced :: "int \<Rightarrow> RaftNode \<Rightarrow> RaftNode \<Rightarrow> bool" where
  "synced p L F \<longleftrightarrow> take (length (Entries (raftLog L))) (Entries (raftLog F)) = Entries (raftLog L)
     \<and> mapRead (matchIndex L) p = LastIndex (raftLog L)"

lemma updateCommitIndex_only:
  "fst (updateCommitIndex r) = r\<lparr>commitIndex := commitIndex (fst (updateCommitIndex r))\<rparr>"
proof -
  obtain c where "fst (updateCommitIndex r) = r\<lparr>commitIndex := c\<rparr>"
    using fold_commitStep [of _ _ r "[]"] unfolding updateCommitIndex_def by blast
  then show ?thesis by simp
qed

lemma updateCommitIndex_frame [simp]:
  "nodeId (fst (updateCommitIndex r)) = nodeId r" "state (fst (updateCommitIndex r)) = state r"
  "currentTerm (fst (updateCommitIndex r)) = currentTerm r"
  "votedFor (fst (updateCommitIndex r)) = votedFor r"
  "raftLog (fst (updateCommitIndex r)) = raftLog r" "peers (fst (updateCommitIndex r)) = peers r"
  "nextIndex (fst (updateCommitIndex r)) = nextIndex r"
  "matchIndex (fst (updateCommitIndex r)) = matchIndex r"
  by (subst updateCommitIndex_only, simp)+

text \<open>Where the commit index can go: up, within the log, to an index that a majority holds.\<close>

lemma updateCommitIndex_bounds:
  assumes "logWf (raftLog r)" and "logSmall (raftLog r)" and "unat (commitIndex r) \<le> length (Entries (raftLog r))"
  shows "commitIndex r \<le> commitIndex (fst (updateCommitIndex r))"
    and "unat (commitIndex (fst (updateCommitIndex r))) \<le> length (Entries (raftLog r))"
    and "commitIndex (fst (updateCommitIndex r)) \<noteq> commitIndex r \<Longrightarrow> hasQuorum r (commitIndex (fst (updateCommitIndex r)))"
proof -
  have last: "unat (LastIndex (raftLog r)) = length (Entries (raftLog r))"
    using assms(2) by (simp add: LastIndex_wf [OF assms(1)] logSmall_def)
  then have "commitIndex r \<le> LastIndex (raftLog r)" using assms(3) by (simp add: word_le_nat_alt)
  from updateCommitIndex_spec [OF assms(1,2) this prod.collapse [symmetric], THEN conjunct2]
  have spec: "commitIndex r \<le> commitIndex (fst (updateCommitIndex r))"
    "commitIndex (fst (updateCommitIndex r)) \<le> LastIndex (raftLog r)"
    "\<And>i. commitIndex r < i \<Longrightarrow> i \<le> LastIndex (raftLog r) \<Longrightarrow> hasQuorum r i = (i \<le> commitIndex (fst (updateCommitIndex r)))"
    by blast+
  show "commitIndex r \<le> commitIndex (fst (updateCommitIndex r))" by (rule spec(1))
  show "unat (commitIndex (fst (updateCommitIndex r))) \<le> length (Entries (raftLog r))"
    using spec(2) last by (simp add: word_le_nat_alt)
  show "hasQuorum r (commitIndex (fst (updateCommitIndex r)))"
    if "commitIndex (fst (updateCommitIndex r)) \<noteq> commitIndex r"
    using spec that by (simp add: order_less_le)
qed

lemma syncRound_miss:
  assumes "syncReady p L F" and "\<not> prevMatches (heartbeatArgs L p) F"
  shows "\<exists>L' F'. syncRound p (L, F) = (L', F') \<and> syncReady p L' F' \<and> raftLog L' = raftLog L
    \<and> unat (mapRead (nextIndex L') p) < unat (mapRead (nextIndex L) p)"
proof -
  let ?args = "heartbeatArgs L p" and ?next = "mapRead (nextIndex L) p"
  have t: "aeTerm ?args = currentTerm L" by (simp add: heartbeatArgs_def Let_def)
  obtain es where ae: "AppendEntries ?args F =
      (adoptLeader ?args F, es, \<lparr>aerTerm = currentTerm L, aerSuccess = False\<rparr>)"
    using assms by (cases rule: AppendEntries_cases [of ?args F]) (auto simp: t syncReady_def)
  have gt: "1 < ?next"
  proof (rule ccontr)
    assume "\<not> 1 < ?next"
    then have "aePrevLogIndex ?args = 0" by (simp add: heartbeatArgs_def Let_def)
    then show False using assms(2) by (simp add: prevMatches_def)
  qed
  let ?L = "L\<lparr>nextIndex := (nextIndex L)(p \<mapsto> ?next - 1)\<rparr>"
  have "appendReply ?args p (Inr \<lparr>aerTerm = currentTerm L, aerSuccess = False\<rparr>) L = (?L, [])"
    using assms(1) gt t by (simp add: appendReply_def syncReady_def)
  then have r: "syncRound p (L, F) = (?L, adoptLeader ?args F)"
    by (simp add: syncRound_def ae)
  have u: "unat (?next - 1) = unat ?next - 1" by (rule unat_minus_one) (use gt in auto)
  have "1 < unat ?next" using gt by (simp add: word_less_nat_alt)
  with assms(1) have "syncReady p ?L (adoptLeader ?args F)"
    by (auto simp: syncReady_def nextInLog_def u adoptLeader_def t)
  with r u \<open>1 < unat ?next\<close> show ?thesis by simp
qed

text \<open>A message that the follower accepts leaves the leader's log at the front of its own.\<close>

lemma accepted_log:
  assumes "syncReady p L F" and "prevMatches (heartbeatArgs L p) F"
  shows "\<exists>es. AppendEntries (heartbeatArgs L p) F = (fst (applyCommitted (installed (heartbeatArgs L p) F)), es,
      \<lparr>aerTerm = currentTerm L, aerSuccess = True\<rparr>)"
    and "take (length (Entries (raftLog L))) (Entries (raftLog (installed (heartbeatArgs L p) F))) = Entries (raftLog L)"
    and "logWf (raftLog (installed (heartbeatArgs L p) F))" and "logSmall (raftLog (installed (heartbeatArgs L p) F))"
proof -
  let ?args = "heartbeatArgs L p" and ?n = "unat (mapRead (nextIndex L) p) - 1"
  let ?l = "Entries (raftLog L)" and ?f = "Entries (raftLog F)"
  have ready: "nextInLog L p" "logSmall (raftLog L)" "logWf (raftLog L)" "logWf (raftLog F)"
    "logSmall (raftLog F)" "logsMatch ?f ?l" "state L = Leader" "currentTerm F \<le> currentTerm L"
    using assms(1) by (simp_all add: syncReady_def)
  note f = heartbeatArgs_fields [OF ready(1,2)]
  note wf = heartbeatArgs_wf [OF ready(1,2,3)]
  have "currentTerm F \<le> aeTerm ?args" using ready(8) f(1) by simp
  from AppendEntries_accept [OF this assms(2)] f(1)
  show "\<exists>es. AppendEntries ?args F = (fst (applyCommitted (installed ?args F)), es,
      \<lparr>aerTerm = currentTerm L, aerSuccess = True\<rparr>)" by metis
  note log = installed_log [OF ready(4,5) wf assms(2)]
  then show "logWf (raftLog (installed ?args F))" "logSmall (raftLog (installed ?args F))" by simp_all
  have pa: "prevAgrees ?n (aePrevLogTerm ?args) ?f"
    using assms(2) prevMatches_iff [OF ready(4,5), of ?args] wf by (simp add: argsWf_def f(2))
  have "take ?n ?f = take ?n ?l"
    by (rule prevAgrees_prefix [OF ready(6) pa f(5,4)])
  moreover have "?n \<le> length ?f" using pa by (auto simp: prevAgrees_def)
  ultimately have "take (length ?l) (mergeSpec ?n (drop ?n ?l) ?f) = ?l"
    by (intro merge_whole [OF ready(6) _ f(5)])
  with log show "take (length ?l) (Entries (raftLog (installed ?args F))) = ?l" by (simp add: f(2,3))
qed

lemma logsMatch_prefix: "take (length g) l = g \<Longrightarrow> logsMatch l g"
  unfolding logsMatch_def by (metis Suc_leI min.absorb1 take_take)

lemma syncRound_hit:
  assumes "syncReady p L F" and "prevMatches (heartbeatArgs L p) F"
  shows "\<exists>L' F'. syncRound p (L, F) = (L', F') \<and> synced p L' F' \<and> raftLog L' = raftLog L \<and> state L' = Leader
    \<and> syncReady p L' F'"
proof -
  let ?args = "heartbeatArgs L p" and ?n = "unat (mapRead (nextIndex L) p) - 1" and ?l = "Entries (raftLog L)"
  have ready: "nextInLog L p" "logSmall (raftLog L)" "logWf (raftLog L)" "state L = Leader"
    using assms(1) by (simp_all add: syncReady_def)
  note f = heartbeatArgs_fields [OF ready(1,2)]
  note acc = accepted_log [OF assms]
  obtain es where ae: "AppendEntries ?args F =
      (fst (applyCommitted (installed ?args F)), es, \<lparr>aerTerm = currentTerm L, aerSuccess = True\<rparr>)"
    using acc(1) by blast
  let ?m = "aePrevLogIndex ?args + word_of_nat (length (aeEntries ?args))"
  let ?L = "L\<lparr>matchIndex := (matchIndex L)(p \<mapsto> ?m), nextIndex := (nextIndex L)(p \<mapsto> ?m + 1)\<rparr>"
  have "fst (appendReply ?args p (Inr \<lparr>aerTerm = currentTerm L, aerSuccess = True\<rparr>) L)
      = fst (applyCommitted (fst (updateCommitIndex ?L)))"
    using ready(4) f(1) by (simp add: appendReply_def Let_def split: prod.splits)
  then have r: "syncRound p (L, F) =
      (fst (applyCommitted (fst (updateCommitIndex ?L))), fst (applyCommitted (installed ?args F)))"
    by (simp add: syncRound_def ae Let_def case_prod_unfold)
  have "?m = word_of_nat (unat (aePrevLogIndex ?args)) + word_of_nat (length (aeEntries ?args))" by simp
  also have "\<dots> = word_of_nat (?n + length (drop ?n ?l))" by (simp only: of_nat_add f(2,3))
  also have "?n + length (drop ?n ?l) = length ?l" using f(5) by simp
  finally have m: "?m = word_of_nat (length ?l)" .
  have "unat (?m + 1) = Suc (length ?l)" using ready(2) by (simp add: m logSmall_def unat_plus_one)
  then have "nextInLog (fst (applyCommitted (fst (updateCommitIndex ?L)))) p" by (simp add: nextInLog_def)
  moreover have "currentTerm (installed ?args F) = currentTerm L" by (simp add: installed_def adoptLeader_def f(1))
  ultimately show ?thesis
    using r acc(2-4) m ready by (simp add: synced_def syncReady_def LastIndex_wf logsMatch_prefix)
qed

text \<open>Replication converges: a leader that exchanges AppendEntries messages with a follower
  of no newer term, whose log matches its own where terms agree, has after at most \<open>nextIndex\<close>
  rounds its whole log as a prefix of the follower's and \<open>matchIndex\<close> at its last entry; its
  own log is unchanged and it still leads.\<close>

lemma replication_converges:
  assumes "syncReady p L F"
  shows "\<exists>k \<le> unat (mapRead (nextIndex L) p). \<exists>L' F'. (syncRound p ^^ k) (L, F) = (L', F')
    \<and> synced p L' F' \<and> raftLog L' = raftLog L \<and> state L' = Leader"
  using assms
proof (induction "unat (mapRead (nextIndex L) p)" arbitrary: L F rule: less_induct)
  case less
  show ?case
  proof (cases "prevMatches (heartbeatArgs L p) F")
    case True
    have "1 \<le> unat (mapRead (nextIndex L) p)" using less.prems by (simp add: syncReady_def nextInLog_def)
    with syncRound_hit [OF less.prems True] show ?thesis by (intro exI [of _ 1]) auto
  next
    case False
    from syncRound_miss [OF less.prems False] obtain L1 F1 where
      r: "syncRound p (L, F) = (L1, F1)" "syncReady p L1 F1" "raftLog L1 = raftLog L"
        "unat (mapRead (nextIndex L1) p) < unat (mapRead (nextIndex L) p)" by blast
    from less.hyps [OF r(4,2)] obtain k L' F' where "k \<le> unat (mapRead (nextIndex L1) p)"
      "(syncRound p ^^ k) (L1, F1) = (L', F')" "synced p L' F'" "raftLog L' = raftLog L1" "state L' = Leader"
      by blast
    with r show ?thesis
      by (intro exI [of _ "Suc k"] conjI exI [of _ L'] exI [of _ F']) (simp_all add: funpow_swap1)
  qed
qed

lemma replication_converges_witness:
  "\<exists>k \<le> 3. \<exists>L' F'. (syncRound 2 ^^ k)
      ((nodeWithLog 0 3 [entryAt 1 1 ''a'', entryAt 2 3 ''b''])\<lparr>state := Leader, nextIndex := [2 \<mapsto> 3]\<rparr>,
       nodeWithLog 2 2 [entryAt 1 1 ''a'', entryAt 2 2 ''c'', entryAt 3 2 ''d'']) = (L', F')
    \<and> take 2 (Entries (raftLog F')) = [entryAt 1 1 ''a'', entryAt 2 3 ''b'']"
proof -
  let ?L = "(nodeWithLog 0 3 [entryAt 1 1 ''a'', entryAt 2 3 ''b''])\<lparr>state := Leader, nextIndex := [2 \<mapsto> 3]\<rparr>"
  let ?F = "nodeWithLog 2 2 [entryAt 1 1 ''a'', entryAt 2 2 ''c'', entryAt 3 2 ''d'']"
  have "logsMatch (Entries (raftLog ?F)) (Entries (raftLog ?L))"
    by (simp add: logsMatch_def All_less_Suc numeral_eq_Suc)
  then have "syncReady 2 ?L ?F"
    by (simp add: syncReady_def nextInLog_def mapRead_def logWf_def logSmall_def numberedFrom_Cons)
  from replication_converges [OF this] obtain k L' F' where
    k: "k \<le> unat (mapRead (nextIndex ?L) 2)" "(syncRound 2 ^^ k) (?L, ?F) = (L', F')"
      "synced 2 L' F'" "raftLog L' = raftLog ?L" by blast
  from k(1) have "k \<le> 3" by (simp add: mapRead_def)
  moreover from k(3,4) have "take 2 (Entries (raftLog F')) = [entryAt 1 1 ''a'', entryAt 2 3 ''b'']"
    by (simp add: synced_def numeral_2_eq_2)
  ultimately show ?thesis using k(2) by blast
qed

end
