(* ===== verification/State_Machine.thy ===== *)
theory State_Machine
  imports Prelude
begin

text \<open>
  The interface between Raft and what it replicates, \<open>applyFunc\<close> in node.go: a state machine that,
  while it is ready, applies a command that fits and then shows what the specification says. The
  lemmas are what any two replicas of such a machine get; \<open>Kv_Node\<close> interprets the locale on the
  store.
\<close>

locale replicated_machine =
  fixes apply_one :: "'c \<Rightarrow> 's \<Rightarrow> 's option"
    and ready :: "'s \<Rightarrow> bool"
    and fits :: "'c \<Rightarrow> bool"
    and abs_state :: "'s \<Rightarrow> 'a"
    and spec :: "'c \<Rightarrow> 'a \<Rightarrow> 'a"
  assumes apply_ready: "ready s \<Longrightarrow> fits c \<Longrightarrow>
    \<exists>s'. apply_one c s = Some s' \<and> ready s' \<and> abs_state s' = spec c (abs_state s)"
begin

fun apply_all :: "'c list \<Rightarrow> 's \<Rightarrow> 's option" where
  "apply_all [] s = Some s"
| "apply_all (c # cs) s = (case apply_one c s of None \<Rightarrow> None | Some s' \<Rightarrow> apply_all cs s')"

lemma apply_all_ready:
  "ready s \<Longrightarrow> \<forall>c \<in> set cs. fits c \<Longrightarrow>
    \<exists>s'. apply_all cs s = Some s' \<and> ready s' \<and> abs_state s' = fold spec cs (abs_state s)"
proof (induction cs arbitrary: s)
  case Nil
  then show ?case by simp
next
  case (Cons c cs)
  obtain s1 where s1: "apply_one c s = Some s1" "ready s1" "abs_state s1 = spec c (abs_state s)"
    using apply_ready [of s c] Cons.prems by auto
  obtain s' where "apply_all cs s1 = Some s'" "ready s'" "abs_state s' = fold spec cs (abs_state s1)"
    using Cons.IH [OF s1(2)] Cons.prems by auto
  with s1 show ?case by simp
qed

text \<open>Two replicas, one of which has applied further.\<close>

lemma replica_ahead:
  assumes "ready s0" and "ready t0" and "abs_state s0 = abs_state t0" and "\<forall>c \<in> set (cs @ more). fits c"
  shows "\<exists>s t. apply_all cs s0 = Some s \<and> apply_all (cs @ more) t0 = Some t \<and> abs_state t = fold spec more (abs_state s)"
  using apply_all_ready [OF assms(1), of cs] apply_all_ready [OF assms(2), of "cs @ more"] assms(3,4) by auto

end

end
