(* ===== verification/Kv_Node.thy ===== *)
theory Kv_Node
  imports Store_Proofs Replication State_Machine
begin

text \<open>
  The KV node (internal/raft/kv_node.go): a Raft node and a store, tied together by the
  \<open>applyFunc\<close> that NewKVNode installs. A handler's calls of \<open>applyFunc\<close> run on the store, in
  order, under the node's mutex. The theorems put the replication and the storage side
  together: the store is always the fold of the applied prefix of the log, and two replicas
  with matching logs that have applied as far hold the same map.
\<close>

record KVNode =
  kvRaft :: RaftNode
  kvStore :: Store

section \<open>The applied commands\<close>

text \<open>The closure of NewKVNode; errors of the store are ignored there, and other command types
  too. \<open>None\<close> when the store's Append does not return.\<close>

definition applyCommand :: "Command \<Rightarrow> Store \<Rightarrow> Store option" where
  "applyCommand cmd s =
    (if cmdType cmd = CommandSet then map_option snd (ApplyPut (cmdKey cmd) (cmdValue cmd) s)
     else if cmdType cmd = CommandDelete then map_option snd (ApplyDelete (cmdKey cmd) s)
     else Some s)"

fun runApply :: "Effect list \<Rightarrow> Store \<Rightarrow> Store option" where
  "runApply [] s = Some s"
| "runApply (CallApply ApplyToStore cmd # es) s =
    (case applyCommand cmd s of None \<Rightarrow> None | Some s' \<Rightarrow> runApply es s')"
| "runApply (_ # es) s = runApply es s"

definition NewKVNode :: "RaftNode \<Rightarrow> Store \<Rightarrow> KVNode" where
  "NewKVNode r s = \<lparr>kvRaft = SetApplyFunc (Some ApplyToStore) r, kvStore = s\<rparr>"

section \<open>The client's operations\<close>

text \<open>Set and Delete call Start and then, in a second critical section, LeaderID; \<open>later\<close> is what
  other goroutines do to the Raft node in between.\<close>

definition kvSubmit ::
  "Command \<Rightarrow> (RaftNode \<Rightarrow> RaftNode) \<Rightarrow> KVNode \<Rightarrow> KVNode \<times> Effect list \<times> (bool \<times> int \<times> uint64)" where
  "kvSubmit cmd later n =
    (case Start cmd (kvRaft n) of (r, es, index, _, ok) \<Rightarrow>
      let r1 = later r
      in if \<not> ok then (n\<lparr>kvRaft := r1\<rparr>, es, (False, LeaderID r1, 0))
         else (n\<lparr>kvRaft := r1\<rparr>, es, (True, LeaderID r1, index)))"

definition kvSet ::
  "gostring \<Rightarrow> gostring \<Rightarrow> (RaftNode \<Rightarrow> RaftNode) \<Rightarrow> KVNode \<Rightarrow> KVNode \<times> Effect list \<times> (bool \<times> int \<times> uint64)" where
  "kvSet key val later n = kvSubmit \<lparr>cmdType = CommandSet, cmdKey = key, cmdValue = val\<rparr> later n"

definition kvGet :: "gostring \<Rightarrow> KVNode \<Rightarrow> gostring \<times> bool" where
  "kvGet key n = storeGet key (kvStore n)"

definition kvDelete ::
  "gostring \<Rightarrow> (RaftNode \<Rightarrow> RaftNode) \<Rightarrow> KVNode \<Rightarrow> KVNode \<times> Effect list \<times> (bool \<times> int \<times> uint64)" where
  "kvDelete key later n = kvSubmit \<lparr>cmdType = CommandDelete, cmdKey = key, cmdValue = []\<rparr> later n"

text \<open>A Raft handler at a KV node: the calls of \<open>applyFunc\<close> happen before the mutex is released.\<close>

definition kvHandle :: "(RaftNode \<Rightarrow> RaftNode \<times> Effect list) \<Rightarrow> KVNode \<Rightarrow> KVNode option" where
  "kvHandle h n =
    (case h (kvRaft n) of (r, es) \<Rightarrow>
      map_option (\<lambda>s. \<lparr>kvRaft = r, kvStore = s\<rparr>) (runApply es (kvStore n)))"

definition kvAppendEntries :: "AppendEntriesArgs \<Rightarrow> KVNode \<Rightarrow> KVNode option" where
  "kvAppendEntries args =
    kvHandle (\<lambda>r. case AppendEntries args r of (r', es, reply) \<Rightarrow> (r', es))"

definition kvAppendReply :: "AppendEntriesArgs \<Rightarrow> int \<Rightarrow> error + AppendEntriesReply \<Rightarrow> KVNode \<Rightarrow> KVNode option" where
  "kvAppendReply args p result = kvHandle (appendReply args p result)"

section \<open>What a command does to the map\<close>

definition specCommand :: "Command \<Rightarrow> (gostring \<rightharpoonup> gostring) \<Rightarrow> (gostring \<rightharpoonup> gostring)" where
  "specCommand cmd d =
    (if cmdType cmd = CommandSet then d(cmdKey cmd \<mapsto> cmdValue cmd)
     else if cmdType cmd = CommandDelete then d(cmdKey cmd := None)
     else d)"

definition commandFits :: "Command \<Rightarrow> bool" where
  "commandFits cmd \<longleftrightarrow> 13 + length (cmdKey cmd) + length (cmdValue cmd) < 2 ^ 32"

lemma ApplyDelete_ready:
  assumes "storeReady s" and "setFits k []"
  shows "\<exists>s'. ApplyDelete k s = Some (None, s') \<and> storeReady s' \<and> data s' = (data s)(k := None)"
proof -
  have "recordFits \<lparr>Op = OpDelete, Key = bytesOf k, Value = []\<rparr>"
    using assms(2) by (simp add: recordFits_def setFits_def)
  from store_write_ready [OF assms(1) this] show ?thesis by (force simp: ApplyDelete_def)
qed

lemma applyCommand_ready:
  assumes "storeReady s" and "commandFits cmd"
  shows "\<exists>s'. applyCommand cmd s = Some s' \<and> storeReady s' \<and> data s' = specCommand cmd (data s)"
proof -
  have fits: "setFits (cmdKey cmd) (cmdValue cmd)" "setFits (cmdKey cmd) []"
    using assms(2) by (simp_all add: commandFits_def setFits_def)
  consider "cmdType cmd = CommandSet" | "cmdType cmd \<noteq> CommandSet" "cmdType cmd = CommandDelete"
    | "cmdType cmd \<noteq> CommandSet" "cmdType cmd \<noteq> CommandDelete" by blast
  then show ?thesis
  proof cases
    case 1
    with storeSet_ready [OF assms(1) fits(1)] show ?thesis
      by (auto simp: applyCommand_def specCommand_def ApplyPut_eq)
  next
    case 2
    with ApplyDelete_ready [OF assms(1) fits(2)] show ?thesis
      by (auto simp: applyCommand_def specCommand_def)
  next
    case 3
    with assms(1) show ?thesis by (simp add: applyCommand_def specCommand_def)
  qed
qed

interpretation kv: replicated_machine applyCommand storeReady commandFits data specCommand
  by unfold_locales (rule applyCommand_ready)

text \<open>Running a handler's effects is running its commands, in order.\<close>

lemma runApply_eq: "runApply es s = kv.apply_all (callsOf es) s"
  by (induction es s rule: runApply.induct) (simp_all split: option.split)

lemmas runApply_ready = kv.apply_all_ready [of _ "callsOf es" for es, folded runApply_eq]

section \<open>Replicas\<close>

text \<open>A KV node at rest: everything committed is applied, and the store holds what the applied
  prefix of the log makes of the map \<open>d0\<close> it started with.\<close>

definition kvConsistent :: "(gostring \<rightharpoonup> gostring) \<Rightarrow> KVNode \<Rightarrow> bool" where
  "kvConsistent d0 n \<longleftrightarrow>
    storeReady (kvStore n) \<and> applyFunc (kvRaft n) = Some ApplyToStore
    \<and> logWf (raftLog (kvRaft n)) \<and> logSmall (raftLog (kvRaft n))
    \<and> (\<forall>e \<in> set (Entries (raftLog (kvRaft n))). commandFits (entryCommand e))
    \<and> lastApplied (kvRaft n) = commitIndex (kvRaft n)
    \<and> unat (commitIndex (kvRaft n)) \<le> length (Entries (raftLog (kvRaft n)))
    \<and> data (kvStore n) = fold specCommand
        (map entryCommand (take (unat (lastApplied (kvRaft n))) (Entries (raftLog (kvRaft n))))) d0"

text \<open>Applying the entries up to a later commit index.\<close>

lemma kv_apply:
  assumes "storeReady s" and "applyFunc r = Some ApplyToStore" and "logSmall (raftLog r)"
    and "\<forall>e \<in> set (Entries (raftLog r)). commandFits (entryCommand e)" and "logWf (raftLog r)"
    and "lastApplied r \<le> commitIndex r" and "unat (commitIndex r) \<le> length (Entries (raftLog r))"
    and "data s = fold specCommand (map entryCommand (take (unat (lastApplied r)) (Entries (raftLog r)))) d0"
    and "callsOf es = callsOf (snd (applyCommitted r))"
  shows "\<exists>s'. runApply es s = Some s' \<and> kvConsistent d0 \<lparr>kvRaft = fst (applyCommitted r), kvStore = s'\<rparr>
    \<and> lastApplied (fst (applyCommitted r)) = commitIndex r"
proof -
  let ?l = "Entries (raftLog r)" and ?a = "unat (lastApplied r)" and ?c = "unat (commitIndex r)"
  have range: "callsOf (snd (applyCommitted r)) = map entryCommand (take (?c - ?a) (drop ?a ?l))"
    "fst (applyCommitted r) = r\<lparr>lastApplied := commitIndex r\<rparr>"
    using applyCommitted_range [OF assms(3,7,6)] assms(2) by simp_all
  have "\<forall>cmd \<in> set (callsOf es). commandFits cmd"
    using assms(4) by (auto simp: assms(9) range(1) dest!: in_set_takeD in_set_dropD)
  from runApply_ready [OF assms(1) this] obtain s' where
    s': "runApply es s = Some s'" "storeReady s'" "data s' = fold specCommand (callsOf es) (data s)" by blast
  have "?a \<le> ?c" using assms(6) by (simp add: word_le_nat_alt)
  then have "take ?c ?l = take ?a ?l @ take (?c - ?a) (drop ?a ?l)"
    by (metis le_add_diff_inverse take_add)
  then have "data s' = fold specCommand (map entryCommand (take ?c ?l)) d0"
    by (simp add: s'(3) assms(8,9) range(1))
  with s'(1,2) assms(2-5,7) show ?thesis by (simp add: kvConsistent_def range(2))
qed

lemma callsOf_AppendEntries:
  assumes "AppendEntries args r = (r', es, reply)"
  shows "(r' = r \<and> callsOf es = []) \<or> (r' = adoptLeader args r \<and> callsOf es = [])
    \<or> (currentTerm r \<le> aeTerm args \<and> prevMatches args r
        \<and> r' = fst (applyCommitted (installed args r))
        \<and> callsOf es = callsOf (snd (applyCommitted (installed args r))))"
proof (cases "aeTerm args < currentTerm r")
  case True
  with assms show ?thesis by (simp add: AppendEntries_def)
next
  case False
  define r3 where "r3 = resetElectionTimer
    ((if aeTerm args > currentTerm r then r\<lparr>currentTerm := aeTerm args, votedFor := -1\<rparr> else r)
      \<lparr>state := Follower, leaderID := aeLeaderID args\<rparr>)"
  have r3: "r3 = adoptLeader args r"
    using False by (cases r) (auto simp: r3_def adoptLeader_def resetElectionTimer_def)
  have pm: "prevMatches args r3 = prevMatches args r" and log: "raftLog r3 = raftLog r"
    by (simp_all add: prevMatches_def r3 adoptLeader_def)
  show ?thesis
    using False assms pm
    unfolding AppendEntries_def Let_def r3_def [symmetric] installed_def r3 [symmetric] log [symmetric]
    by (auto split: if_splits prod.splits)
qed

lemma advanceCommit_bounds:
  assumes "logWf (raftLog r)" and "logSmall (raftLog r)"
    and "unat (commitIndex r) \<le> length (Entries (raftLog r))"
  shows "commitIndex r \<le> commitIndex (advanceCommit lc r)
    \<and> unat (commitIndex (advanceCommit lc r)) \<le> length (Entries (raftLog r))"
proof (cases "commitIndex r <s lc")
  case True
  have small: "unat (commitIndex r) < 9223372036854775808"
    using assms(2,3) by (simp add: logSmall_def)
  then have "sint (commitIndex r) = uint (commitIndex r)" by (rule sint_small)
  then have "uint (commitIndex r) < sint lc" using True by (simp add: word_sless_alt)
  then have "0 \<le> sint lc" by (meson le_less_trans less_imp_le uint_ge_0)
  then have "sint lc = uint lc"
    using sint_lt [of lc] by (simp add: uint_sint take_bit_int_eq_self)
  then have "commitIndex r \<le> lc"
    using \<open>uint (commitIndex r) < sint lc\<close> by (simp add: word_le_def)
  then show ?thesis
    using True assms by (auto simp: advanceCommit_def LastIndex_wf word_le_nat_alt word_less_nat_alt logSmall_def)
next
  case False
  then show ?thesis using assms(3) by (simp add: advanceCommit_def)
qed

lemma set_mergeSpec: "set (mergeSpec p es l) \<subseteq> set l \<union> set es"
proof (induction p es l rule: mergeSpec.induct)
  case (2 p e es l)
  then show ?case by (auto dest: in_set_takeD)
qed simp

lemma callsOf_commitSteps: "callsOf (snd (fold commitStep is (r, es))) = callsOf es"
  by (induction "is" arbitrary: r es) (auto simp: commitStep_def Let_def)

lemma callsOf_updateCommitIndex [simp]: "callsOf (snd (updateCommitIndex r)) = []"
  by (simp add: updateCommitIndex_def callsOf_commitSteps)

lemma callsOf_appendReply:
  assumes "appendReply args p result r = (r', es)"
  shows "(callsOf es = [] \<and> applyFunc r' = applyFunc r \<and> raftLog r' = raftLog r
      \<and> lastApplied r' = lastApplied r \<and> commitIndex r' = commitIndex r)
    \<or> (\<exists>x. applyFunc x = applyFunc r \<and> raftLog x = raftLog r \<and> lastApplied x = lastApplied r
      \<and> commitIndex x = commitIndex r
      \<and> x = r\<lparr>matchIndex := matchIndex x, nextIndex := nextIndex x\<rparr> \<and> state r = Leader
      \<and> r' = fst (applyCommitted (fst (updateCommitIndex x)))
      \<and> callsOf es = callsOf (snd (applyCommitted (fst (updateCommitIndex x)))))"
proof (cases "\<exists>reply. result = Inr reply \<and> state r = Leader \<and> currentTerm r = aeTerm args
    \<and> \<not> aerTerm reply > currentTerm r \<and> aerSuccess reply")
  case False
  with assms have "callsOf es = [] \<and> applyFunc r' = applyFunc r \<and> raftLog r' = raftLog r
      \<and> lastApplied r' = lastApplied r \<and> commitIndex r' = commitIndex r"
    by (auto simp: appendReply_def split: sum.splits if_splits)
  then show ?thesis ..
next
  case True
  let ?m = "aePrevLogIndex args + word_of_nat (length (aeEntries args))"
  let ?x = "r\<lparr>matchIndex := (matchIndex r)(p \<mapsto> ?m), nextIndex := (nextIndex r)(p \<mapsto> ?m + 1)\<rparr>"
  from True assms have "r' = fst (applyCommitted (fst (updateCommitIndex ?x)))
      \<and> callsOf es = callsOf (snd (applyCommitted (fst (updateCommitIndex ?x))))"
    by (auto simp: appendReply_def Let_def case_prod_unfold)
  moreover have "state r = Leader" using True by blast
  ultimately show ?thesis by (intro disjI2 exI [of _ ?x]) simp
qed

lemma kvAppendEntries_keeps:
  assumes "kvConsistent d0 n" and "argsWf args" and "list_all (\<lambda>e. commandFits (entryCommand e)) (aeEntries args)"
    and "l = Entries (raftLog (kvRaft n))" and "k = unat (lastApplied (kvRaft n))"
    and "take k (mergeSpec (unat (aePrevLogIndex args)) (aeEntries args) l) = take k l"
  shows "\<exists>n'. kvAppendEntries args n = Some n' \<and> kvConsistent d0 n'
    \<and> kvRaft n' = fst (AppendEntries args (kvRaft n))"
proof -
  let ?r = "kvRaft n" and ?s = "kvStore n"
  note con = assms(1) [unfolded kvConsistent_def]
  obtain r es reply where ae: "AppendEntries args ?r = (r, es, reply)" by (metis prod_cases3)
  have step: "kvAppendEntries args n = map_option (\<lambda>s. \<lparr>kvRaft = r, kvStore = s\<rparr>) (runApply es ?s)"
    by (simp add: kvAppendEntries_def kvHandle_def ae)
  from callsOf_AppendEntries [OF ae] consider "r = ?r" "callsOf es = []"
    | "r = adoptLeader args ?r" "callsOf es = []"
    | "prevMatches args ?r" "r = fst (applyCommitted (installed args ?r))"
      "callsOf es = callsOf (snd (applyCommitted (installed args ?r)))" by blast
  then show ?thesis
  proof cases
    case 1
    with runApply_ready [of ?s es] con have "\<exists>s'. runApply es ?s = Some s' \<and> storeReady s' \<and> data s' = data ?s"
      by simp
    with 1 con ae step show ?thesis by (auto simp: kvConsistent_def)
  next
    case 2
    with runApply_ready [of ?s es] con have "\<exists>s'. runApply es ?s = Some s' \<and> storeReady s' \<and> data s' = data ?s"
      by simp
    with 2 con ae step show ?thesis by (auto simp: kvConsistent_def adoptLeader_def)
  next
    case 3
    let ?i = "installed args ?r" and ?p = "unat (aePrevLogIndex args)"
    let ?m = "mergeSpec ?p (aeEntries args) l"
    let ?j = "(adoptLeader args ?r)\<lparr>raftLog := fold mergeEntry (aeEntries args) (raftLog ?r)\<rparr>"
    have wf: "Entries (raftLog ?i) = ?m" "logWf (raftLog ?i)" "logSmall (raftLog ?i)"
      using installed_log [OF _ _ assms(2) 3(1)] con by (simp_all add: assms(4))
    have log: "raftLog ?j = raftLog ?i" by (simp add: installed_def)
    have kl: "k \<le> length l" using con by (simp add: assms(4,5))
    have km: "k \<le> length ?m" using arg_cong [OF assms(6), of length] kl by simp
    have fits: "\<forall>e \<in> set ?m. commandFits (entryCommand e)"
    proof
      fix e assume "e \<in> set ?m"
      then have "e \<in> set l \<or> e \<in> set (aeEntries args)" using set_mergeSpec by blast
      then show "commandFits (entryCommand e)" using con assms(3,4) by (auto simp: list_all_iff)
    qed
    have same: "applyFunc ?i = applyFunc ?r" "lastApplied ?i = lastApplied ?r"
      "commitIndex ?j = commitIndex ?r"
      by (simp_all add: installed_def adoptLeader_def)
    have "unat (commitIndex ?j) \<le> length (Entries (raftLog ?j))"
      using km con wf(1) by (simp add: log same(3) assms(5))
    moreover have inst: "advanceCommit (aeLeaderCommit args) ?j = ?i" by (simp only: installed_def)
    ultimately have com: "commitIndex ?r \<le> commitIndex ?i" "unat (commitIndex ?i) \<le> length ?m"
      using advanceCommit_bounds [of ?j "aeLeaderCommit args"] wf(2,3)
      unfolding inst log same(3) wf(1) by blast+
    have "data ?s = fold specCommand (map entryCommand (take (unat (lastApplied ?i)) (Entries (raftLog ?i)))) d0"
      using con assms(4-6) by (simp add: wf(1) same(2))
    moreover have "storeReady ?s" "applyFunc ?i = Some ApplyToStore" "lastApplied ?i \<le> commitIndex ?i"
      using con com(1) same by simp_all
    ultimately obtain s' where "runApply es ?s = Some s'" "kvConsistent d0 \<lparr>kvRaft = r, kvStore = s'\<rparr>"
      using kv_apply [of ?s ?i d0 es] fits wf com(2) 3(2,3) by (simp only: wf(1)) blast
    with ae step show ?thesis by simp
  qed
qed

text \<open>C8. A follower's store follows its log: when a consistent KV node handles an AppendEntries
  message whose commands fit in the write-ahead log and which keeps the applied prefix of the
  log, the handler returns and leaves a consistent node: everything newly committed has been
  applied, and the store is the fold of the applied prefix of the new log.\<close>

theorem kv_append_entries_consistent:
  assumes "kvConsistent d0 n" and "argsWf args" and "list_all (\<lambda>e. commandFits (entryCommand e)) (aeEntries args)"
    and "l = Entries (raftLog (kvRaft n))" and "k = unat (lastApplied (kvRaft n))"
    and "take k (mergeSpec (unat (aePrevLogIndex args)) (aeEntries args) l) = take k l"
  shows "\<exists>n'. kvAppendEntries args n = Some n' \<and> kvConsistent d0 n'
    \<and> kvRaft n' = fst (AppendEntries args (kvRaft n))"
  using assms by (rule kvAppendEntries_keeps)

text \<open>C36. The leader's store follows its log too: handling any answer to an AppendEntries message
  (an error, a refusal, a success that commits entries) returns and keeps the node consistent.\<close>

theorem kv_append_reply_consistent:
  assumes "kvConsistent d0 n"
  shows "\<exists>n'. kvAppendReply args p result n = Some n' \<and> kvConsistent d0 n'
    \<and> kvRaft n' = fst (appendReply args p result (kvRaft n))"
proof -
  let ?r = "kvRaft n" and ?s = "kvStore n"
  note con = assms [unfolded kvConsistent_def]
  obtain r es where ar: "appendReply args p result ?r = (r, es)" by fastforce
  have step: "kvAppendReply args p result n = map_option (\<lambda>s. \<lparr>kvRaft = r, kvStore = s\<rparr>) (runApply es ?s)"
    by (simp add: kvAppendReply_def kvHandle_def ar)
  from callsOf_appendReply [OF ar] show ?thesis
  proof
    assume q: "callsOf es = [] \<and> applyFunc r = applyFunc ?r \<and> raftLog r = raftLog ?r
      \<and> lastApplied r = lastApplied ?r \<and> commitIndex r = commitIndex ?r"
    with runApply_ready [of ?s es] con have "\<exists>s'. runApply es ?s = Some s' \<and> storeReady s' \<and> data s' = data ?s"
      by simp
    with q con ar step show ?thesis by (auto simp: kvConsistent_def)
  next
    assume "\<exists>x. applyFunc x = applyFunc ?r \<and> raftLog x = raftLog ?r \<and> lastApplied x = lastApplied ?r
      \<and> commitIndex x = commitIndex ?r
      \<and> x = ?r\<lparr>matchIndex := matchIndex x, nextIndex := nextIndex x\<rparr> \<and> state ?r = Leader
      \<and> r = fst (applyCommitted (fst (updateCommitIndex x)))
      \<and> callsOf es = callsOf (snd (applyCommitted (fst (updateCommitIndex x))))"
    then obtain x where x: "applyFunc x = applyFunc ?r" "raftLog x = raftLog ?r"
      "lastApplied x = lastApplied ?r" "commitIndex x = commitIndex ?r"
      and r: "r = fst (applyCommitted (fst (updateCommitIndex x)))"
        "callsOf es = callsOf (snd (applyCommitted (fst (updateCommitIndex x))))" by blast
    let ?u = "fst (updateCommitIndex x)"
    note u = updateCommitIndex_bounds [of x]
    have "applyFunc ?u = applyFunc x" "lastApplied ?u = lastApplied x" "raftLog ?u = raftLog x"
      by (subst updateCommitIndex_only, simp)+
    then have "\<exists>s'. runApply es ?s = Some s' \<and> kvConsistent d0 \<lparr>kvRaft = fst (applyCommitted ?u), kvStore = s'\<rparr>
        \<and> lastApplied (fst (applyCommitted ?u)) = commitIndex ?u"
      using con u x r(2) by (intro kv_apply) simp_all
    with ar step r(1) show ?thesis by auto
  qed
qed

text \<open>Replicas agree: two consistent KV nodes that started from the same map, have applied
  equally far, hold an entry of the same term at that position, and whose logs match where their
  terms agree (as log matching proves for the cluster), answer every Get alike.\<close>

lemma replicas_agree:
  assumes "kvConsistent d0 m" and "kvConsistent d0 n"
    and "logsMatch (Entries (raftLog (kvRaft m))) (Entries (raftLog (kvRaft n)))"
    and "unat (lastApplied (kvRaft m)) = Suc k" and "unat (lastApplied (kvRaft n)) = Suc k"
    and "entryTerm (Entries (raftLog (kvRaft m)) ! k) = entryTerm (Entries (raftLog (kvRaft n)) ! k)"
  shows "kvGet key m = kvGet key n"
proof -
  have "Suc k \<le> length (Entries (raftLog (kvRaft m)))" "Suc k \<le> length (Entries (raftLog (kvRaft n)))"
    using assms(1,2,4,5) by (simp_all add: kvConsistent_def)
  then have "take (Suc k) (Entries (raftLog (kvRaft m))) = take (Suc k) (Entries (raftLog (kvRaft n)))"
    using assms(6) by (intro logsMatchD [OF assms(3)]) simp_all
  then have "data (kvStore m) = data (kvStore n)"
    using assms(1,2,4,5) by (simp add: kvConsistent_def)
  then show ?thesis by (simp add: kvGet_def storeGet_def)
qed

section \<open>Concrete nodes\<close>

definition kvNodeWithLog :: "int \<Rightarrow> uint64 \<Rightarrow> LogEntry list \<Rightarrow> KVNode" where
  "kvNodeWithLog i t es = NewKVNode (nodeWithLog i t es) emptyStore"

lemma kvNodeWithLog_simps [simp]:
  "kvRaft (kvNodeWithLog i t es) = (nodeWithLog i t es)\<lparr>applyFunc := Some ApplyToStore\<rparr>"
  "kvStore (kvNodeWithLog i t es) = emptyStore"
  by (simp_all add: kvNodeWithLog_def NewKVNode_def SetApplyFunc_def)

lemma commandFits_setCmd: "length k < 100 \<Longrightarrow> commandFits (setCmd k k)"
  by (simp add: commandFits_def setCmd_def)

lemma kvConsistent_fresh:
  "numberedFrom 0 es \<Longrightarrow> length es < 100 \<Longrightarrow> \<forall>e \<in> set es. commandFits (entryCommand e) \<Longrightarrow>
    kvConsistent Map.empty (kvNodeWithLog i t es)"
  by (simp add: kvConsistent_def logWf_def logSmall_def)

lemma kv_append_entries_consistent_witness:
  "\<exists>n'. kvAppendEntries (appendArgs 1 0 0 [entryAt 1 1 ''x''] 1) (kvNodeWithLog 1 0 []) = Some n'
    \<and> kvConsistent Map.empty n' \<and> kvGet ''x'' n' = (''x'', True)"
proof -
  let ?args = "appendArgs 1 0 0 [entryAt 1 1 ''x''] 1" and ?n = "kvNodeWithLog 1 0 []"
  have "kvConsistent Map.empty ?n" by (rule kvConsistent_fresh) simp_all
  moreover have "argsWf ?args" by (simp add: argsWf_def appendArgs_def numberedFrom_Cons)
  moreover have "list_all (\<lambda>e. commandFits (entryCommand e)) (aeEntries ?args)"
    by (simp add: appendArgs_def commandFits_setCmd)
  ultimately obtain n' where n': "kvAppendEntries ?args ?n = Some n'" "kvConsistent Map.empty n'"
    "kvRaft n' = fst (AppendEntries ?args (kvRaft ?n))"
    using kv_append_entries_consistent [OF _ _ _ refl refl, of Map.empty ?n ?args] by auto
  have "lastApplied (fst (AppendEntries ?args (kvRaft ?n))) = 1
      \<and> Entries (raftLog (fst (AppendEntries ?args (kvRaft ?n)))) = [entryAt 1 1 ''x'']"
    by code_simp
  with n'(2,3) have "data (kvStore n') = [''x'' \<mapsto> ''x'']"
    by (simp add: kvConsistent_def specCommand_def entryAt_def setCmd_def)
  with n' show ?thesis by (simp add: kvGet_def storeGet_def)
qed

lemma kv_append_reply_consistent_witness:
  "\<exists>n'. kvAppendReply (appendArgs 1 0 0 [entryAt 1 1 ''x''] 0) 2 (Inr \<lparr>aerTerm = 1, aerSuccess = True\<rparr>)
      (NewKVNode ((nodeWithLog 0 1 [entryAt 1 1 ''x''])
        \<lparr>state := Leader, peers := [(0, ''a''), (1, ''b''), (2, ''c'')]\<rparr>) emptyStore) = Some n'
    \<and> kvGet ''x'' n' = (''x'', True)"
proof -
  let ?args = "appendArgs 1 0 0 [entryAt 1 1 ''x''] 0"
  let ?res = "Inr \<lparr>aerTerm = 1, aerSuccess = True\<rparr> :: error + AppendEntriesReply"
  let ?r = "(nodeWithLog 0 1 [entryAt 1 1 ''x''])\<lparr>state := Leader, peers := [(0, ''a''), (1, ''b''), (2, ''c'')]\<rparr>"
  let ?n = "NewKVNode ?r emptyStore"
  have r: "kvRaft ?n = ?r\<lparr>applyFunc := Some ApplyToStore\<rparr>"
    by (simp add: NewKVNode_def SetApplyFunc_def)
  have "kvConsistent Map.empty ?n"
    by (simp add: kvConsistent_def r commandFits_setCmd logWf_def logSmall_def numberedFrom_Cons)
       (simp add: NewKVNode_def)
  then obtain n' where n': "kvAppendReply ?args 2 ?res ?n = Some n'" "kvConsistent Map.empty n'"
    "kvRaft n' = fst (appendReply ?args 2 ?res (kvRaft ?n))"
    using kv_append_reply_consistent [of Map.empty ?n ?args 2 ?res] by auto
  have "lastApplied (fst (appendReply ?args 2 ?res (kvRaft ?n))) = 1
      \<and> Entries (raftLog (fst (appendReply ?args 2 ?res (kvRaft ?n)))) = [entryAt 1 1 ''x'']"
    by code_simp
  with n'(2,3) have "data (kvStore n') = [''x'' \<mapsto> ''x'']"
    by (simp add: kvConsistent_def specCommand_def entryAt_def setCmd_def)
  with n' show ?thesis by (simp add: kvGet_def storeGet_def)
qed

text \<open>A node that has applied its one committed entry.\<close>

lemma kv_applied_one:
  "\<exists>s. kvConsistent Map.empty \<lparr>kvRaft = (nodeWithLog i 1 [entryAt 1 1 ''x''])
      \<lparr>applyFunc := Some ApplyToStore, commitIndex := 1, lastApplied := 1\<rparr>, kvStore = s\<rparr>"
proof -
  let ?r = "(nodeWithLog i 1 [entryAt 1 1 ''x''])\<lparr>applyFunc := Some ApplyToStore, commitIndex := 1\<rparr>"
  have "fst (applyCommitted ?r) = ?r\<lparr>lastApplied := commitIndex ?r\<rparr>"
    using applyCommitted_range [of ?r] by (simp add: logSmall_def)
  moreover have "\<exists>s'. runApply (snd (applyCommitted ?r)) emptyStore = Some s'
      \<and> kvConsistent Map.empty \<lparr>kvRaft = fst (applyCommitted ?r), kvStore = s'\<rparr>
      \<and> lastApplied (fst (applyCommitted ?r)) = commitIndex ?r"
    by (rule kv_apply) (simp_all add: logSmall_def logWf_def numberedFrom_Cons commandFits_setCmd)
  ultimately show ?thesis by auto
qed

lemma replicas_agree_witness:
  "\<exists>m n. nodeId (kvRaft m) = 0 \<and> nodeId (kvRaft n) = 1 \<and> kvConsistent Map.empty m
    \<and> kvGet ''x'' m = kvGet ''x'' n"
proof -
  obtain s where s: "kvConsistent Map.empty \<lparr>kvRaft = (nodeWithLog 0 1 [entryAt 1 1 ''x''])
      \<lparr>applyFunc := Some ApplyToStore, commitIndex := 1, lastApplied := 1\<rparr>, kvStore = s\<rparr>"
    using kv_applied_one by blast
  obtain t where t: "kvConsistent Map.empty \<lparr>kvRaft = (nodeWithLog 1 1 [entryAt 1 1 ''x''])
      \<lparr>applyFunc := Some ApplyToStore, commitIndex := 1, lastApplied := 1\<rparr>, kvStore = t\<rparr>"
    using kv_applied_one by blast
  from replicas_agree [OF s t, of 0 "''x''"] s show ?thesis
    by (intro exI [of _ "\<lparr>kvRaft = (nodeWithLog 0 1 [entryAt 1 1 ''x''])
      \<lparr>applyFunc := Some ApplyToStore, commitIndex := 1, lastApplied := 1\<rparr>, kvStore = s\<rparr>"] exI)
      (auto simp: logsMatch_def nodeWithLog_def NewRaftNode_def)
qed

section \<open>A client's request\<close>

text \<open>What a client's Set is told, and when: a node that does not lead changes nothing but
  answers with a leader id; a leader appends exactly one entry, of its term, with the index it
  reports, and answers before that entry is committed. Neither touches the store, so a Get
  right after an accepted Set does not see it.\<close>

lemma kv_set_accepts_before_commit:
  assumes "kvSet k v later n = (n', es, ok, leader, index)" and "logWf (raftLog (kvRaft n))"
    and "\<And>r. raftLog (later r) = raftLog r \<and> leaderID (later r) = leaderID r"
  shows "ok = (state (kvRaft n) = Leader) \<and> leader = leaderID (kvRaft n)
    \<and> kvStore n' = kvStore n \<and> kvGet key n' = kvGet key n \<and> callsOf es = []
    \<and> Entries (raftLog (kvRaft n')) = Entries (raftLog (kvRaft n)) @
        (if ok then [\<lparr>entryIndex = index, entryTerm = currentTerm (kvRaft n),
            entryCommand = \<lparr>cmdType = CommandSet, cmdKey = k, cmdValue = v\<rparr>\<rparr>] else [])
    \<and> index = (if ok then word_of_nat (Suc (length (Entries (raftLog (kvRaft n))))) else 0)"
  using assms
  by (auto simp: kvSet_def kvSubmit_def Start_def logAppend_def LastIndex_wf Let_def LeaderID_def
      kvGet_def add.commute split: if_splits)

lemma kv_set_accepts_before_commit_witness:
  "\<exists>n' es. kvSet ''k'' ''v'' id ((kvNodeWithLog 0 1 [])\<lparr>kvRaft := (nodeWithLog 0 1 [])\<lparr>state := Leader\<rparr>\<rparr>)
      = (n', es, True, -1, 1) \<and> kvGet ''k'' n' = ([], False)"
proof -
  let ?n = "(kvNodeWithLog 0 1 [])\<lparr>kvRaft := (nodeWithLog 0 1 [])\<lparr>state := Leader\<rparr>\<rparr>"
  obtain n' es ok l i where e: "kvSet ''k'' ''v'' id ?n = (n', es, ok, l, i)" by (metis prod_cases5)
  have "leaderID (nodeWithLog 0 1 []) = -1" by (simp add: nodeWithLog_def NewRaftNode_def)
  with kv_set_accepts_before_commit [OF e, of "''k''"] have "ok" "l = -1" "i = 1" "kvGet ''k'' n' = ([], False)"
    by (simp_all add: logWf_def kvGet_def storeGet_def)
  with e show ?thesis by simp
qed

end
