(* ===== verification/Cluster.thy ===== *)
theory Cluster
  imports Raft_Rpc
begin

text \<open>
  The cluster: the nodes that cmd/server/main.go boots, and what runs between them. The
  goroutines that matter are part of the state: a timer goroutine between its test of the node's
  state and \<open>startElection\<close>, one goroutine per vote request of an election (they share the
  counter \<open>votes\<close>), one goroutine per AppendEntries message. Each critical section of the code
  is one action; the actions may come in any order, which covers every schedule, every timing
  of the timers and tickers, and messages that are lost or arrive late. The transport follows
  \<open>LocalTransport\<close> (internal/raft/mock_transport.go), whose two tests and handler call are those
  of the HTTP handlers (internal/raft/http_handler.go) too; a lost request or answer, which only
  the HTTP transport has, is an action of its own. A message reaches the handler as it was sent.
  Over HTTP that is so for commands that are texts; \<open>Http_Cluster\<close> has the steps over HTTP and
  shows that the runs are then the same.
\<close>

section \<open>The transport\<close>

record LocalTransport =
  endpoints :: "string \<rightharpoonup> int"

definition NewLocalTransport :: "(string \<rightharpoonup> int) \<Rightarrow> LocalTransport" where
  "NewLocalTransport m = \<lparr>endpoints = m\<rparr>"

text \<open>What the transport does before it calls the handler: find the node, refuse a stopped one.\<close>

definition admit :: "LocalTransport \<Rightarrow> (int \<Rightarrow> RaftNode) \<Rightarrow> string \<Rightarrow> error + int" where
  "admit t ns peerAddress =
    (case endpoints t peerAddress of
       None \<Rightarrow> Inl (Errorf ''node unreachable'')
     | Some i \<Rightarrow> if IsStopped (ns i) then Inl (Errorf ''node stopped'') else Inr i)"

section \<open>RPCs in flight\<close>

text \<open>The states of one RPC: sent; past the transport's tests, the handler not yet called;
  back at the caller, which has not yet taken its mutex; and done.\<close>

datatype 'r Call = Sent | Admitted int | Returned "error + 'r" | Finished

definition admitCall :: "LocalTransport \<Rightarrow> (int \<Rightarrow> RaftNode) \<Rightarrow> string \<Rightarrow> 'r Call" where
  "admitCall t ns a = (case admit t ns a of Inl e \<Rightarrow> Returned (Inl e) | Inr i \<Rightarrow> Admitted i)"

record Election =
  elCandidate :: int
  elArgs :: RequestVoteArgs
  elVotes :: nat
  elCalls :: "(int \<times> string \<times> RequestVoteReply Call) list"

record Replication =
  rpLeader :: int
  rpPeer :: int
  rpAddress :: string
  rpArgs :: AppendEntriesArgs
  rpCall :: "AppendEntriesReply Call"

record Cluster =
  members :: "int list"
  nodes :: "int \<Rightarrow> RaftNode"
  localTransport :: LocalTransport
  firing :: "int list"
  elections :: "Election list"
  replications :: "Replication list"
  applied :: "int \<Rightarrow> Command list"

text \<open>The goroutines among the effects of a handler.\<close>

fun voteCallsOf :: "Effect list \<Rightarrow> (int \<times> string \<times> RequestVoteReply Call) list" where
  "voteCallsOf [] = []"
| "voteCallsOf (GoRequestVote p a args # es) = (p, a, Sent) # voteCallsOf es"
| "voteCallsOf (_ # es) = voteCallsOf es"

fun appendCallsOf :: "int \<Rightarrow> Effect list \<Rightarrow> Replication list" where
  "appendCallsOf i [] = []"
| "appendCallsOf i (GoAppendEntries p a args # es) =
    \<lparr>rpLeader = i, rpPeer = p, rpAddress = a, rpArgs = args, rpCall = Sent\<rparr> # appendCallsOf i es"
| "appendCallsOf i (_ # es) = appendCallsOf i es"

text \<open>A handler's result at node \<open>i\<close>: the node, and its calls of \<open>applyFunc\<close>. Events go to the
  bus; heartbeat and timer loops need no record, since their turns may come at any time.\<close>

definition updateNode :: "int \<Rightarrow> RaftNode \<Rightarrow> Effect list \<Rightarrow> Cluster \<Rightarrow> Cluster" where
  "updateNode i r es c =
    c\<lparr>nodes := (nodes c)(i := r), applied := (applied c)(i := applied c i @ callsOf es)\<rparr>"

section \<open>Actions\<close>

datatype Action =
    TimerFires int
  | BeginElection int
  | AdmitVote nat nat
  | HandleVote nat nat
  | LoseVote nat nat
  | FinishVote nat nat
  | Heartbeat int
  | AdmitAppend nat
  | HandleAppend nat
  | LoseAppend nat
  | FinishAppend nat
  | ClientStart int Command
  | StopNode int
  | RestartNode int

text \<open>The election-timer goroutine. At a stopped node the code's loop returns; the action is left
  enabled there, which adds runs and takes none away.\<close>

definition timerFires :: "int \<Rightarrow> Cluster \<Rightarrow> Cluster option" where
  "timerFires i c =
    (if timerArmed (nodes c i)
     then (case timerFired (nodes c i) of (r, goOn) \<Rightarrow>
             Some ((updateNode i r [] c)\<lparr>firing := (if goOn then firing c @ [i] else firing c)\<rparr>))
     else None)"

definition beginElection :: "int \<Rightarrow> Cluster \<Rightarrow> Cluster option" where
  "beginElection i c =
    (if i \<in> set (firing c)
     then (case startElection (nodes c i) of (r, es) \<Rightarrow>
             Some ((updateNode i r es c)
               \<lparr>firing := remove1 i (firing c),
                elections := elections c @
                  [\<lparr>elCandidate = i, elArgs = electionArgs r, elVotes = initialVotes,
                    elCalls = voteCallsOf es\<rparr>]\<rparr>))
     else None)"

text \<open>The goroutine \<open>j\<close> of election \<open>e\<close>. A caller that gives up while the handler has still
  to run behaves as one whose answer is lost later, since an error makes it do nothing.\<close>

definition voteCall :: "nat \<Rightarrow> nat \<Rightarrow> Cluster \<Rightarrow> (Election \<times> int \<times> string \<times> RequestVoteReply Call) option" where
  "voteCall e j c =
    (if e < length (elections c) \<and> j < length (elCalls (elections c ! e))
     then Some (elections c ! e, elCalls (elections c ! e) ! j) else None)"

definition setVoteCall :: "nat \<Rightarrow> nat \<Rightarrow> RequestVoteReply Call \<Rightarrow> Cluster \<Rightarrow> Cluster" where
  "setVoteCall e j s c =
    (let el = elections c ! e; calls = elCalls el
     in c\<lparr>elections := (elections c)[e := el\<lparr>elCalls :=
          calls[j := (fst (calls ! j), fst (snd (calls ! j)), s)]\<rparr>]\<rparr>)"

definition admitVote :: "nat \<Rightarrow> nat \<Rightarrow> Cluster \<Rightarrow> Cluster option" where
  "admitVote e j c =
    (case voteCall e j c of
       Some (el, p, a, Sent) \<Rightarrow> Some (setVoteCall e j (admitCall (localTransport c) (nodes c) a) c)
     | _ \<Rightarrow> None)"

definition handleVote :: "nat \<Rightarrow> nat \<Rightarrow> Cluster \<Rightarrow> Cluster option" where
  "handleVote e j c =
    (case voteCall e j c of
       Some (el, p, a, Admitted i) \<Rightarrow>
         (case RequestVote (elArgs el) (nodes c i) of (r, reply) \<Rightarrow>
            Some (setVoteCall e j (Returned (Inr reply)) (updateNode i r [] c)))
     | _ \<Rightarrow> None)"

definition loseVote :: "nat \<Rightarrow> nat \<Rightarrow> Cluster \<Rightarrow> Cluster option" where
  "loseVote e j c =
    (case voteCall e j c of
       Some (el, p, a, s) \<Rightarrow>
         if s = Finished then None else Some (setVoteCall e j (Returned (Inl (Errorf ''no answer''))) c)
     | None \<Rightarrow> None)"

definition finishVote :: "nat \<Rightarrow> nat \<Rightarrow> Cluster \<Rightarrow> Cluster option" where
  "finishVote e j c =
    (case voteCall e j c of
       Some (el, p, a, Returned result) \<Rightarrow>
         (case voteReply (elArgs el) p result (elVotes el) (nodes c (elCandidate el)) of
            (r, votes, es) \<Rightarrow>
              let c1 = setVoteCall e j Finished (updateNode (elCandidate el) r es c)
              in Some (c1\<lparr>elections := (elections c1)[e := (elections c1 ! e)\<lparr>elVotes := votes\<rparr>]\<rparr>))
     | _ \<Rightarrow> None)"

text \<open>The leader's side and the AppendEntries goroutines.\<close>

definition heartbeat :: "int \<Rightarrow> Cluster \<Rightarrow> Cluster" where
  "heartbeat i c =
    c\<lparr>replications := replications c @ appendCallsOf i (sendHeartbeats (nodes c i))\<rparr>"

definition appendCall :: "nat \<Rightarrow> Cluster \<Rightarrow> (Replication \<times> AppendEntriesReply Call) option" where
  "appendCall k c =
    (if k < length (replications c) then Some (replications c ! k, rpCall (replications c ! k)) else None)"

definition setAppendCall :: "nat \<Rightarrow> AppendEntriesReply Call \<Rightarrow> Cluster \<Rightarrow> Cluster" where
  "setAppendCall k s c =
    c\<lparr>replications := (replications c)[k := (replications c ! k)\<lparr>rpCall := s\<rparr>]\<rparr>"

definition admitAppend :: "nat \<Rightarrow> Cluster \<Rightarrow> Cluster option" where
  "admitAppend k c =
    (case appendCall k c of
       Some (rp, Sent) \<Rightarrow>
         Some (setAppendCall k (admitCall (localTransport c) (nodes c) (rpAddress rp)) c)
     | _ \<Rightarrow> None)"

definition handleAppend :: "nat \<Rightarrow> Cluster \<Rightarrow> Cluster option" where
  "handleAppend k c =
    (case appendCall k c of
       Some (rp, Admitted i) \<Rightarrow>
         (case AppendEntries (rpArgs rp) (nodes c i) of (r, es, reply) \<Rightarrow>
            Some (setAppendCall k (Returned (Inr reply)) (updateNode i r es c)))
     | _ \<Rightarrow> None)"

definition loseAppend :: "nat \<Rightarrow> Cluster \<Rightarrow> Cluster option" where
  "loseAppend k c =
    (case appendCall k c of
       Some (rp, s) \<Rightarrow> if s = Finished then None else Some (setAppendCall k (Returned (Inl (Errorf ''no answer''))) c)
     | None \<Rightarrow> None)"

definition finishAppend :: "nat \<Rightarrow> Cluster \<Rightarrow> Cluster option" where
  "finishAppend k c =
    (case appendCall k c of
       Some (rp, Returned result) \<Rightarrow>
         (case appendReply (rpArgs rp) (rpPeer rp) result (nodes c (rpLeader rp)) of (r, es) \<Rightarrow>
            Some (setAppendCall k Finished (updateNode (rpLeader rp) r es c)))
     | _ \<Rightarrow> None)"

text \<open>Clients, and the stop and restart of a node.\<close>

definition clientStart :: "int \<Rightarrow> Command \<Rightarrow> Cluster \<Rightarrow> Cluster" where
  "clientStart i cmd c = (case Start cmd (nodes c i) of (r, es, _) \<Rightarrow> updateNode i r es c)"

definition stopNode :: "int \<Rightarrow> Cluster \<Rightarrow> Cluster" where
  "stopNode i c = (case Stop (nodes c i) of (r, es) \<Rightarrow> updateNode i r es c)"

definition restartNode :: "int \<Rightarrow> Cluster \<Rightarrow> Cluster" where
  "restartNode i c = (case Restart (nodes c i) of (r, es) \<Rightarrow> updateNode i r es c)"

fun perform :: "Action \<Rightarrow> Cluster \<Rightarrow> Cluster option" where
  "perform (TimerFires i) c = (if i \<in> set (members c) then timerFires i c else None)"
| "perform (BeginElection i) c = beginElection i c"
| "perform (AdmitVote e j) c = admitVote e j c"
| "perform (HandleVote e j) c = handleVote e j c"
| "perform (LoseVote e j) c = loseVote e j c"
| "perform (FinishVote e j) c = finishVote e j c"
| "perform (Heartbeat i) c = (if i \<in> set (members c) then Some (heartbeat i c) else None)"
| "perform (AdmitAppend k) c = admitAppend k c"
| "perform (HandleAppend k) c = handleAppend k c"
| "perform (LoseAppend k) c = loseAppend k c"
| "perform (FinishAppend k) c = finishAppend k c"
| "perform (ClientStart i cmd) c = (if i \<in> set (members c) then Some (clientStart i cmd c) else None)"
| "perform (StopNode i) c = (if i \<in> set (members c) then Some (stopNode i c) else None)"
| "perform (RestartNode i) c = (if i \<in> set (members c) then Some (restartNode i c) else None)"

section \<open>Runs\<close>

text \<open>The nodes as main.go boots them: one event bus, the same peers everywhere, a transport
  each, the store's \<open>applyFunc\<close>, the election timer running. The addresses say which node's
  handlers answer where; that main.go's transport is the HTTP one is a matter of the steps
  (\<open>performHTTP\<close> in \<open>Http_Cluster\<close>).\<close>

definition bootNode :: "(int \<times> string) list \<Rightarrow> int \<Rightarrow> RaftNode" where
  "bootNode ps i =
    SetApplyFunc (Some ApplyToStore)
      (SetTransport (Some (nat i)) (SetPeers ps (SetEventBus (Some 0) (NewRaftNode i))))"

definition bootCluster :: "(int \<times> string) list \<Rightarrow> Cluster" where
  "bootCluster ps =
    \<lparr>members = map fst ps, nodes = bootNode ps, localTransport = NewLocalTransport (map_of (map (\<lambda>(p, a). (a, p)) ps)),
     firing = [], elections = [], replications = [], applied = (\<lambda>_. [])\<rparr>"

text \<open>A run: a list of actions that are all enabled in turn, oldest first.\<close>

inductive run :: "Cluster \<Rightarrow> Action list \<Rightarrow> Cluster \<Rightarrow> bool" where
  run_Nil: "run c [] c"
| run_snoc: "run c as c' \<Longrightarrow> perform a c' = Some c'' \<Longrightarrow> run c (as @ [a]) c''"

inductive_simps run_Nil_iff: "run c [] c'"
inductive_cases run_snocE: "run c (as @ [a]) c'"

fun exec :: "Action list \<Rightarrow> Cluster \<Rightarrow> Cluster option" where
  "exec [] c = Some c"
| "exec (a # as) c = (case perform a c of None \<Rightarrow> None | Some c' \<Rightarrow> exec as c')"

lemma run_trans: "run c1 bs c2 \<Longrightarrow> run c0 as c1 \<Longrightarrow> run c0 (as @ bs) c2"
proof (induction rule: run.induct)
  case (run_Nil c)
  then show ?case by simp
next
  case (run_snoc c bs c' a c'')
  from run.run_snoc [OF run_snoc.IH [OF run_snoc.prems] run_snoc.hyps(2)]
  show ?case by simp
qed

lemma run_Cons: "perform a c = Some c1 \<Longrightarrow> run c1 as c2 \<Longrightarrow> run c (a # as) c2"
  using run_trans [of c1 as c2 c "[a]"] run_snoc [OF run_Nil, of a c c1] by simp

lemma exec_run: "exec as c = Some c' \<Longrightarrow> run c as c'"
proof (induction as arbitrary: c)
  case Nil
  then show ?case by (simp add: run_Nil)
next
  case (Cons a as)
  then show ?case by (auto split: option.splits intro: run_Cons)
qed

lemma exec_append: "exec (as @ bs) c = (case exec as c of None \<Rightarrow> None | Some c' \<Rightarrow> exec bs c')"
  by (induction as arbitrary: c) (auto split: option.splits)

lemma run_exec: "run c as c' \<Longrightarrow> exec as c = Some c'"
  by (induction rule: run.induct) (simp_all add: exec_append)

text \<open>A configuration that makes sense: distinct peers at distinct addresses, with
  non-negative ids (the code's mark for "no vote" is \<open>-1\<close>).\<close>

definition peersOk :: "(int \<times> string) list \<Rightarrow> bool" where
  "peersOk ps \<longleftrightarrow> distinct (map fst ps) \<and> distinct (map snd ps) \<and> (\<forall>p \<in> fst ` set ps. 0 \<le> p)"

definition peers3 :: "(int \<times> string) list" where
  "peers3 = [(0, ''http://localhost:9000''), (1, ''http://localhost:9001''), (2, ''http://localhost:9002'')]"

text \<open>Pieces of runs: node \<open>i\<close> times out and wins election \<open>e\<close> with the vote of its second
  peer; AppendEntries message \<open>k\<close> is delivered and answered.\<close>

definition electActions :: "int \<Rightarrow> nat \<Rightarrow> Action list" where
  "electActions i e = [TimerFires i, BeginElection i, AdmitVote e 1, HandleVote e 1, FinishVote e 1]"

definition replicateActions :: "nat \<Rightarrow> Action list" where
  "replicateActions k = [AdmitAppend k, HandleAppend k, FinishAppend k]"

end
