(* ===== verification/Majority.thy ===== *)
theory Majority
  imports Raft_Node
begin

text \<open>
  The interface behind both of the code's counting rules, \<open>votes >= len(r.peers)/2 + 1\<close> for an
  election and \<open>count > len(r.peers)/2\<close> for a commit: whatever number is enough, it is more than
  half of the cluster. Two sets of members that are each enough, by the same rule or by the two, share a member.
\<close>

locale majority =
  fixes size_of :: "'s \<Rightarrow> nat" and enough :: "'s \<Rightarrow> nat \<Rightarrow> bool"
  assumes more_than_half: "enough s k \<Longrightarrow> size_of s < 2 * k"
begin

lemma quorums_intersect:
  assumes "finite M" and "card M = size_of s" and "card M = size_of s'"
    and "A \<subseteq> M" and "B \<subseteq> M" and "enough s (card A)" and "enough s' (card B)"
  shows "\<exists>x. x \<in> A \<and> x \<in> B"
proof -
  have "card M < card A + card B"
    using more_than_half [OF assms(6)] more_than_half [OF assms(7)] assms(2,3) by linarith
  moreover have "card (A \<union> B) \<le> card M" using assms by (intro card_mono) auto
  moreover have "card A + card B = card (A \<union> B) + card (A \<inter> B)"
    using assms finite_subset by (intro card_Un_Int) blast+
  ultimately have "A \<inter> B \<noteq> {}" by auto
  then show ?thesis by auto
qed

end

text \<open>Two rules for the same clusters: what is enough for one meets what is enough for the other.\<close>

locale two_majorities = first: majority size_of enough + second: majority size_of enough'
  for size_of :: "'s \<Rightarrow> nat" and enough :: "'s \<Rightarrow> nat \<Rightarrow> bool" and enough' :: "'s \<Rightarrow> nat \<Rightarrow> bool"
begin

sublocale either: majority size_of "\<lambda>s k. enough s k \<or> enough' s k"
  by unfold_locales (auto dest: first.more_than_half second.more_than_half)

lemma quorums_meet:
  assumes "finite M" and "card M = size_of s" and "card M = size_of s'"
    and "A \<subseteq> M" and "B \<subseteq> M" and "enough s (card A)" and "enough' s' (card B)"
  shows "\<exists>x. x \<in> A \<and> x \<in> B"
  using assms(6,7) by (intro either.quorums_intersect [OF assms(1-5)]) simp_all

end

definition clusterSize :: "RaftNode \<Rightarrow> nat" where
  "clusterSize r = length (peers r)"

interpretation vote_rule: majority clusterSize wonElection
  by unfold_locales (simp add: clusterSize_def wonElection_def)

interpretation commit_rule: majority clusterSize commitQuorum
  by unfold_locales (simp add: clusterSize_def commitQuorum_def)

interpretation election_and_commit: two_majorities clusterSize wonElection commitQuorum
  by unfold_locales

end
