(* ===== verification/Vote_Invariant.thy ===== *)
theory Vote_Invariant
  imports Cluster Majority Replication
begin

text \<open>
  The invariant behind "at most one leader per term": the votes ever cast are a function \<open>H\<close>
  of voter and term (a history that no node stores), a leader has a majority of them behind it,
  and two majorities share a voter. One lemma per handler says how it moves the node; the rest
  is about moving one node and about changing one call of an election.
\<close>

section \<open>How the handlers move a node\<close>

text \<open>The term does not fall, and within a term a vote once cast stays.\<close>

definition votesMove :: "RaftNode \<Rightarrow> RaftNode \<Rightarrow> bool" where
  "votesMove r r' \<longleftrightarrow> nodeId r' = nodeId r \<and> peers r' = peers r
     \<and> currentTerm r \<le> currentTerm r'
     \<and> (currentTerm r' = currentTerm r \<longrightarrow> votedFor r = -1 \<or> votedFor r' = votedFor r)"

text \<open>The same, and nobody becomes leader.\<close>

definition quietMove :: "RaftNode \<Rightarrow> RaftNode \<Rightarrow> bool" where
  "quietMove r r' \<longleftrightarrow> votesMove r r'
     \<and> (state r' = Leader \<longrightarrow> state r = Leader \<and> currentTerm r' = currentTerm r)"

lemma adoptLeader_frame [simp]:
  "nodeId (adoptLeader args r) = nodeId r" "peers (adoptLeader args r) = peers r"
  "state (adoptLeader args r) = Follower" "currentTerm (adoptLeader args r) = aeTerm args"
  "votedFor (adoptLeader args r) = (if currentTerm r < aeTerm args then -1 else votedFor r)"
  "raftLog (adoptLeader args r) = raftLog r" "nextIndex (adoptLeader args r) = nextIndex r"
  by (simp_all add: adoptLeader_def)

lemma installed_frame [simp]:
  "nodeId (installed args r) = nodeId r" "peers (installed args r) = peers r"
  "state (installed args r) = Follower" "currentTerm (installed args r) = aeTerm args"
  "votedFor (installed args r) = (if currentTerm r < aeTerm args then -1 else votedFor r)"
  "nextIndex (installed args r) = nextIndex r"
  by (simp_all add: installed_def)

lemmas move_defs = quietMove_def votesMove_def

lemma timerFired_quiet: "quietMove r (fst (timerFired r))"
  by (simp add: move_defs timerFired_def)

lemma startElection_moved:
  "fst (startElection r) = r\<lparr>state := Candidate, currentTerm := currentTerm r + 1,
     votedFor := nodeId r, timerArmed := True\<rparr>"
  by (simp add: startElection_def becomeCandidate_def resetElectionTimer_def Let_def)

lemma startElection_quiet:
  "unat (currentTerm r) < 18446744073709551615 \<Longrightarrow> quietMove r (fst (startElection r))"
  by (auto simp: move_defs startElection_moved word_le_nat_alt unat_plus_one)

lemma RequestVote_quiet: "quietMove r (fst (RequestVote args r))"
  by (cases rule: RequestVote_cases [of args r]) (auto simp: move_defs)

lemma AppendEntries_quiet: "quietMove r (fst (AppendEntries args r))"
  by (cases rule: AppendEntries_cases [of args r]) (auto simp: move_defs)

lemma appendReply_cases:
  obtains (stay) "fst (appendReply args p result r) = r"
  | (down) reply where "result = Inr reply" "currentTerm r < aerTerm reply" "state r = Leader"
      "fst (appendReply args p result r) =
        r\<lparr>currentTerm := aerTerm reply, state := Follower, votedFor := -1\<rparr>"
  | (backOff) "state r = Leader" "currentTerm r = aeTerm args" "1 < mapRead (nextIndex r) p"
      "fst (appendReply args p result r) =
        r\<lparr>nextIndex := (nextIndex r)(p \<mapsto> mapRead (nextIndex r) p - 1)\<rparr>"
  | (ack) m reply where "state r = Leader" "currentTerm r = aeTerm args"
      "m = aePrevLogIndex args + word_of_nat (length (aeEntries args))"
      "fst (appendReply args p result r) = fst (applyCommitted (fst (updateCommitIndex
        (r\<lparr>matchIndex := (matchIndex r)(p \<mapsto> m), nextIndex := (nextIndex r)(p \<mapsto> m + 1)\<rparr>))))"
      "result = Inr reply" "aerSuccess reply"
proof (cases result)
  case (Inl e)
  then show ?thesis by (intro stay) (simp add: appendReply_def)
next
  case (Inr reply)
  consider "state r \<noteq> Leader \<or> currentTerm r \<noteq> aeTerm args"
    | "state r = Leader" "currentTerm r = aeTerm args" "aerTerm reply > currentTerm r"
    | "state r = Leader" "currentTerm r = aeTerm args" "\<not> aerTerm reply > currentTerm r"
      "\<not> aerSuccess reply"
    | "state r = Leader" "currentTerm r = aeTerm args" "\<not> aerTerm reply > currentTerm r"
      "aerSuccess reply" by blast
  then show ?thesis
  proof cases
    case 1
    then show ?thesis using Inr by (intro stay) (simp add: appendReply_def)
  next
    case 2
    then show ?thesis using Inr by (intro down [of reply]) (simp_all add: appendReply_def)
  next
    case 3
    show ?thesis
    proof (cases "1 < mapRead (nextIndex r) p")
      case True
      then show ?thesis using Inr 3 by (intro backOff) (simp_all add: appendReply_def)
    next
      case False
      then show ?thesis using Inr 3 by (intro stay) (simp add: appendReply_def)
    qed
  next
    case 4
    then show ?thesis using Inr
      by (intro ack [OF _ _ refl]) (simp_all add: appendReply_def Let_def split: prod.splits)
  qed
qed

lemma appendReply_quiet: "quietMove r (fst (appendReply args p result r))"
  by (cases rule: appendReply_cases [of args p result r]) (auto simp: move_defs)

lemma Start_quiet: "quietMove r (fst (Start cmd r))"
  by (simp add: move_defs Start_def Let_def split: prod.splits)

lemma Stop_quiet: "quietMove r (fst (Stop r))"
  by (simp add: move_defs Stop_def Let_def)

lemma voteReply_cases:
  obtains (stay) "voteReply args p result votes r = (r, votes, [])"
  | (down) reply es where "result = Inr reply" "currentTerm r < rvrTerm reply"
      "voteReply args p result votes r =
        (r\<lparr>currentTerm := rvrTerm reply, state := Follower, votedFor := -1\<rparr>, votes, es)"
  | (counted) reply es where "result = Inr reply" "rvrVoteGranted reply"
      "state r = Candidate" "currentTerm r = rvTerm args" "\<not> wonElection r (Suc votes)"
      "voteReply args p result votes r = (r, Suc votes, es)"
  | (elected) reply es where "result = Inr reply" "rvrVoteGranted reply"
      "state r = Candidate" "currentTerm r = rvTerm args" "wonElection r (Suc votes)"
      "voteReply args p result votes r = (fst (becomeLeader r), Suc votes, es)"
proof (cases result)
  case (Inl e)
  then show ?thesis by (intro stay) (simp add: voteReply_def)
next
  case (Inr reply)
  consider "state r \<noteq> Candidate \<or> currentTerm r \<noteq> rvTerm args"
    | "state r = Candidate" "currentTerm r = rvTerm args" "rvrTerm reply > currentTerm r"
    | "state r = Candidate" "currentTerm r = rvTerm args" "\<not> rvrTerm reply > currentTerm r"
      "\<not> rvrVoteGranted reply"
    | "state r = Candidate" "currentTerm r = rvTerm args" "\<not> rvrTerm reply > currentTerm r"
      "rvrVoteGranted reply" by blast
  then show ?thesis
  proof cases
    case 1
    then show ?thesis using Inr by (intro stay) (simp add: voteReply_def)
  next
    case 2
    then show ?thesis using Inr
      by (intro down [of reply]) (simp_all add: voteReply_def Let_def)
  next
    case 3
    then show ?thesis using Inr by (intro stay) (simp add: voteReply_def)
  next
    case 4
    show ?thesis
    proof (cases "wonElection r (Suc votes)")
      case True
      obtain b bs where "becomeLeader r = (b, bs)" by fastforce
      with True Inr 4 show ?thesis
        by (intro elected [of reply]) (simp_all add: voteReply_def Let_def)
    next
      case False
      then show ?thesis using Inr 4
        by (intro counted [of reply]) (simp_all add: voteReply_def Let_def)
    qed
  qed
qed

lemma becomeLeader_frame [simp]:
  "nodeId (fst (becomeLeader r)) = nodeId r" "state (fst (becomeLeader r)) = Leader"
  "currentTerm (fst (becomeLeader r)) = currentTerm r" "votedFor (fst (becomeLeader r)) = votedFor r"
  "raftLog (fst (becomeLeader r)) = raftLog r" "peers (fst (becomeLeader r)) = peers r"
  by (simp_all add: becomeLeader_def Let_def)

section \<open>The history of votes\<close>

type_synonym Ballots = "int \<Rightarrow> uint64 \<Rightarrow> int option"

definition extends :: "Ballots \<Rightarrow> Ballots \<Rightarrow> bool" where
  "extends H H' \<longleftrightarrow> (\<forall>i t x. H i t = Some x \<longrightarrow> H' i t = Some x)"

text \<open>Node \<open>i\<close> and its history: nothing beyond its term, and \<open>votedFor\<close> at its term.\<close>

definition nodeOk :: "Ballots \<Rightarrow> int \<Rightarrow> RaftNode \<Rightarrow> bool" where
  "nodeOk H i r \<longleftrightarrow> nodeId r = i \<and> (\<forall>t. currentTerm r < t \<longrightarrow> H i t = None)
     \<and> H i (currentTerm r) = (if votedFor r = -1 then None else Some (votedFor r))"

definition castVote :: "Ballots \<Rightarrow> int \<Rightarrow> RaftNode \<Rightarrow> Ballots" where
  "castVote H i r =
    (if votedFor r = -1 then H else H(i := (H i)(currentTerm r \<mapsto> votedFor r)))"

text \<open>Node \<open>i\<close> has a majority of the votes of term \<open>t\<close>.\<close>

definition won :: "(int \<times> string) list \<Rightarrow> Ballots \<Rightarrow> int \<Rightarrow> uint64 \<Rightarrow> bool" where
  "won ps H i t \<longleftrightarrow> (\<exists>Q r. peers r = ps \<and> Q \<subseteq> fst ` set ps \<and> wonElection r (card Q)
     \<and> (\<forall>q \<in> Q. H q t = Some i))"

lemma extends_refl [simp]: "extends H H"
  by (simp add: extends_def)

lemma extends_trans: "extends H1 H2 \<Longrightarrow> extends H2 H3 \<Longrightarrow> extends H1 H3"
  by (simp add: extends_def)

lemma extendsD: "extends H H' \<Longrightarrow> H i t = Some x \<Longrightarrow> H' i t = Some x"
  by (simp add: extends_def)

lemma won_extends: "won ps H i t \<Longrightarrow> extends H H' \<Longrightarrow> won ps H' i t"
  unfolding won_def by (elim exE conjE, intro exI conjI) (auto dest: extendsD)

lemma won_unique:
  assumes "peersOk ps" and "won ps H i t" and "won ps H j t"
  shows "i = j"
proof -
  from assms(2) obtain Q r where Q: "peers r = ps" "Q \<subseteq> fst ` set ps" "wonElection r (card Q)"
    "\<forall>q \<in> Q. H q t = Some i" by (auto simp: won_def)
  from assms(3) obtain Q' r' where Q': "peers r' = ps" "Q' \<subseteq> fst ` set ps"
    "wonElection r' (card Q')" "\<forall>q \<in> Q'. H q t = Some j" by (auto simp: won_def)
  have "card (fst ` set ps) = length ps"
    using assms(1) distinct_card [of "map fst ps"] by (simp add: peersOk_def)
  then have "card (fst ` set ps) = clusterSize r" "card (fst ` set ps) = clusterSize r'"
    using Q(1) Q'(1) by (simp_all add: clusterSize_def)
  from vote_rule.quorums_intersect [OF _ this Q(2) Q'(2) Q(3) Q'(3)]
  obtain q where "q \<in> Q" "q \<in> Q'" by auto
  with Q(4) Q'(4) show ?thesis by force
qed

lemma castVote_ok:
  assumes "nodeOk H i r" and "votesMove r r'"
  shows "nodeOk (castVote H i r') i r'" and "extends H (castVote H i r')"
proof -
  have le: "currentTerm r \<le> currentTerm r'" and id: "nodeId r' = i"
    using assms by (simp_all add: nodeOk_def votesMove_def)
  have none: "H i t = None" if "currentTerm r' < t" for t
    using le that assms(1) by (auto simp: nodeOk_def)
  show "nodeOk (castVote H i r') i r'"
  proof (cases "currentTerm r' = currentTerm r")
    case True
    then show ?thesis using assms id none
      by (auto simp: nodeOk_def votesMove_def castVote_def)
  next
    case False
    with le have "H i (currentTerm r') = None" using assms(1) by (auto simp: nodeOk_def)
    then show ?thesis using id none by (auto simp: nodeOk_def castVote_def)
  qed
  show "extends H (castVote H i r')"
  proof (cases "currentTerm r' = currentTerm r")
    case True
    then show ?thesis using assms
      by (auto simp: nodeOk_def votesMove_def castVote_def extends_def)
  next
    case False
    with le have "H i (currentTerm r') = None" using assms(1) by (auto simp: nodeOk_def)
    then show ?thesis by (auto simp: castVote_def extends_def)
  qed
qed

lemma castVote_other: "j \<noteq> i \<Longrightarrow> castVote H i r j = H j"
  by (simp add: castVote_def)

section \<open>The invariant\<close>

definition callOk :: "Ballots \<Rightarrow> int \<Rightarrow> uint64 \<Rightarrow> int \<Rightarrow> RequestVoteReply Call \<Rightarrow> bool" where
  "callOk H cand t p s \<longleftrightarrow>
    (\<forall>i. s = Admitted i \<longrightarrow> i = p)
    \<and> (\<forall>reply. s = Returned (Inr reply) \<longrightarrow> rvrVoteGranted reply \<longrightarrow> H p t = Some cand)"

definition electionOk :: "(int \<times> string) list \<Rightarrow> Ballots \<Rightarrow> Election \<Rightarrow> bool" where
  "electionOk ps H el \<longleftrightarrow>
    rvCandidateID (elArgs el) = elCandidate el \<and> elCandidate el \<in> fst ` set ps
    \<and> H (elCandidate el) (rvTerm (elArgs el)) = Some (elCandidate el)
    \<and> distinct (map fst (elCalls el))
    \<and> (\<forall>(p, a, s) \<in> set (elCalls el).
         (p, a) \<in> set ps \<and> p \<noteq> elCandidate el
         \<and> callOk H (elCandidate el) (rvTerm (elArgs el)) p s)
    \<and> (\<exists>V. V \<subseteq> {p. \<exists>a. (p, a, Finished) \<in> set (elCalls el)} \<and> elVotes el = Suc (card V)
         \<and> (\<forall>v \<in> V. H v (rvTerm (elArgs el)) = Some (elCandidate el)))"

definition configOk :: "(int \<times> string) list \<Rightarrow> Cluster \<Rightarrow> bool" where
  "configOk ps c \<longleftrightarrow> members c = map fst ps
    \<and> localTransport c = NewLocalTransport (map_of (map (\<lambda>(p, a). (a, p)) ps))
    \<and> set (firing c) \<subseteq> fst ` set ps \<and> (\<forall>i. peers (nodes c i) = ps)"

definition votesInv :: "(int \<times> string) list \<Rightarrow> Ballots \<Rightarrow> Cluster \<Rightarrow> bool" where
  "votesInv ps H c \<longleftrightarrow> configOk ps c
    \<and> (\<forall>i. nodeOk H i (nodes c i))
    \<and> (\<forall>i. state (nodes c i) = Leader \<longrightarrow> won ps H i (currentTerm (nodes c i)))
    \<and> (\<forall>el \<in> set (elections c). electionOk ps H el)"

lemma callOk_extends: "callOk H cand t p s \<Longrightarrow> extends H H' \<Longrightarrow> callOk H' cand t p s"
  by (auto simp: callOk_def dest: extendsD)

lemma electionOk_extends:
  assumes "electionOk ps H el" and "extends H H'"
  shows "electionOk ps H' el"
proof -
  from assms(1) obtain V where V: "V \<subseteq> {p. \<exists>a. (p, a, Finished) \<in> set (elCalls el)}"
    "elVotes el = Suc (card V)" "\<forall>v \<in> V. H v (rvTerm (elArgs el)) = Some (elCandidate el)"
    by (auto simp: electionOk_def)
  from V(3) have "\<forall>v \<in> V. H' v (rvTerm (elArgs el)) = Some (elCandidate el)"
    using extendsD [OF assms(2)] by auto
  with V(1,2) have "\<exists>V. V \<subseteq> {p. \<exists>a. (p, a, Finished) \<in> set (elCalls el)} \<and> elVotes el = Suc (card V)
      \<and> (\<forall>v \<in> V. H' v (rvTerm (elArgs el)) = Some (elCandidate el))" by auto
  moreover have "\<forall>(p, a, s) \<in> set (elCalls el). (p, a) \<in> set ps \<and> p \<noteq> elCandidate el
      \<and> callOk H' (elCandidate el) (rvTerm (elArgs el)) p s"
    using assms callOk_extends unfolding electionOk_def by fastforce
  ultimately show ?thesis
    using assms extendsD [OF assms(2)] unfolding electionOk_def by auto
qed

text \<open>One node moves, by a handler that makes nobody leader or one whose leader has won.\<close>

lemma votesInv_updateNode:
  assumes "votesInv ps H c" and "votesMove (nodes c i) r"
    and "state r = Leader \<longrightarrow> won ps (castVote H i r) i (currentTerm r)"
  shows "votesInv ps (castVote H i r) (updateNode i r es c)" and "extends H (castVote H i r)"
proof -
  let ?H = "castVote H i r"
  have i: "nodeOk H i (nodes c i)" using assms(1) by (simp add: votesInv_def)
  show ext: "extends H ?H" by (rule castVote_ok(2) [OF i assms(2)])
  have "nodeOk ?H j (if j = i then r else nodes c j)" for j
    using assms(1) castVote_ok(1) [OF i assms(2)]
    by (auto simp: votesInv_def nodeOk_def castVote_other)
  then show "votesInv ps ?H (updateNode i r es c)"
    using assms ext electionOk_extends won_extends
    by (auto simp: votesInv_def configOk_def updateNode_def votesMove_def)
qed

lemma votesInv_quiet:
  assumes "votesInv ps H c" and "quietMove (nodes c i) r"
  shows "votesInv ps (castVote H i r) (updateNode i r es c)" and "extends H (castVote H i r)"
proof -
  have m: "votesMove (nodes c i) r" using assms(2) by (simp add: quietMove_def)
  have "extends H (castVote H i r)"
    using castVote_ok(2) [OF _ m] assms(1) by (simp add: votesInv_def)
  then have l: "state r = Leader \<longrightarrow> won ps (castVote H i r) i (currentTerm r)"
    using assms won_extends by (auto simp: quietMove_def votesInv_def)
  show "votesInv ps (castVote H i r) (updateNode i r es c)" "extends H (castVote H i r)"
    by (rule votesInv_updateNode [OF assms(1) m l])+
qed

section \<open>Every action keeps it\<close>

text \<open>The history may grow, by votes of the nodes' terms at the time; what it says already stays.\<close>

definition votesNext :: "(int \<times> string) list \<Rightarrow> Ballots \<Rightarrow> Cluster \<Rightarrow> bool" where
  "votesNext ps H c' \<longleftrightarrow> (\<exists>H'. extends H H' \<and> votesInv ps H' c'
     \<and> (\<forall>v t. t \<noteq> currentTerm (nodes c' v) \<longrightarrow> H' v t = H v t))"

lemma votesNext_same: "votesInv ps H c' \<Longrightarrow> votesNext ps H c'"
  unfolding votesNext_def by (intro exI [of _ H]) simp

lemma votesNext_cast:
  "extends H (castVote H i r) \<Longrightarrow> votesInv ps (castVote H i r) c' \<Longrightarrow> nodes c' i = r \<Longrightarrow> votesNext ps H c'"
  unfolding votesNext_def by (intro exI [of _ "castVote H i r"]) (auto simp: castVote_def)

lemma votesInv_firing:
  "votesInv ps H c \<Longrightarrow> set fs \<subseteq> fst ` set ps \<Longrightarrow> votesInv ps H (c\<lparr>firing := fs\<rparr>)"
  by (simp add: votesInv_def configOk_def)

lemma votesInv_replications [simp]: "votesInv ps H (c\<lparr>replications := rs\<rparr>) = votesInv ps H c"
  by (simp add: votesInv_def configOk_def)

lemma votesInv_elections:
  "votesInv ps H c \<Longrightarrow> \<forall>el \<in> set els. electionOk ps H el \<Longrightarrow> votesInv ps H (c\<lparr>elections := els\<rparr>)"
  by (simp add: votesInv_def configOk_def)

lemma votesInvD:
  assumes "votesInv ps H c"
  shows "members c = map fst ps" and "set (firing c) \<subseteq> fst ` set ps"
    and "peers (nodes c i) = ps" and "nodeOk H i (nodes c i)"
    and "el \<in> set (elections c) \<Longrightarrow> electionOk ps H el"
    and "state (nodes c i) = Leader \<Longrightarrow> won ps H i (currentTerm (nodes c i))"
    and "localTransport c = NewLocalTransport (map_of (map (\<lambda>(p, a). (a, p)) ps))"
  using assms by (auto simp: votesInv_def configOk_def)

lemma updateNode_simps [simp]:
  "elections (updateNode i r es c) = elections c"
  "replications (updateNode i r es c) = replications c"
  "localTransport (updateNode i r es c) = localTransport c" "firing (updateNode i r es c) = firing c"
  "members (updateNode i r es c) = members c"
  "nodes (updateNode i r es c) = (nodes c)(i := r)"
  by (simp_all add: updateNode_def)

lemma voteCall_SomeD:
  assumes "voteCall e j c = Some (el, p, a, s)"
  shows "el \<in> set (elections c)" and "el = elections c ! e" and "e < length (elections c)"
    and "j < length (elCalls el)" and "elCalls el ! j = (p, a, s)"
    and "(p, a, s) \<in> set (elCalls el)"
proof -
  show *: "el = elections c ! e" "e < length (elections c)" "j < length (elCalls el)"
    "elCalls el ! j = (p, a, s)"
    using assms by (auto simp: voteCall_def split: if_splits)
  then show "el \<in> set (elections c)" by simp
  from * show "(p, a, s) \<in> set (elCalls el)" by (metis nth_mem)
qed

text \<open>Changing the state of call \<open>j\<close>, not yet finished.\<close>

lemma finished_update:
  assumes "xs ! j = (p, a, s0)" and "s0 \<noteq> Finished"
  shows "{q. \<exists>b. (q, b, Finished) \<in> set xs} \<subseteq> {q. \<exists>b. (q, b, Finished) \<in> set (xs[j := x])}"
proof clarify
  fix q b assume "(q, b, Finished) \<in> set xs"
  then obtain k where k: "k < length xs" "xs ! k = (q, b, Finished)" by (auto simp: in_set_conv_nth)
  with assms have "k \<noteq> j" by auto
  with k have "xs[j := x] ! k = (q, b, Finished)" by simp
  with k(1) show "\<exists>b. (q, b, Finished) \<in> set (xs[j := x])"
    by (metis length_list_update nth_mem)
qed

lemma map_fst_update: "xs ! j = (p, y) \<Longrightarrow> map fst (xs[j := (p, z)]) = map fst xs"
  using list_update_id [of "map fst xs" j] by (cases "j < length xs") (auto simp: map_update list_update_beyond)

lemma electionOk_setCall:
  assumes "electionOk ps H el" and "j < length (elCalls el)" and "elCalls el ! j = (p, a, s0)"
    and "s0 \<noteq> Finished" and "callOk H (elCandidate el) (rvTerm (elArgs el)) p s"
    and "n = elVotes el \<or>
      s = Finished \<and> n = Suc (elVotes el) \<and> H p (rvTerm (elArgs el)) = Some (elCandidate el)"
  shows "electionOk ps H (el\<lparr>elCalls := (elCalls el)[j := (p, a, s)], elVotes := n\<rparr>)"
proof -
  let ?xs = "elCalls el" and ?ys = "(elCalls el)[j := (p, a, s)]"
  let ?F = "\<lambda>xs. {q. \<exists>b. (q, b, Finished) \<in> set xs}"
  have dist: "distinct (map fst ?xs)" using assms(1) by (simp add: electionOk_def)
  have mem: "(p, a, s0) \<in> set ?xs" using assms(2,3) by (metis nth_mem)
  obtain V where V: "V \<subseteq> ?F ?xs" "elVotes el = Suc (card V)"
    "\<forall>v \<in> V. H v (rvTerm (elArgs el)) = Some (elCandidate el)"
    using assms(1) by (auto simp: electionOk_def)
  have sub: "?F ?xs \<subseteq> ?F ?ys" by (rule finished_update [OF assms(3,4)])
  have fin: "finite V"
    using V(1) by (rule finite_subset) (rule finite_subset [of _ "fst ` set ?xs"], force, simp)
  have "\<exists>V. V \<subseteq> ?F ?ys \<and> n = Suc (card V)
      \<and> (\<forall>v \<in> V. H v (rvTerm (elArgs el)) = Some (elCandidate el))"
    using assms(6)
  proof
    assume "n = elVotes el"
    with V sub show ?thesis by (intro exI [of _ V] conjI subset_trans [OF V(1) sub]) auto
  next
    assume g: "s = Finished \<and> n = Suc (elVotes el) \<and> H p (rvTerm (elArgs el)) = Some (elCandidate el)"
    have "p \<notin> ?F ?xs"
      using dist mem assms(4) by (auto dest: eq_key_imp_eq_value)
    then have "p \<notin> V" using V(1) by auto
    moreover have "p \<in> ?F ?ys" using g assms(2) by (auto intro: set_update_memI)
    ultimately show ?thesis
      using V sub g fin by (intro exI [of _ "insert p V"]) auto
  qed
  moreover have "map fst ?ys = map fst ?xs" using assms(3) by (rule map_fst_update)
  moreover have "\<forall>(q, b, s) \<in> set ?ys. (q, b) \<in> set ps \<and> q \<noteq> elCandidate el
      \<and> callOk H (elCandidate el) (rvTerm (elArgs el)) q s"
    using assms(1,5) mem set_update_subset_insert [of ?xs j "(p, a, s)"]
    unfolding electionOk_def by fastforce
  ultimately show ?thesis using assms(1) dist unfolding electionOk_def by simp
qed

lemma votesInv_setCall:
  assumes "votesInv ps H c" and "voteCall e j c = Some (el, p, a, s0)" and "s0 \<noteq> Finished"
    and "callOk H (elCandidate el) (rvTerm (elArgs el)) p s"
  shows "votesInv ps H (setVoteCall e j s c)"
proof -
  note v = voteCall_SomeD [OF assms(2)]
  have "electionOk ps H (el\<lparr>elCalls := (elCalls el)[j := (p, a, s)]\<rparr>)"
    using electionOk_setCall [OF votesInvD(5) [OF assms(1) v(1)] v(4,5) assms(3,4), of "elVotes el"]
    by simp
  then have "\<forall>x \<in> set ((elections c)[e := el\<lparr>elCalls := (elCalls el)[j := (p, a, s)]\<rparr>]).
      electionOk ps H x"
    using votesInvD(5) [OF assms(1)] set_update_subset_insert by fastforce
  with assms(1) show ?thesis
    using v by (simp add: setVoteCall_def Let_def votesInv_elections)
qed

end
