(* ===== verification/Election_Safety.thy ===== *)
theory Election_Safety
  imports Vote_Invariant
begin

text \<open>
  At most one leader per term, for every run of the cluster in which no node is restarted: each
  action keeps the invariant of \<open>Vote_Invariant\<close>, and terms stay below their 64-bit limit
  because an action raises the largest term by at most one. A restart breaks it: the run at the
  end of this theory has two leaders in one term.
\<close>

section \<open>Elections\<close>

lemma voteCallsOf_append [simp]: "voteCallsOf (xs @ ys) = voteCallsOf xs @ voteCallsOf ys"
  by (induction xs rule: voteCallsOf.induct) simp_all

lemma voteCallsOf_emitEvent [simp]: "voteCallsOf (emitEvent r t m p i) = []"
  by (simp add: emitEvent_def split: option.splits)

lemma voteCallsOf_sends:
  "voteCallsOf (map (\<lambda>(p, a). GoRequestVote p a args) xs) = map (\<lambda>(p, a). (p, a, Sent)) xs"
  by (induction xs) auto

lemma voteCallsOf_startElection:
  "voteCallsOf (snd (startElection r)) =
    map (\<lambda>(p, a). (p, a, Sent)) (filter (\<lambda>(p, _). p \<noteq> nodeId r) (peers r))"
  by (simp add: startElection_def becomeCandidate_def resetElectionTimer_def Let_def voteCallsOf_sends)

lemma peersOk_nonneg: "peersOk ps \<Longrightarrow> p \<in> fst ` set ps \<Longrightarrow> p \<noteq> -1"
  by (auto simp: peersOk_def)

lemma timerFires_votes:
  assumes "votesInv ps H c" and "i \<in> set (members c)" and "timerFires i c = Some c'"
  shows "votesNext ps H c'"
proof -
  let ?r = "fst (timerFired (nodes c i))"
  obtain fs where c': "c' = (updateNode i ?r [] c)\<lparr>firing := fs\<rparr>" and fs: "set fs \<subseteq> insert i (set (firing c))"
    using assms(3) by (auto simp: timerFires_def split: if_splits prod.splits)
  have "set fs \<subseteq> fst ` set ps" using fs votesInvD(1,2) [OF assms(1)] assms(2) by auto
  with votesInv_quiet [OF assms(1) timerFired_quiet] show ?thesis
    by (intro votesNext_cast [of H i ?r]) (simp_all add: c' votesInv_firing)
qed

lemma electionOk_new:
  assumes "peersOk ps" and "i \<in> fst ` set ps" and "peers r = ps" and "nodeId r = i"
    and "H i (currentTerm r') = Some i" and "r' = fst (startElection r)"
  shows "electionOk ps H \<lparr>elCandidate = i, elArgs = electionArgs r', elVotes = initialVotes,
    elCalls = voteCallsOf (snd (startElection r))\<rparr>"
proof -
  have "distinct (map fst (filter (\<lambda>(p, _). p \<noteq> i) ps))"
    using assms(1) by (auto simp: peersOk_def distinct_map intro: inj_on_subset)
  then have "distinct (map fst (map (\<lambda>(p, a). (p, a, Sent)) (filter (\<lambda>(p, _). p \<noteq> i) ps)))"
    by (simp add: comp_def case_prod_unfold)
  moreover have "nodeId r' = i" using assms(4,6) by (simp add: startElection_moved)
  ultimately show ?thesis
    using assms by (auto simp: electionOk_def electionArgs_def voteCallsOf_startElection Let_def
        callOk_def initialVotes_def)
qed

lemma beginElection_votes:
  assumes "votesInv ps H c" and "peersOk ps" and "beginElection i c = Some c'"
    and "unat (currentTerm (nodes c i)) < 18446744073709551615"
  shows "votesNext ps H c'"
proof -
  let ?r = "fst (startElection (nodes c i))" and ?es = "snd (startElection (nodes c i))"
  let ?H = "castVote H i ?r"
  let ?el = "\<lparr>elCandidate = i, elArgs = electionArgs ?r, elVotes = initialVotes, elCalls = voteCallsOf ?es\<rparr>"
  have c': "c' = (updateNode i ?r ?es c)\<lparr>firing := remove1 i (firing c), elections := elections c @ [?el]\<rparr>"
    and i: "i \<in> fst ` set ps"
    using assms(3) votesInvD(2) [OF assms(1)]
    by (auto simp: beginElection_def split: if_splits prod.splits)
  note q = votesInv_quiet [OF assms(1) startElection_quiet [OF assms(4)]]
  have id: "nodeId (nodes c i) = i" using votesInvD(4) [OF assms(1)] by (simp add: nodeOk_def)
  have "?H i (currentTerm ?r) = Some i"
    using peersOk_nonneg [OF assms(2) i] id by (simp add: castVote_def startElection_moved)
  then have "electionOk ps ?H ?el"
    by (intro electionOk_new [OF assms(2) i votesInvD(3) [OF assms(1)] id]) simp_all
  moreover have "set (remove1 i (firing c)) \<subseteq> fst ` set ps"
    using votesInvD(2) [OF assms(1)] set_remove1_subset by fastforce
  ultimately have "votesInv ps ?H c'"
    unfolding c' using votesInvD(5) [OF q(1) [of ?es]]
    by (intro votesInv_elections votesInv_firing q) auto
  with q(2) show ?thesis by (rule votesNext_cast) (simp add: c')
qed

section \<open>Vote requests\<close>

lemma voteCall_updateNode [simp]: "voteCall e j (updateNode i r es c) = voteCall e j c"
  by (simp add: voteCall_def)

lemma electionOk_callOk:
  "electionOk ps H el \<Longrightarrow> (p, a, s) \<in> set (elCalls el) \<Longrightarrow>
    (p, a) \<in> set ps \<and> p \<noteq> elCandidate el \<and> callOk H (elCandidate el) (rvTerm (elArgs el)) p s"
  unfolding electionOk_def by blast

lemma endpoint_of_peer:
  assumes "peersOk ps" and "(p, a) \<in> set ps"
  shows "map_of (map (\<lambda>(p, a). (a, p)) ps) a = Some p"
  using assms by (force simp: peersOk_def comp_def case_prod_unfold map_of_eq_Some_iff)

lemma admitVote_votes:
  assumes "votesInv ps H c" and "peersOk ps" and "admitVote e j c = Some c'"
  shows "votesNext ps H c'"
proof -
  obtain el p a where v: "voteCall e j c = Some (el, p, a, Sent)"
    and c': "c' = setVoteCall e j (admitCall (localTransport c) (nodes c) a) c"
    using assms(3) by (auto simp: admitVote_def split: option.splits prod.splits Call.splits)
  have "(p, a) \<in> set ps"
    using electionOk_callOk [OF votesInvD(5) [OF assms(1) voteCall_SomeD(1) [OF v]] voteCall_SomeD(6) [OF v]]
    by simp
  then have "endpoints (localTransport c) a = Some p"
    using endpoint_of_peer [OF assms(2)] by (simp add: votesInvD(7) [OF assms(1)] NewLocalTransport_def)
  then show ?thesis
    unfolding c' by (intro votesNext_same votesInv_setCall [OF assms(1) v])
      (auto simp: callOk_def admitCall_def admit_def)
qed

lemma RequestVote_granted:
  "rvrVoteGranted (snd (RequestVote args r)) \<Longrightarrow>
    votedFor (fst (RequestVote args r)) = rvCandidateID args
    \<and> currentTerm (fst (RequestVote args r)) = rvTerm args"
  by (cases rule: RequestVote_cases [of args r]) (auto split: if_splits)

lemma handleVote_votes:
  assumes "votesInv ps H c" and "peersOk ps" and "handleVote e j c = Some c'"
  shows "votesNext ps H c'"
proof -
  obtain el p a i where v: "voteCall e j c = Some (el, p, a, Admitted i)"
    and c': "c' = setVoteCall e j (Returned (Inr (snd (RequestVote (elArgs el) (nodes c i)))))
      (updateNode i (fst (RequestVote (elArgs el) (nodes c i))) [] c)"
    using assms(3) by (auto simp: handleVote_def split: option.splits prod.splits Call.splits)
  let ?rv = "RequestVote (elArgs el) (nodes c i)"
  let ?H = "castVote H i (fst ?rv)"
  have el: "electionOk ps H el" by (rule votesInvD(5) [OF assms(1) voteCall_SomeD(1) [OF v]])
  then have ip: "i = p" using electionOk_callOk [OF _ voteCall_SomeD(6) [OF v]] by (simp add: callOk_def)
  note q = votesInv_quiet [OF assms(1) RequestVote_quiet, of i "elArgs el"]
  have "elCandidate el \<noteq> -1" "rvCandidateID (elArgs el) = elCandidate el"
    using el peersOk_nonneg [OF assms(2)] by (auto simp: electionOk_def)
  then have "callOk ?H (elCandidate el) (rvTerm (elArgs el)) p (Returned (Inr (snd ?rv)))"
    using RequestVote_granted [of "elArgs el" "nodes c i"] by (simp add: callOk_def castVote_def ip)
  moreover have "voteCall e j (updateNode i (fst ?rv) [] c) = Some (el, p, a, Admitted i)"
    using v by simp
  ultimately have "votesInv ps ?H c'"
    unfolding c' by (intro votesInv_setCall [OF q(1)]) auto
  with q(2) show ?thesis by (rule votesNext_cast) (simp add: c' setVoteCall_def Let_def)
qed

lemma loseVote_votes:
  assumes "votesInv ps H c" and "loseVote e j c = Some c'"
  shows "votesNext ps H c'"
proof -
  obtain el p a s where v: "voteCall e j c = Some (el, p, a, s)" "s \<noteq> Finished"
    and c': "c' = setVoteCall e j (Returned (Inl (Errorf ''no answer''))) c"
    using assms(2) by (auto simp: loseVote_def split: option.splits prod.splits if_splits)
  show ?thesis unfolding c'
    by (intro votesNext_same votesInv_setCall [OF assms(1) v]) (simp add: callOk_def)
qed

text \<open>A candidate and the voters it has counted, as many as \<open>votes\<close>.\<close>

lemma electionOk_backers:
  assumes "electionOk ps H el"
  shows "\<exists>Q. Q \<subseteq> fst ` set ps \<and> card Q = elVotes el
    \<and> (\<forall>q \<in> Q. H q (rvTerm (elArgs el)) = Some (elCandidate el))"
proof -
  obtain V where V: "V \<subseteq> {p. \<exists>a. (p, a, Finished) \<in> set (elCalls el)}" "elVotes el = Suc (card V)"
    "\<forall>v \<in> V. H v (rvTerm (elArgs el)) = Some (elCandidate el)"
    using assms by (auto simp: electionOk_def)
  have *: "p \<in> fst ` set ps \<and> p \<noteq> elCandidate el" if "p \<in> V" for p
    using that V(1) electionOk_callOk [OF assms] by force
  then have "V \<subseteq> fst ` set ps" "elCandidate el \<notin> V" by auto
  moreover from this(1) have "finite V" by (rule finite_subset) simp
  ultimately show ?thesis
    using assms V by (intro exI [of _ "insert (elCandidate el) V"]) (auto simp: electionOk_def)
qed

lemma finishVote_votes:
  assumes "votesInv ps H c" and "finishVote e j c = Some c'"
  shows "votesNext ps H c'"
proof -
  obtain el p a result where v: "voteCall e j c = Some (el, p, a, Returned result)"
    using assms(2) by (auto simp: finishVote_def split: option.splits prod.splits Call.splits)
  note el = voteCall_SomeD [OF v]
  let ?i = "elCandidate el"
  let ?r = "nodes c ?i"
  obtain r votes es where vr: "voteReply (elArgs el) p result (elVotes el) ?r = (r, votes, es)"
    by (metis prod_cases3)
  let ?el = "el\<lparr>elCalls := (elCalls el)[j := (p, a, Finished)], elVotes := votes\<rparr>"
  have c': "c' = (updateNode ?i r es c)\<lparr>elections := (elections c)[e := ?el]\<rparr>"
    using assms(2) v vr el(2-5) by (simp add: finishVote_def setVoteCall_def Let_def)
  have ok: "electionOk ps H el" by (rule votesInvD(5) [OF assms(1) el(1)])
  have setCall: "electionOk ps H (el\<lparr>elCalls := (elCalls el)[j := (p, a, Finished)], elVotes := n\<rparr>)"
    if "n = elVotes el \<or> n = Suc (elVotes el) \<and> H p (rvTerm (elArgs el)) = Some ?i" for n
    using that by (intro electionOk_setCall [OF ok el(4,5)]) (auto simp: callOk_def)
  have granted: "H p (rvTerm (elArgs el)) = Some ?i"
    if "result = Inr reply" "rvrVoteGranted reply" for reply
    using that electionOk_callOk [OF ok el(6)] by (simp add: callOk_def)
  have "electionOk ps H ?el \<and> votesMove ?r r
      \<and> (state r = Leader \<longrightarrow> won ps (castVote H ?i r) ?i (currentTerm r))"
  proof (cases rule: voteReply_cases [of "elArgs el" p result "elVotes el" ?r])
    case stay
    then have "r = ?r" "votes = elVotes el" using vr by simp_all
    moreover from this have "extends H (castVote H ?i r)"
      using castVote_ok(2) [OF votesInvD(4) [OF assms(1)], of ?i r] by (simp add: votesMove_def)
    ultimately show ?thesis
      using setCall [of votes] votesInvD(6) [OF assms(1), of ?i] won_extends by (auto simp: votesMove_def)
  next
    case (down reply es)
    then show ?thesis using vr setCall [of votes] by (auto simp: votesMove_def)
  next
    case (counted reply es)
    then have r: "r = ?r" "votes = Suc (elVotes el)" using vr by simp_all
    then show ?thesis using counted setCall [of votes] granted [OF counted(1,2)]
      by (simp add: votesMove_def)
  next
    case (elected reply es)
    then have r: "r = fst (becomeLeader ?r)" "votes = Suc (elVotes el)" using vr by simp_all
    have el': "electionOk ps H ?el" using setCall [of votes] granted [OF elected(1,2)] r by simp
    have mv: "votesMove ?r r" by (simp add: r votesMove_def)
    from electionOk_backers [OF el'] obtain Q where "Q \<subseteq> fst ` set ps" "card Q = votes"
      "\<forall>q \<in> Q. H q (currentTerm r) = Some ?i" using elected(4) by (auto simp: r)
    then have "won ps H ?i (currentTerm r)"
      unfolding won_def using elected(5) votesInvD(3) [OF assms(1), of ?i] r(2)
      by (intro exI [of _ Q] exI [of _ ?r]) simp
    then have "won ps (castVote H ?i r) ?i (currentTerm r)"
      by (rule won_extends) (rule castVote_ok(2) [OF votesInvD(4) [OF assms(1)] mv])
    with el' mv show ?thesis by blast
  qed
  then have new: "electionOk ps H ?el" and mv: "votesMove ?r r"
    and win: "state r = Leader \<longrightarrow> won ps (castVote H ?i r) ?i (currentTerm r)" by blast+
  note q = votesInv_updateNode [OF assms(1) mv win]
  have "\<forall>x \<in> set ((elections c)[e := ?el]). electionOk ps (castVote H ?i r) x"
    using votesInvD(5) [OF assms(1)] new electionOk_extends [OF _ q(2)]
      set_update_subset_insert [of "elections c" e ?el] by blast
  then have "votesInv ps (castVote H ?i r) c'"
    unfolding c' by (intro votesInv_elections [OF q(1)]) simp
  with q(2) show ?thesis by (rule votesNext_cast) (simp add: c')
qed

section \<open>Replication and the rest\<close>

lemma votesNext_quiet:
  "votesInv ps H c \<Longrightarrow> quietMove (nodes c i) r \<Longrightarrow> votesNext ps H (updateNode i r es c)"
  by (rule votesNext_cast [of H i r], rule votesInv_quiet(2), assumption+, rule votesInv_quiet(1), assumption+) simp

lemma votesNext_setAppendCall [simp]: "votesNext ps H (setAppendCall k s c) = votesNext ps H c"
  by (simp add: votesNext_def setAppendCall_def)

lemma appendCall_SomeD:
  assumes "appendCall k c = Some (rp, s)"
  shows "k < length (replications c)" and "rp = replications c ! k" and "s = rpCall rp"
    and "rp \<in> set (replications c)"
  using assms by (auto simp: appendCall_def split: if_splits)

lemma appendCall_updateNode [simp]: "appendCall k (updateNode i r es c) = appendCall k c"
  by (simp add: appendCall_def)

lemma handleAppend_cases:
  assumes "handleAppend k c = Some c'"
  obtains rp i r es reply where "appendCall k c = Some (rp, Admitted i)"
    "AppendEntries (rpArgs rp) (nodes c i) = (r, es, reply)"
    "c' = setAppendCall k (Returned (Inr reply)) (updateNode i r es c)"
  using assms by (auto simp: handleAppend_def split: option.splits prod.splits Call.splits)

lemma finishAppend_cases:
  assumes "finishAppend k c = Some c'"
  obtains rp result r es where "appendCall k c = Some (rp, Returned result)"
    "appendReply (rpArgs rp) (rpPeer rp) result (nodes c (rpLeader rp)) = (r, es)"
    "c' = setAppendCall k Finished (updateNode (rpLeader rp) r es c)"
  using assms by (auto simp: finishAppend_def split: option.splits prod.splits Call.splits)

lemma handleAppend_votes:
  assumes "votesInv ps H c" and "handleAppend k c = Some c'"
  shows "votesNext ps H c'"
  using assms(2)
proof (cases rule: handleAppend_cases)
  case (1 rp i r es reply)
  then have "quietMove (nodes c i) r" using AppendEntries_quiet [of "nodes c i" "rpArgs rp"] by simp
  then show ?thesis using 1(3) by (simp add: votesNext_quiet [OF assms(1)])
qed

lemma finishAppend_votes:
  assumes "votesInv ps H c" and "finishAppend k c = Some c'"
  shows "votesNext ps H c'"
  using assms(2)
proof (cases rule: finishAppend_cases)
  case (1 rp result r es)
  then have "quietMove (nodes c (rpLeader rp)) r"
    using appendReply_quiet [of "nodes c (rpLeader rp)" "rpArgs rp" "rpPeer rp" result] by simp
  then show ?thesis using 1(3) by (simp add: votesNext_quiet [OF assms(1)])
qed

lemma admitAppend_votes:
  "votesInv ps H c \<Longrightarrow> admitAppend k c = Some c' \<Longrightarrow> votesNext ps H c'"
  by (auto simp: admitAppend_def votesNext_same split: option.splits prod.splits Call.splits)

lemma loseAppend_votes:
  "votesInv ps H c \<Longrightarrow> loseAppend k c = Some c' \<Longrightarrow> votesNext ps H c'"
  by (auto simp: loseAppend_def votesNext_same split: option.splits prod.splits if_splits)

lemma clientStart_votes: "votesInv ps H c \<Longrightarrow> votesNext ps H (clientStart i cmd c)"
  using votesNext_quiet [OF _ Start_quiet] by (simp add: clientStart_def split: prod.splits) (metis fst_conv)

lemma stopNode_votes: "votesInv ps H c \<Longrightarrow> votesNext ps H (stopNode i c)"
  using votesNext_quiet [OF _ Stop_quiet] by (simp add: stopNode_def split: prod.splits) (metis fst_conv)

fun isRestart :: "Action \<Rightarrow> bool" where
  "isRestart (RestartNode i) = True"
| "isRestart a = False"

lemma perform_votes:
  assumes "votesInv ps H c" and "peersOk ps" and "perform a c = Some c'" and "\<not> isRestart a"
    and "\<And>i. unat (currentTerm (nodes c i)) < 18446744073709551615"
  shows "votesNext ps H c'"
proof (cases a)
  case (TimerFires i)
  then show ?thesis using assms timerFires_votes [OF assms(1)] by (simp split: if_splits)
next
  case (BeginElection i)
  then show ?thesis using assms beginElection_votes by simp
next
  case (AdmitVote e j)
  then show ?thesis using assms admitVote_votes by simp
next
  case (HandleVote e j)
  then show ?thesis using assms handleVote_votes by simp
next
  case (LoseVote e j)
  then show ?thesis using assms loseVote_votes by simp
next
  case (FinishVote e j)
  then show ?thesis using assms finishVote_votes by simp
next
  case (Heartbeat i)
  then show ?thesis using assms by (auto simp: heartbeat_def votesNext_same split: if_splits)
next
  case (AdmitAppend k)
  then show ?thesis using assms admitAppend_votes by simp
next
  case (HandleAppend k)
  then show ?thesis using assms handleAppend_votes by simp
next
  case (LoseAppend k)
  then show ?thesis using assms loseAppend_votes by simp
next
  case (FinishAppend k)
  then show ?thesis using assms finishAppend_votes by simp
next
  case (ClientStart i cmd)
  then show ?thesis using assms clientStart_votes by (auto split: if_splits)
next
  case (StopNode i)
  then show ?thesis using assms stopNode_votes by (auto split: if_splits)
next
  case (RestartNode i)
  then show ?thesis using assms(4) by simp
qed

section \<open>Terms are bounded by the number of actions\<close>

definition callTermBelow :: "nat \<Rightarrow> RequestVoteReply Call \<Rightarrow> bool" where
  "callTermBelow n s \<longleftrightarrow> (\<forall>reply. s = Returned (Inr reply) \<longrightarrow> unat (rvrTerm reply) \<le> n)"

definition electionBelow :: "nat \<Rightarrow> Election \<Rightarrow> bool" where
  "electionBelow n el \<longleftrightarrow> unat (rvTerm (elArgs el)) \<le> n
     \<and> (\<forall>(p, a, s) \<in> set (elCalls el). callTermBelow n s)"

definition replicationBelow :: "nat \<Rightarrow> Replication \<Rightarrow> bool" where
  "replicationBelow n rp \<longleftrightarrow> unat (aeTerm (rpArgs rp)) \<le> n
     \<and> (\<forall>reply. rpCall rp = Returned (Inr reply) \<longrightarrow> unat (aerTerm reply) \<le> n)"

definition termsBelow :: "nat \<Rightarrow> Cluster \<Rightarrow> bool" where
  "termsBelow n c \<longleftrightarrow> (\<forall>i. unat (currentTerm (nodes c i)) \<le> n)
     \<and> (\<forall>el \<in> set (elections c). electionBelow n el)
     \<and> (\<forall>rp \<in> set (replications c). replicationBelow n rp)"

lemma callTermBelow_mono: "callTermBelow n s \<Longrightarrow> n \<le> m \<Longrightarrow> callTermBelow m s"
  by (auto simp: callTermBelow_def)

lemma electionBelow_mono: "electionBelow n el \<Longrightarrow> n \<le> m \<Longrightarrow> electionBelow m el"
  unfolding electionBelow_def by (auto intro: callTermBelow_mono)

lemma replicationBelow_mono: "replicationBelow n rp \<Longrightarrow> n \<le> m \<Longrightarrow> replicationBelow m rp"
  by (auto simp: replicationBelow_def)

lemma termsBelow_mono: "termsBelow n c \<Longrightarrow> n \<le> m \<Longrightarrow> termsBelow m c"
  unfolding termsBelow_def
  by (auto intro: electionBelow_mono replicationBelow_mono order_trans)

lemma termsBelowD:
  assumes "termsBelow n c"
  shows "unat (currentTerm (nodes c i)) \<le> n"
    and "el \<in> set (elections c) \<Longrightarrow> electionBelow n el"
    and "rp \<in> set (replications c) \<Longrightarrow> replicationBelow n rp"
  using assms by (simp_all add: termsBelow_def)

lemma unat_Suc_le: "unat (x + 1) \<le> Suc (unat x)" for x :: uint64
  by (cases "1 + x = 0") (simp_all add: unatSuc add.commute)

lemma termsBelow_updateNode:
  "termsBelow n c \<Longrightarrow> unat (currentTerm r) \<le> n \<Longrightarrow> termsBelow n (updateNode i r es c)"
  by (simp add: termsBelow_def)

lemma termsBelow_elections:
  "termsBelow n c \<Longrightarrow> \<forall>el \<in> set els. electionBelow n el \<Longrightarrow> termsBelow n (c\<lparr>elections := els\<rparr>)"
  by (simp add: termsBelow_def)

lemma termsBelow_replications:
  "termsBelow n c \<Longrightarrow> \<forall>rp \<in> set rps. replicationBelow n rp \<Longrightarrow> termsBelow n (c\<lparr>replications := rps\<rparr>)"
  by (simp add: termsBelow_def)

lemma termsBelow_firing [simp]: "termsBelow n (c\<lparr>firing := fs\<rparr>) = termsBelow n c"
  by (simp add: termsBelow_def)

lemma termsBelow_setVoteCall:
  assumes "termsBelow n c" and "voteCall e j c = Some (el, p, a, s0)" and "callTermBelow n s"
  shows "termsBelow n (setVoteCall e j s c)"
proof -
  note v = voteCall_SomeD [OF assms(2)]
  have "electionBelow n (el\<lparr>elCalls := (elCalls el)[j := x]\<rparr>)" if "callTermBelow n (snd (snd x))" for x
    using termsBelowD(2) [OF assms(1) v(1)] that set_update_subset_insert [of "elCalls el" j x]
    unfolding electionBelow_def by fastforce
  then have "\<forall>y \<in> set ((elections c)[e := el\<lparr>elCalls := (elCalls el)[j := (p, a, s)]\<rparr>]). electionBelow n y"
    using termsBelowD(2) [OF assms(1)] assms(3)
      set_update_subset_insert [of "elections c" e "el\<lparr>elCalls := (elCalls el)[j := (p, a, s)]\<rparr>"]
    by fastforce
  with assms(1) show ?thesis
    using v by (simp add: setVoteCall_def Let_def termsBelow_elections)
qed

lemma termsBelow_setVotes:
  assumes "termsBelow n c"
  shows "termsBelow n (c\<lparr>elections := (elections c)[e := (elections c ! e)\<lparr>elVotes := v\<rparr>]\<rparr>)"
proof (cases "e < length (elections c)")
  case True
  then have "electionBelow n ((elections c ! e)\<lparr>elVotes := v\<rparr>)"
    using termsBelowD(2) [OF assms nth_mem [OF True]] by (simp add: electionBelow_def)
  then show ?thesis
    using assms termsBelowD(2) [OF assms] set_update_subset_insert [of "elections c" e]
    by (intro termsBelow_elections) auto
next
  case False
  then show ?thesis using assms by (simp add: list_update_beyond termsBelow_elections termsBelowD(2))
qed

lemma termsBelow_setAppendCall:
  assumes "termsBelow n c" and "appendCall k c = Some (rp, s0)"
    and "\<forall>reply. s = Returned (Inr reply) \<longrightarrow> unat (aerTerm reply) \<le> n"
  shows "termsBelow n (setAppendCall k s c)"
proof -
  have "replicationBelow n (rp\<lparr>rpCall := s\<rparr>)"
    using termsBelowD(3) [OF assms(1) appendCall_SomeD(4) [OF assms(2)]] assms(3)
    by (simp add: replicationBelow_def)
  then have "\<forall>x \<in> set ((replications c)[k := rp\<lparr>rpCall := s\<rparr>]). replicationBelow n x"
    using termsBelowD(3) [OF assms(1)] set_update_subset_insert [of "replications c" k "rp\<lparr>rpCall := s\<rparr>"]
    by auto
  with assms(1) show ?thesis
    using appendCall_SomeD [OF assms(2)] by (simp add: setAppendCall_def termsBelow_replications)
qed

text \<open>What the handlers make of the terms.\<close>

lemma RequestVote_term:
  "currentTerm (fst (RequestVote args r)) = max (currentTerm r) (rvTerm args)
   \<and> rvrTerm (snd (RequestVote args r)) = max (currentTerm r) (rvTerm args)"
  by (cases rule: RequestVote_cases [of args r]) (auto simp: max_def split: if_splits)

lemma AppendEntries_term:
  "currentTerm (fst (AppendEntries args r)) = max (currentTerm r) (aeTerm args)
   \<and> aerTerm (snd (snd (AppendEntries args r))) = max (currentTerm r) (aeTerm args)"
  by (cases rule: AppendEntries_cases [of args r]) (auto simp: max_def)

lemma unat_max_le: "unat x \<le> n \<Longrightarrow> unat y \<le> n \<Longrightarrow> unat (max x y) \<le> n" for x y :: uint64
  by (simp add: max_def)

lemma voteReply_term:
  assumes "voteReply args p result votes r = (r', votes', es)" and "unat (currentTerm r) \<le> n"
    and "callTermBelow n (Returned result)"
  shows "unat (currentTerm r') \<le> n"
  using assms by (cases rule: voteReply_cases [of args p result votes r]) (auto simp: callTermBelow_def)

lemma appendReply_term:
  assumes "unat (currentTerm r) \<le> n" and "\<forall>reply. result = Inr reply \<longrightarrow> unat (aerTerm reply) \<le> n"
  shows "unat (currentTerm (fst (appendReply args p result r))) \<le> n"
  using assms by (cases rule: appendReply_cases [of args p result r]) auto

lemma appendCallsOf_append [simp]: "appendCallsOf i (xs @ ys) = appendCallsOf i xs @ appendCallsOf i ys"
  by (induction xs rule: appendCallsOf.induct) simp_all

lemma appendCallsOf_emitEvent [simp]: "appendCallsOf i (emitEvent r t m p k) = []"
  by (simp add: emitEvent_def split: option.splits)

lemma appendCallsOf_sendHeartbeats:
  "appendCallsOf i (sendHeartbeats r) =
    (if state r \<noteq> Leader then []
     else map (\<lambda>(p, a). \<lparr>rpLeader = i, rpPeer = p, rpAddress = a, rpArgs = heartbeatArgs r p, rpCall = Sent\<rparr>)
            (filter (\<lambda>(p, _). p \<noteq> nodeId r) (peers r)))"
proof -
  have "appendCallsOf i (concat (map (\<lambda>(p, a). emitEvent r HeartbeatSent (m p) p 0 @ [GoAppendEntries p a (f p)]) xs))
      = map (\<lambda>(p, a). \<lparr>rpLeader = i, rpPeer = p, rpAddress = a, rpArgs = f p, rpCall = Sent\<rparr>) xs"
    for m f xs by (induction xs) auto
  then show ?thesis by (simp add: sendHeartbeats_def)
qed

lemma beginElection_terms:
  assumes "termsBelow n c" and "beginElection i c = Some c'"
  shows "termsBelow (Suc n) c'"
proof -
  let ?r = "fst (startElection (nodes c i))" and ?es = "snd (startElection (nodes c i))"
  let ?el = "\<lparr>elCandidate = i, elArgs = electionArgs ?r, elVotes = initialVotes, elCalls = voteCallsOf ?es\<rparr>"
  have c': "c' = (updateNode i ?r ?es c)\<lparr>firing := remove1 i (firing c), elections := elections c @ [?el]\<rparr>"
    using assms(2) by (auto simp: beginElection_def split: if_splits prod.splits)
  have r: "unat (currentTerm ?r) \<le> Suc n"
    using unat_Suc_le [of "currentTerm (nodes c i)"] termsBelowD(1) [OF assms(1), of i]
    by (simp add: startElection_moved)
  then have "electionBelow (Suc n) ?el"
    by (auto simp: electionBelow_def electionArgs_def Let_def voteCallsOf_startElection callTermBelow_def)
  moreover have *: "termsBelow (Suc n) c" using assms(1) by (rule termsBelow_mono) simp
  ultimately show ?thesis unfolding c' using r
    by (intro termsBelow_elections) (auto simp: termsBelow_updateNode termsBelowD(2))
qed

lemma handleVote_terms:
  assumes "termsBelow n c" and "handleVote e j c = Some c'"
  shows "termsBelow n c'"
proof -
  obtain el p a i r reply where v: "voteCall e j c = Some (el, p, a, Admitted i)"
    and rv: "RequestVote (elArgs el) (nodes c i) = (r, reply)"
    and c': "c' = setVoteCall e j (Returned (Inr reply)) (updateNode i r [] c)"
    using assms(2) by (auto simp: handleVote_def split: option.splits prod.splits Call.splits)
  have "unat (rvTerm (elArgs el)) \<le> n"
    using termsBelowD(2) [OF assms(1) voteCall_SomeD(1) [OF v]] by (simp add: electionBelow_def)
  then have "unat (max (currentTerm (nodes c i)) (rvTerm (elArgs el))) \<le> n"
    by (intro unat_max_le termsBelowD(1) [OF assms(1)])
  then have "unat (currentTerm r) \<le> n" "unat (rvrTerm reply) \<le> n"
    using RequestVote_term [of "elArgs el" "nodes c i"] rv by simp_all
  moreover have "voteCall e j (updateNode i r [] c) = Some (el, p, a, Admitted i)" using v by simp
  ultimately show ?thesis
    unfolding c' by (intro termsBelow_setVoteCall termsBelow_updateNode [OF assms(1)])
      (simp_all add: callTermBelow_def)
qed

lemma finishVote_terms:
  assumes "termsBelow n c" and "finishVote e j c = Some c'"
  shows "termsBelow n c'"
proof -
  obtain el p a result r votes es where v: "voteCall e j c = Some (el, p, a, Returned result)"
    and vr: "voteReply (elArgs el) p result (elVotes el) (nodes c (elCandidate el)) = (r, votes, es)"
    and c': "c' = (let c1 = setVoteCall e j Finished (updateNode (elCandidate el) r es c)
      in c1\<lparr>elections := (elections c1)[e := (elections c1 ! e)\<lparr>elVotes := votes\<rparr>]\<rparr>)"
    using assms(2)
    by (auto simp: finishVote_def Let_def split: option.splits prod.splits Call.splits)
  have "callTermBelow n (Returned result)"
    using termsBelowD(2) [OF assms(1) voteCall_SomeD(1) [OF v]] voteCall_SomeD(6) [OF v]
    by (auto simp: electionBelow_def)
  with vr have "unat (currentTerm r) \<le> n"
    by (rule voteReply_term [OF _ termsBelowD(1) [OF assms(1)]])
  moreover have "voteCall e j (updateNode (elCandidate el) r es c) = Some (el, p, a, Returned result)"
    using v by simp
  ultimately show ?thesis
    unfolding c' Let_def
    by (intro termsBelow_setVotes termsBelow_setVoteCall termsBelow_updateNode [OF assms(1)])
      (simp_all add: callTermBelow_def)
qed

lemma handleAppend_terms:
  assumes "termsBelow n c" and "handleAppend k c = Some c'"
  shows "termsBelow n c'"
  using assms(2)
proof (cases rule: handleAppend_cases)
  case (1 rp i r es reply)
  have "unat (aeTerm (rpArgs rp)) \<le> n"
    using termsBelowD(3) [OF assms(1) appendCall_SomeD(4) [OF 1(1)]] by (simp add: replicationBelow_def)
  then have "unat (max (currentTerm (nodes c i)) (aeTerm (rpArgs rp))) \<le> n"
    by (intro unat_max_le termsBelowD(1) [OF assms(1)])
  then have "unat (currentTerm r) \<le> n" "unat (aerTerm reply) \<le> n"
    using AppendEntries_term [of "rpArgs rp" "nodes c i"] 1(2) by simp_all
  moreover have "appendCall k (updateNode i r es c) = Some (rp, Admitted i)"
    using 1(1) by simp
  ultimately show ?thesis
    unfolding 1(3) by (intro termsBelow_setAppendCall termsBelow_updateNode [OF assms(1)]) simp_all
qed

lemma finishAppend_terms:
  assumes "termsBelow n c" and "finishAppend k c = Some c'"
  shows "termsBelow n c'"
  using assms(2)
proof (cases rule: finishAppend_cases)
  case (1 rp result r es)
  note a = appendCall_SomeD [OF 1(1)]
  have "\<forall>reply. result = Inr reply \<longrightarrow> unat (aerTerm reply) \<le> n"
    using termsBelowD(3) [OF assms(1) a(4)] a(3) [symmetric] by (simp add: replicationBelow_def)
  then have "unat (currentTerm r) \<le> n"
    using appendReply_term [OF termsBelowD(1) [OF assms(1)], of result] 1(2) by (metis fst_conv)
  moreover have "appendCall k (updateNode (rpLeader rp) r es c) = Some (rp, Returned result)"
    using 1(1) by simp
  ultimately show ?thesis
    unfolding 1(3) by (intro termsBelow_setAppendCall termsBelow_updateNode [OF assms(1)]) simp_all
qed

lemma heartbeat_terms: "termsBelow n c \<Longrightarrow> termsBelow n (heartbeat i c)"
  unfolding heartbeat_def
  by (intro termsBelow_replications)
     (auto simp: appendCallsOf_sendHeartbeats replicationBelow_def heartbeatArgs_def Let_def
       termsBelowD dest: termsBelowD(3))

lemma same_term_updateNode:
  "termsBelow n c \<Longrightarrow> currentTerm r = currentTerm (nodes c i) \<Longrightarrow> termsBelow n (updateNode i r es c)"
  by (simp add: termsBelow_updateNode termsBelowD(1))

lemma admitCall_below: "callTermBelow n (admitCall t ns a)"
  by (simp add: admitCall_def callTermBelow_def split: sum.splits)

lemma admitAppend_terms:
  assumes "termsBelow n c" and "admitAppend k c = Some c'"
  shows "termsBelow n c'"
proof -
  obtain rp where a: "appendCall k c = Some (rp, Sent)"
    and c': "c' = setAppendCall k (admitCall (localTransport c) (nodes c) (rpAddress rp)) c"
    using assms(2) by (auto simp: admitAppend_def split: option.splits prod.splits Call.splits)
  show ?thesis unfolding c'
    by (rule termsBelow_setAppendCall [OF assms(1) a]) (simp add: admitCall_def split: sum.splits)
qed

lemma loseAppend_terms:
  assumes "termsBelow n c" and "loseAppend k c = Some c'"
  shows "termsBelow n c'"
proof -
  obtain rp s where a: "appendCall k c = Some (rp, s)"
    and c': "c' = setAppendCall k (Returned (Inl (Errorf ''no answer''))) c"
    using assms(2) by (auto simp: loseAppend_def split: option.splits prod.splits if_splits)
  show ?thesis unfolding c' by (rule termsBelow_setAppendCall [OF assms(1) a]) simp
qed

lemma admitVote_terms:
  assumes "termsBelow n c" and "admitVote e j c = Some c'"
  shows "termsBelow n c'"
proof -
  obtain el p a where v: "voteCall e j c = Some (el, p, a, Sent)"
    and c': "c' = setVoteCall e j (admitCall (localTransport c) (nodes c) a) c"
    using assms(2) by (auto simp: admitVote_def split: option.splits prod.splits Call.splits)
  show ?thesis unfolding c' by (rule termsBelow_setVoteCall [OF assms(1) v admitCall_below])
qed

lemma loseVote_terms:
  assumes "termsBelow n c" and "loseVote e j c = Some c'"
  shows "termsBelow n c'"
proof -
  obtain el p a s where v: "voteCall e j c = Some (el, p, a, s)"
    and c': "c' = setVoteCall e j (Returned (Inl (Errorf ''no answer''))) c"
    using assms(2) by (auto simp: loseVote_def split: option.splits prod.splits if_splits)
  show ?thesis unfolding c'
    by (rule termsBelow_setVoteCall [OF assms(1) v]) (simp add: callTermBelow_def)
qed

lemma node_terms:
  "termsBelow n c \<Longrightarrow> timerFires i c = Some c' \<Longrightarrow> termsBelow n c'"
  "termsBelow n c \<Longrightarrow> termsBelow n (clientStart i cmd c)"
  "termsBelow n c \<Longrightarrow> termsBelow n (stopNode i c)"
  "termsBelow n c \<Longrightarrow> termsBelow n (restartNode i c)"
  by (auto simp: timerFires_def timerFired_def clientStart_def Start_def stopNode_def Stop_def
      restartNode_def Restart_def Let_def same_term_updateNode split: if_splits prod.splits)

lemma perform_terms:
  assumes "termsBelow n c" and "perform a c = Some c'"
  shows "termsBelow (Suc n) c'"
proof (cases "\<exists>i. a = BeginElection i")
  case True
  then show ?thesis using assms beginElection_terms by auto
next
  case False
  then have "termsBelow n c'"
    using assms
    by (cases a) (auto split: if_splits intro: node_terms admitVote_terms handleVote_terms
        loseVote_terms finishVote_terms heartbeat_terms admitAppend_terms handleAppend_terms
        loseAppend_terms finishAppend_terms)
  then show ?thesis by (rule termsBelow_mono) simp
qed

section \<open>Runs\<close>

lemma run_votes:
  assumes "run c as c'" and "peersOk ps" and "votesInv ps H c" and "termsBelow n c"
    and "n + length as < 18446744073709551616" and "\<forall>a \<in> set as. \<not> isRestart a"
  shows "(\<exists>H'. extends H H' \<and> votesInv ps H' c') \<and> termsBelow (n + length as) c'"
  using assms
proof (induction rule: run.induct)
  case (run_Nil c)
  then show ?case by (auto intro!: exI [of _ H])
next
  case (run_snoc c as c' a c'')
  then obtain H' where H': "extends H H'" "votesInv ps H' c'" and ih: "termsBelow (n + length as) c'"
    by auto
  have "unat (currentTerm (nodes c' i)) < 18446744073709551615" for i
    using termsBelowD(1) [OF ih, of i] run_snoc.prems(4) by simp
  then have "votesNext ps H' c''"
    using run_snoc.prems by (intro perform_votes [OF H'(2) _ run_snoc.hyps(2)]) simp_all
  then obtain H2 where "extends H' H2" "votesInv ps H2 c''" by (auto simp: votesNext_def)
  with extends_trans [OF H'(1)] perform_terms [OF ih run_snoc.hyps(2)] show ?case by auto
qed

lemma votesInv_boot: "votesInv ps (\<lambda>_ _. None) (bootCluster ps)"
  by (simp add: votesInv_def configOk_def bootCluster_def bootNode_def NewRaftNode_def nodeOk_def
      SetApplyFunc_def SetTransport_def SetPeers_def SetEventBus_def)

lemma termsBelow_boot: "termsBelow 0 (bootCluster ps)"
  by (simp add: termsBelow_def bootCluster_def bootNode_def NewRaftNode_def
      SetApplyFunc_def SetTransport_def SetPeers_def SetEventBus_def)

text \<open>C4. Election safety: in every run of the cluster from its boot in which no node is
  restarted, whatever the order of timeouts, messages, losses, client requests and stops, a
  leader at any moment and a leader of the same term at any later moment are the same node. (The
  bound on the length of the run keeps terms from wrapping around.)\<close>

theorem election_safety:
  assumes "peersOk ps" and "run (bootCluster ps) as c" and "run c bs c'"
    and "\<forall>a \<in> set (as @ bs). \<not> isRestart a" and "length (as @ bs) < 2 ^ 64"
    and "state (nodes c i) = Leader" and "state (nodes c' j) = Leader"
    and "currentTerm (nodes c i) = currentTerm (nodes c' j)"
  shows "i = j"
proof -
  from run_votes [OF assms(2,1) votesInv_boot termsBelow_boot] assms(4,5)
  obtain H where H: "votesInv ps H c" and n: "termsBelow (length as) c" by auto
  from run_votes [OF assms(3,1) H n] assms(4,5)
  obtain H' where H': "extends H H'" "votesInv ps H' c'" by auto
  have "won ps H' i (currentTerm (nodes c i))"
    using won_extends [OF votesInvD(6) [OF H assms(6)] H'(1)] .
  moreover have "won ps H' j (currentTerm (nodes c i))"
    using votesInvD(6) [OF H'(2) assms(7)] assms(8) by simp
  ultimately show ?thesis by (rule won_unique [OF assms(1)])
qed

lemma first_election:
  "map_option (\<lambda>c. (state (nodes c 0), currentTerm (nodes c 0))) (exec (electActions 0 0) (bootCluster peers3))
    = Some (Leader, 1)"
  by code_simp

lemma peersOk_peers3: "peersOk peers3"
  by (simp add: peersOk_def peers3_def)

lemma election_safety_witness:
  "\<exists>c. exec (electActions 0 0) (bootCluster peers3) = Some c \<and> state (nodes c 0) = Leader
    \<and> (\<forall>j. state (nodes c j) = Leader \<longrightarrow> currentTerm (nodes c j) = 1 \<longrightarrow> j = 0)"
proof -
  obtain c where c: "exec (electActions 0 0) (bootCluster peers3) = Some c"
    "state (nodes c 0) = Leader" "currentTerm (nodes c 0) = 1"
    using first_election by auto
  have r: "run (bootCluster peers3) (electActions 0 0) c" by (rule exec_run [OF c(1)])
  have "0 = j" if "state (nodes c j) = Leader" "currentTerm (nodes c j) = 1" for j
    using election_safety [OF peersOk_peers3 r run_Nil _ _ c(2) that(1)] c(3) that(2)
    by (simp add: electActions_def)
  with c show ?thesis by blast
qed

text \<open>C39. Restart gives a node its vote back within the same term (\<open>votedFor\<close> is reset, the
  term is not): node 2 votes for node 0 in term 1, is stopped and restarted through the two node
  handlers, and votes for node 1 in term 1. Both are then leaders of term 1.\<close>

theorem restart_gives_two_leaders:
  "\<exists>as c. run (bootCluster peers3) as c \<and> length (filter isRestart as) = 1
     \<and> state (nodes c 0) = Leader \<and> state (nodes c 1) = Leader
     \<and> currentTerm (nodes c 0) = currentTerm (nodes c 1)"
proof -
  let ?as = "electActions 0 0 @ [StopNode 2, RestartNode 2] @ electActions 1 1"
  have "map_option (\<lambda>c. (state (nodes c 0), state (nodes c 1), currentTerm (nodes c 0), currentTerm (nodes c 1)))
      (exec ?as (bootCluster peers3)) = Some (Leader, Leader, 1, 1)"
    by code_simp
  then obtain c where "exec ?as (bootCluster peers3) = Some c" "state (nodes c 0) = Leader"
    "state (nodes c 1) = Leader" "currentTerm (nodes c 0) = currentTerm (nodes c 1)" by auto
  moreover from this(1) have "run (bootCluster peers3) ?as c" by (rule exec_run)
  ultimately show ?thesis by (intro exI [of _ ?as] exI [of _ c]) (simp add: electActions_def)
qed

end
