(* ===== verification/Log_Matching.thy ===== *)
theory Log_Matching
  imports Election_Safety
begin

text \<open>
  Log matching, for every run without restarts: if two logs hold an entry with the same index
  and term, they are the same up to that entry. The invariant names, for every term that had a
  leader, that leader's log as far as it got (\<open>G\<close>); every log in the cluster and every message
  in flight is explained by these logs.
\<close>

section \<open>Logs explained by leader logs\<close>

type_synonym LeaderLogs = "uint64 \<Rightarrow> LogEntry list option"

definition prefixOk :: "LeaderLogs \<Rightarrow> LogEntry list \<Rightarrow> bool" where
  "prefixOk G l \<longleftrightarrow> (\<forall>k < length l.
     \<exists>g. G (entryTerm (l ! k)) = Some g \<and> take (Suc k) l = take (Suc k) g)"

definition logOk :: "LeaderLogs \<Rightarrow> nat \<Rightarrow> LogEntry list \<Rightarrow> bool" where
  "logOk G n l \<longleftrightarrow> prefixOk G l \<and> numberedFrom 0 l \<and> length l \<le> n"

definition logsExtend :: "LeaderLogs \<Rightarrow> LeaderLogs \<Rightarrow> bool" where
  "logsExtend G G' \<longleftrightarrow> (\<forall>t g. G t = Some g \<longrightarrow> (\<exists>x. G' t = Some (g @ x)))"

lemma logsExtend_refl [simp]: "logsExtend G G"
  by (simp add: logsExtend_def)

lemma prefixOkD:
  assumes "prefixOk G l" and "k < length l"
  obtains g where "G (entryTerm (l ! k)) = Some g" and "take (Suc k) l = take (Suc k) g"
    and "k < length g"
proof -
  obtain g where g: "G (entryTerm (l ! k)) = Some g" "take (Suc k) l = take (Suc k) g"
    using assms by (auto simp: prefixOk_def)
  from arg_cong [OF g(2), of length] assms(2) have "k < length g" by simp
  with g that show ?thesis by blast
qed

lemma prefixOk_extend:
  assumes "prefixOk G l" and "logsExtend G G'"
  shows "prefixOk G' l"
  unfolding prefixOk_def
proof (intro allI impI)
  fix k assume k: "k < length l"
  from prefixOkD [OF assms(1) k] obtain g where g: "G (entryTerm (l ! k)) = Some g"
    "take (Suc k) l = take (Suc k) g" "k < length g" .
  moreover obtain x where "G' (entryTerm (l ! k)) = Some (g @ x)"
    using assms(2) g(1) by (auto simp: logsExtend_def)
  ultimately show "\<exists>g. G' (entryTerm (l ! k)) = Some g \<and> take (Suc k) l = take (Suc k) g" by simp
qed

lemma prefixOk_take: "prefixOk G l \<Longrightarrow> prefixOk G (take k l)"
  by (auto simp: prefixOk_def min_def)

lemma logOk_extend: "logOk G n l \<Longrightarrow> logsExtend G G' \<Longrightarrow> n \<le> m \<Longrightarrow> logOk G' m l"
  by (auto simp: logOk_def intro: prefixOk_extend)

lemma logOk_take: "logOk G n l \<Longrightarrow> logOk G n (take k l)"
  by (auto simp: logOk_def prefixOk_take numberedFrom_take)

text \<open>The heart of it: one shared entry, by position and term, and all before it is shared.\<close>

lemma prefixOk_match: "prefixOk G l \<Longrightarrow> prefixOk G g \<Longrightarrow> logsMatch l g"
  unfolding logsMatch_def by (metis option.inject prefixOkD)

section \<open>Messages\<close>

text \<open>An AppendEntries message of term \<open>t\<close> carries a piece of the log of the leader of \<open>t\<close>.\<close>

definition messageOk :: "LeaderLogs \<Rightarrow> AppendEntriesArgs \<Rightarrow> bool" where
  "messageOk G args \<longleftrightarrow> (\<exists>g k. G (aeTerm args) = Some g
     \<and> unat (aePrevLogIndex args) \<le> k \<and> k \<le> length g
     \<and> aeEntries args = drop (unat (aePrevLogIndex args)) (take k g)
     \<and> (0 < unat (aePrevLogIndex args) \<longrightarrow>
          aePrevLogTerm args = entryTerm (g ! (unat (aePrevLogIndex args) - 1))))"

lemma messageOk_extend:
  assumes "messageOk G args" and "logsExtend G G'" shows "messageOk G' args"
proof -
  let ?p = "unat (aePrevLogIndex args)"
  obtain g k where g: "G (aeTerm args) = Some g" "?p \<le> k" "k \<le> length g"
    "aeEntries args = drop ?p (take k g)"
    "0 < ?p \<longrightarrow> aePrevLogTerm args = entryTerm (g ! (?p - 1))"
    using assms(1) by (auto simp: messageOk_def)
  obtain x where "G' (aeTerm args) = Some (g @ x)" using assms(2) g(1) by (auto simp: logsExtend_def)
  moreover have "(g @ x) ! (?p - 1) = g ! (?p - 1)" if "0 < ?p"
    using that g(2,3) by (simp add: nth_append)
  ultimately show ?thesis
    using g by (auto simp: messageOk_def intro!: exI [of _ k])
qed

text \<open>Where the handler accepts a message, it merges a piece of the leader's log into a log that
  shares everything before that piece.\<close>

lemma message_merge:
  assumes "logOk G n (Entries (raftLog r))" and "messageOk G args" and "\<And>t g. G t = Some g \<Longrightarrow> logOk G n g"
    and "n < 9223372036854775807" and "prevMatches args r"
  obtains g k where "G (aeTerm args) = Some g" and "unat (aePrevLogIndex args) \<le> k" and "k \<le> length g"
    and "aeEntries args = drop (unat (aePrevLogIndex args)) (take k g)"
    and "logsMatch (Entries (raftLog r)) g"
    and "take (unat (aePrevLogIndex args)) (Entries (raftLog r)) = take (unat (aePrevLogIndex args)) g"
    and "Entries (raftLog (installed args r))
      = mergeSpec (unat (aePrevLogIndex args)) (drop (unat (aePrevLogIndex args)) (take k g)) (Entries (raftLog r))"
proof -
  let ?p = "unat (aePrevLogIndex args)" and ?l = "Entries (raftLog r)"
  obtain g k where g: "G (aeTerm args) = Some g" "?p \<le> k" "k \<le> length g"
    "aeEntries args = drop ?p (take k g)"
    "0 < ?p \<longrightarrow> aePrevLogTerm args = entryTerm (g ! (?p - 1))"
    using assms(2) by (auto simp: messageOk_def)
  note gok = assms(3) [OF g(1)]
  have num: "numberedFrom ?p (drop ?p (take k g))"
    using gok numberedFrom_drop [of 0 "take k g" ?p] by (simp add: logOk_def numberedFrom_take)
  then have wf: "logWf (raftLog r)" "logSmall (raftLog r)" "argsWf args"
    using assms(1,4) g gok by (simp_all add: logOk_def logWf_def logSmall_def argsWf_def)
  have match_l: "logsMatch ?l g" using assms(1) gok by (intro prefixOk_match [of G]) (simp_all add: logOk_def)
  have "prevAgrees ?p (aePrevLogTerm args) ?l"
    using assms(5) prevMatches_iff [OF wf(1,2), of args] wf(3) by (simp add: argsWf_def)
  then have "take ?p ?l = take ?p g" using g by (intro prevAgrees_prefix [OF match_l]) simp_all
  moreover have "Entries (raftLog (installed args r)) = mergeSpec ?p (drop ?p (take k g)) ?l"
    using installed_log [OF wf assms(5)] g(4) by simp
  ultimately show ?thesis using that g(1-4) match_l by blast
qed

lemma AppendEntries_log:
  assumes "logOk G n (Entries (raftLog r))" and "messageOk G args" and "\<And>t g. G t = Some g \<Longrightarrow> logOk G n g"
    and "n < 9223372036854775807"
  shows "logOk G n (Entries (raftLog (fst (AppendEntries args r))))"
proof (cases rule: AppendEntries_cases [of args r])
  case old
  then show ?thesis using assms(1) by simp
next
  case (mismatch es)
  then show ?thesis using assms(1) by simp
next
  case (match es)
  obtain g k where "G (aeTerm args) = Some g"
    "Entries (raftLog (installed args r)) \<in> {Entries (raftLog r), take k g}"
    by (rule message_merge [OF assms(1,2) _ assms(4) match(2)]) (rule assms(3), assumption, metis merge_explained)
  then show ?thesis using assms(1) logOk_take [OF assms(3), of _ g k] match(3) by auto
qed

section \<open>The invariant\<close>

text \<open>Node \<open>i\<close> has led term \<open>t\<close> or leads it: it cannot be a candidate of \<open>t\<close> again.\<close>

definition pastCandidate :: "RaftNode \<Rightarrow> uint64 \<Rightarrow> bool" where
  "pastCandidate r t \<longleftrightarrow> t < currentTerm r \<or> t = currentTerm r \<and> state r \<noteq> Candidate"

definition nextOk :: "(int \<times> string) list \<Rightarrow> RaftNode \<Rightarrow> bool" where
  "nextOk ps r \<longleftrightarrow> (\<forall>p \<in> fst ` set ps. nextInLog r p)"

definition leadOk :: "(int \<times> string) list \<Rightarrow> LeaderLogs \<Rightarrow> RaftNode \<Rightarrow> bool" where
  "leadOk ps G r \<longleftrightarrow> (state r = Leader \<longrightarrow>
     G (currentTerm r) = Some (Entries (raftLog r)) \<and> nextOk ps r)"

definition logsInv :: "(int \<times> string) list \<Rightarrow> Ballots \<Rightarrow> LeaderLogs \<Rightarrow> nat \<Rightarrow> Cluster \<Rightarrow> bool" where
  "logsInv ps H G n c \<longleftrightarrow>
    (\<forall>i. logOk G n (Entries (raftLog (nodes c i))) \<and> leadOk ps G (nodes c i))
    \<and> (\<forall>t g. G t = Some g \<longrightarrow> logOk G n g \<and> (\<exists>i. won ps H i t \<and> pastCandidate (nodes c i) t))
    \<and> (\<forall>rp \<in> set (replications c). messageOk G (rpArgs rp))"

lemma logsInvD:
  assumes "logsInv ps H G n c"
  shows "logOk G n (Entries (raftLog (nodes c i)))" and "leadOk ps G (nodes c i)"
    and "G t = Some g \<Longrightarrow> logOk G n g"
    and "G t = Some g \<Longrightarrow> \<exists>i. won ps H i t \<and> pastCandidate (nodes c i) t"
    and "rp \<in> set (replications c) \<Longrightarrow> messageOk G (rpArgs rp)"
  using assms by (simp_all add: logsInv_def)

lemma logsInv_cong:
  "nodes c' = nodes c \<Longrightarrow> \<forall>rp \<in> set (replications c'). messageOk G (rpArgs rp)
    \<Longrightarrow> logsInv ps H G n c \<Longrightarrow> logsInv ps H G n c'"
  by (simp add: logsInv_def)

text \<open>How a handler other than the winning vote reply and the leader's Start moves the log side.\<close>

definition termMove :: "RaftNode \<Rightarrow> RaftNode \<Rightarrow> bool" where
  "termMove r r' \<longleftrightarrow> currentTerm r \<le> currentTerm r'
     \<and> (currentTerm r' = currentTerm r \<longrightarrow> state r \<noteq> Candidate \<longrightarrow> state r' \<noteq> Candidate)"

lemma pastCandidate_move: "pastCandidate r t \<Longrightarrow> termMove r r' \<Longrightarrow> pastCandidate r' t"
  by (auto simp: pastCandidate_def termMove_def)

lemma logsInv_updateNode:
  assumes "logsInv ps H G n c" and "extends H H'" and "termMove (nodes c i) r" and "n \<le> m"
    and "logOk G m (Entries (raftLog r))" and "leadOk ps G r"
  shows "logsInv ps H' G m (updateNode i r es c)"
proof -
  have "\<exists>j. won ps H' j t \<and> pastCandidate (((nodes c)(i := r)) j) t" if gt: "G t = Some g" for t g
  proof -
    obtain j where "won ps H j t" "pastCandidate (nodes c j) t" using logsInvD(4) [OF assms(1) gt] by auto
    then show ?thesis
      using won_extends [OF _ assms(2)] pastCandidate_move [OF _ assms(3)]
      by (intro exI [of _ j]) auto
  qed
  moreover have "logOk G m l" if "logOk G n l" for l using that assms(4) by (auto simp: logOk_def)
  ultimately show ?thesis using assms(1,5,6) by (simp add: logsInv_def)
qed

text \<open>Node \<open>i\<close> leads term \<open>t\<close> with log \<open>l\<close>: the first time, or with its log extended.\<close>

lemma logsInv_lead:
  assumes "logsInv ps H G n c" and "extends H H'" and "termMove (nodes c i) r" and "n \<le> m"
    and "state r = Leader" and "nextOk ps r" and "won ps H' i (currentTerm r)"
    and "G (currentTerm r) = None \<or> G (currentTerm r) = Some (Entries (raftLog (nodes c i)))"
    and "Entries (raftLog r) = Entries (raftLog (nodes c i)) @ es"
    and "\<forall>e \<in> set es. entryTerm e = currentTerm r" and "numberedFrom 0 (Entries (raftLog r))"
    and "length (Entries (raftLog r)) \<le> m"
    and "\<And>j. j \<noteq> i \<Longrightarrow> state (nodes c j) = Leader \<Longrightarrow> currentTerm (nodes c j) \<noteq> currentTerm r"
  shows "logsInv ps H' (G(currentTerm r \<mapsto> Entries (raftLog r))) m (updateNode i r fx c)"
proof -
  let ?t = "currentTerm r" and ?l = "Entries (raftLog r)"
  let ?G = "G(?t \<mapsto> ?l)"
  have ext: "logsExtend G ?G" using assms(8,9) by (auto simp: logsExtend_def)
  note old = logOk_extend [OF _ ext assms(4)]
  have "prefixOk ?G ?l"
    unfolding prefixOk_def
  proof (intro allI impI)
    fix k assume k: "k < length ?l"
    show "\<exists>g. ?G (entryTerm (?l ! k)) = Some g \<and> take (Suc k) ?l = take (Suc k) g"
    proof (cases "k < length (Entries (raftLog (nodes c i)))")
      case True
      have "prefixOk ?G (Entries (raftLog (nodes c i)))"
        using old [OF logsInvD(1) [OF assms(1)]] by (simp add: logOk_def)
      from prefixOkD [OF this True] show ?thesis
        using True by (simp add: assms(9) nth_append) (metis less_eq_Suc_le take_all_iff)
    next
      case False
      with k assms(9) have "?l ! k \<in> set es" by (simp add: nth_append)
      then have "entryTerm (?l ! k) = ?t" using assms(10) by blast
      then show ?thesis by simp
    qed
  qed
  then have l: "logOk ?G m ?l" using assms(11,12) by (simp add: logOk_def)
  have "logOk ?G m (Entries (raftLog (((nodes c)(i := r)) j))) \<and> leadOk ps ?G (((nodes c)(i := r)) j)" for j
    using l old [OF logsInvD(1) [OF assms(1), of j]] logsInvD(2) [OF assms(1), of j] assms(6,13)
    by (auto simp: leadOk_def)
  moreover have "logOk ?G m g \<and> (\<exists>j. won ps H' j t \<and> pastCandidate (((nodes c)(i := r)) j) t)"
    if "?G t = Some g" for t g
  proof (cases "t = ?t")
    case True
    then show ?thesis using that l assms(5,7) by (auto simp: pastCandidate_def intro!: exI [of _ i])
  next
    case False
    then have g: "G t = Some g" using that by simp
    obtain j where "won ps H j t" "pastCandidate (nodes c j) t" using logsInvD(4) [OF assms(1) g] by auto
    then have "won ps H' j t \<and> pastCandidate (((nodes c)(i := r)) j) t"
      using won_extends [OF _ assms(2)] pastCandidate_move [OF _ assms(3)] by auto
    then show ?thesis using old [OF logsInvD(3) [OF assms(1) g]] by blast
  qed
  moreover have "\<forall>rp \<in> set (replications c). messageOk ?G (rpArgs rp)"
    using logsInvD(5) [OF assms(1)] messageOk_extend [OF _ ext] by blast
  ultimately show ?thesis by (simp add: logsInv_def)
qed

lemma logsInv_mono:
  assumes "logsInv ps H G n c" and "extends H H'"
  shows "logsInv ps H' G (Suc n) c"
proof -
  have "\<exists>j. won ps H' j t \<and> pastCandidate (nodes c j) t" if gt: "G t = Some g" for t g
    using logsInvD(4) [OF assms(1) gt] won_extends [OF _ assms(2)] by blast
  moreover have "logOk G (Suc n) l" if "logOk G n l" for l using that by (auto simp: logOk_def)
  ultimately show ?thesis using assms(1) by (simp add: logsInv_def)
qed

lemma logsInv_setAppendCall:
  assumes "logsInv ps H G n c" shows "logsInv ps H G n (setAppendCall k s c)"
proof -
  let ?rps = "replications c"
  have "messageOk G (rpArgs x)" if "x \<in> set (?rps[k := (?rps ! k)\<lparr>rpCall := s\<rparr>])" for x
  proof (cases "k < length ?rps")
    case True
    then have "messageOk G (rpArgs (?rps ! k))" using logsInvD(5) [OF assms] by simp
    then show ?thesis
      using that set_update_subset_insert [of ?rps k] logsInvD(5) [OF assms] by fastforce
  next
    case False
    then show ?thesis using that logsInvD(5) [OF assms] by (simp add: list_update_beyond)
  qed
  then show ?thesis by (intro logsInv_cong [OF _ _ assms]) (simp_all add: setAppendCall_def)
qed

section \<open>The handlers\<close>

definition logStill :: "RaftNode \<Rightarrow> RaftNode \<Rightarrow> bool" where
  "logStill r r' \<longleftrightarrow> termMove r r' \<and> raftLog r' = raftLog r
     \<and> (state r' = Leader \<longrightarrow> state r = Leader \<and> currentTerm r' = currentTerm r
          \<and> nextIndex r' = nextIndex r)"

lemmas still_defs = logStill_def termMove_def

lemma logsInv_still:
  assumes "logsInv ps H G n c" and "extends H H'" and "logStill (nodes c i) r"
  shows "logsInv ps H' G (Suc n) (updateNode i r es c)"
  using assms logsInvD(1,2) [OF assms(1), of i]
  by (intro logsInv_updateNode [OF assms(1,2)]) (auto simp: logStill_def logOk_def leadOk_def nextOk_def nextInLog_def)

lemma timerFired_still: "logStill r (fst (timerFired r))"
  by (simp add: still_defs timerFired_def)

lemma startElection_still:
  "unat (currentTerm r) < 18446744073709551615 \<Longrightarrow> logStill r (fst (startElection r))"
  using unat_plus_one [of "currentTerm r"]
  by (auto simp: still_defs startElection_moved word_le_nat_alt dest: arg_cong [of _ _ unat])

lemma RequestVote_still: "logStill r (fst (RequestVote args r))"
  by (cases rule: RequestVote_cases [of args r])
     (auto simp: still_defs resetElectionTimer_def split: if_splits)

lemma Stop_still: "logStill r (fst (Stop r))"
  by (simp add: still_defs Stop_def Let_def)

lemma Start_follower_still: "state r \<noteq> Leader \<Longrightarrow> logStill r (fst (Start cmd r))"
  by (simp add: still_defs Start_def)

lemma AppendEntries_moves:
  "termMove r (fst (AppendEntries args r))
   \<and> (fst (AppendEntries args r) = r \<or> state (fst (AppendEntries args r)) = Follower)"
  by (cases rule: AppendEntries_cases [of args r]) (auto simp: termMove_def)

lemma handleAppend_logs:
  assumes "logsInv ps H G n c" and "extends H H'" and "handleAppend k c = Some c'"
    and "n < 9223372036854775807"
  shows "logsInv ps H' G (Suc n) c'"
  using assms(3)
proof (cases rule: handleAppend_cases)
  case (1 rp i r es reply)
  then have r: "r = fst (AppendEntries (rpArgs rp) (nodes c i))" by simp
  have "messageOk G (rpArgs rp)" by (rule logsInvD(5) [OF assms(1) appendCall_SomeD(4) [OF 1(1)]])
  from AppendEntries_log [OF logsInvD(1) [OF assms(1)] this logsInvD(3) [OF assms(1)] assms(4)]
  have "logOk G n (Entries (raftLog r))" by (simp add: r)
  then have "logOk G (Suc n) (Entries (raftLog r))" by (simp add: logOk_def)
  moreover have "leadOk ps G r"
    using AppendEntries_moves [of "nodes c i" "rpArgs rp"] logsInvD(2) [OF assms(1), of i]
    by (auto simp: r leadOk_def)
  moreover have "termMove (nodes c i) r" using AppendEntries_moves by (simp add: r)
  ultimately have "logsInv ps H' G (Suc n) (updateNode i r es c)"
    by (intro logsInv_updateNode [OF assms(1,2)]) simp_all
  then show ?thesis unfolding 1(3) by (rule logsInv_setAppendCall)
qed

text \<open>The answer to a message: \<open>nextIndex\<close> stays within the leader's log.\<close>

lemma appendReply_next:
  assumes "leadOk ps G r" and "messageOk G args" and "\<And>t g. G t = Some g \<Longrightarrow> logOk G n g"
    and "n < 9223372036854775807"
  shows "leadOk ps G (fst (appendReply args p result r))"
proof (cases rule: appendReply_cases [of args p result r])
  case stay
  then show ?thesis using assms(1) by simp
next
  case (down reply)
  then show ?thesis by (simp add: leadOk_def)
next
  case backOff
  have "unat (mapRead (nextIndex r) p - 1) = unat (mapRead (nextIndex r) p) - 1"
    using backOff(3) by (intro unat_minus_one) auto
  then show ?thesis
    using assms(1) backOff(1,3) by (auto simp: leadOk_def nextOk_def nextInLog_def backOff(4) word_less_nat_alt)
next
  case (ack m)
  let ?p = "unat (aePrevLogIndex args)"
  obtain g k where g: "G (aeTerm args) = Some g" "?p \<le> k" "k \<le> length g"
    "aeEntries args = drop ?p (take k g)"
    using assms(2) by (auto simp: messageOk_def)
  then have eq: "g = Entries (raftLog r)" using assms(1) ack(1,2) by (simp add: leadOk_def)
  have k: "k < 9223372036854775807" using assms(3) [OF g(1)] assms(4) g(3) by (simp add: logOk_def)
  have "m = word_of_nat ?p + word_of_nat (length (aeEntries args))" by (simp add: ack(3))
  also have "\<dots> = word_of_nat (?p + length (aeEntries args))" by (simp only: of_nat_add)
  also have "?p + length (aeEntries args) = k" using g by simp
  finally have "m + 1 = word_of_nat (Suc k)" by simp
  moreover have "unat (word_of_nat (Suc k) :: uint64) = Suc k" using k by (intro unat64_of_nat) simp
  ultimately have "unat (m + 1) = Suc k" by (simp only:)
  then show ?thesis
    using assms(1) ack(1) g(3) eq by (auto simp: leadOk_def nextOk_def nextInLog_def ack(4))
qed

lemma appendReply_log:
  "raftLog (fst (appendReply args p result r)) = raftLog r \<and> termMove r (fst (appendReply args p result r))"
  by (cases rule: appendReply_cases [of args p result r]) (auto simp: termMove_def)

lemma finishAppend_logs:
  assumes "logsInv ps H G n c" and "extends H H'" and "finishAppend k c = Some c'"
    and "n < 9223372036854775807"
  shows "logsInv ps H' G (Suc n) c'"
  using assms(3)
proof (cases rule: finishAppend_cases)
  case (1 rp result r es)
  let ?i = "rpLeader rp"
  have r: "r = fst (appendReply (rpArgs rp) (rpPeer rp) result (nodes c ?i))" using 1(2) by simp
  have "messageOk G (rpArgs rp)" by (rule logsInvD(5) [OF assms(1) appendCall_SomeD(4) [OF 1(1)]])
  then have "leadOk ps G r"
    unfolding r by (intro appendReply_next [OF logsInvD(2) [OF assms(1)] _ _ assms(4)] logsInvD(3) [OF assms(1)])
  moreover have "logOk G (Suc n) (Entries (raftLog r))"
    using logsInvD(1) [OF assms(1), of ?i] appendReply_log by (simp add: r logOk_def)
  ultimately have "logsInv ps H' G (Suc n) (updateNode ?i r es c)"
    using appendReply_log by (intro logsInv_updateNode [OF assms(1,2)]) (simp_all add: r)
  then show ?thesis unfolding 1(3) by (rule logsInv_setAppendCall)
qed

text \<open>The leader logs change only where a leader of the new state has its log.\<close>

definition logsGrow :: "LeaderLogs \<Rightarrow> LeaderLogs \<Rightarrow> Cluster \<Rightarrow> bool" where
  "logsGrow G G' c' \<longleftrightarrow>
    (\<forall>t. G' t \<noteq> G t \<longrightarrow> (\<exists>i. state (nodes c' i) = Leader \<and> currentTerm (nodes c' i) = t))"

lemma logsGrow_refl [simp]: "logsGrow G G c'"
  by (simp add: logsGrow_def)

lemma logsGrow_lead:
  "nodes c' i = r \<Longrightarrow> state r = Leader \<Longrightarrow> logsGrow G (G(currentTerm r \<mapsto> l)) c'"
  by (auto simp: logsGrow_def)

text \<open>A heartbeat carries the leader's log from \<open>nextIndex\<close> on.\<close>

lemma heartbeatArgs_ok:
  assumes "state r = Leader" and "leadOk ps G r" and "p \<in> fst ` set ps"
    and "length (Entries (raftLog r)) < 9223372036854775807"
  shows "messageOk G (heartbeatArgs r p)"
proof -
  have g: "G (currentTerm r) = Some (Entries (raftLog r))" and n: "nextInLog r p"
    using assms(1-3) by (auto simp: leadOk_def nextOk_def)
  have small: "logSmall (raftLog r)" using assms(4) by (simp add: logSmall_def)
  note f = heartbeatArgs_fields [OF n small]
  show ?thesis
    using g f by (auto simp: messageOk_def f(2) intro!: exI [of _ "length (Entries (raftLog r))"])
qed

lemma heartbeat_logs:
  assumes "logsInv ps H G n c" and "extends H H'" and "n < 9223372036854775807"
    and "peers (nodes c i) = ps"
  shows "logsInv ps H' G (Suc n) (heartbeat i c)"
proof -
  have "length (Entries (raftLog (nodes c i))) < 9223372036854775807"
    using logsInvD(1) [OF assms(1), of i] assms(3) by (simp add: logOk_def)
  then have "messageOk G (heartbeatArgs (nodes c i) p)"
    if "state (nodes c i) = Leader" "(p, a) \<in> set ps" for p a
    using that by (intro heartbeatArgs_ok [OF that(1) logsInvD(2) [OF assms(1)]]) force+
  then have "messageOk G (rpArgs rp)" if "rp \<in> set (appendCallsOf i (sendHeartbeats (nodes c i)))" for rp
    using that assms(4) by (auto simp: appendCallsOf_sendHeartbeats split: if_splits)
  then have "logsInv ps H G n (heartbeat i c)"
    using logsInvD(5) [OF assms(1)] by (intro logsInv_cong [OF _ _ assms(1)]) (auto simp: heartbeat_def)
  then show ?thesis by (rule logsInv_mono [OF _ assms(2)])
qed

text \<open>A leader takes a command.\<close>

lemma Start_leader:
  assumes "state r = Leader"
  shows "fst (Start cmd r) = r\<lparr>raftLog := snd (logAppend (currentTerm r) cmd (raftLog r))\<rparr>"
  using assms by (simp add: Start_def Let_def split: prod.splits)

lemma Entries_logAppend:
  "Entries (snd (logAppend t cmd l)) = Entries l @ [fst (logAppend t cmd l)]
   \<and> entryTerm (fst (logAppend t cmd l)) = t"
  by (simp add: logAppend_def Let_def)

lemma clientStart_logs:
  assumes "logsInv ps H G n c" and "votesInv ps H c" and "peersOk ps"
  shows "\<exists>G'. logsInv ps H G' (Suc n) (clientStart i cmd c) \<and> logsGrow G G' (clientStart i cmd c)"
proof (cases "state (nodes c i) = Leader")
  case False
  obtain r es x where st: "Start cmd (nodes c i) = (r, es, x)" by (metis prod_cases3)
  then have "logStill (nodes c i) r" using Start_follower_still [OF False, of cmd] by simp
  then show ?thesis
    using logsInv_still [OF assms(1) extends_refl] st
    by (intro exI [of _ G]) (simp add: clientStart_def)
next
  case True
  let ?r = "nodes c i"
  obtain r es x where st: "Start cmd ?r = (r, es, x)" by (metis prod_cases3)
  let ?l = "logAppend (currentTerm ?r) cmd (raftLog ?r)"
  have r: "r = ?r\<lparr>raftLog := snd ?l\<rparr>" using Start_leader [OF True, of cmd] st by simp
  have lead: "G (currentTerm ?r) = Some (Entries (raftLog ?r))" "nextOk ps ?r"
    using logsInvD(2) [OF assms(1), of i] True by (simp_all add: leadOk_def)
  have log: "Entries (raftLog r) = Entries (raftLog ?r) @ [fst ?l]" "entryTerm (fst ?l) = currentTerm ?r"
    using Entries_logAppend [of "currentTerm ?r" cmd "raftLog ?r"] by (simp_all add: r)
  have "numberedFrom 0 (Entries (raftLog r))"
    using logAppend_wf [of "raftLog ?r" "currentTerm ?r" cmd] logsInvD(1) [OF assms(1), of i]
    by (simp add: r logWf_def logOk_def)
  moreover have "nextOk ps r" using lead(2) log(1) by (auto simp: nextOk_def nextInLog_def r)
  moreover have "length (Entries (raftLog r)) \<le> Suc n"
    using logsInvD(1) [OF assms(1), of i] by (simp add: log(1) logOk_def)
  moreover have "currentTerm (nodes c j) \<noteq> currentTerm ?r"
    if "j \<noteq> i" "state (nodes c j) = Leader" for j
    using that True won_unique [OF assms(3)] votesInvD(6) [OF assms(2)] by metis
  moreover have "termMove ?r r" by (simp add: r termMove_def)
  ultimately have "logsInv ps H (G(currentTerm r \<mapsto> Entries (raftLog r))) (Suc n) (updateNode i r es c)"
    using lead(1) log True votesInvD(6) [OF assms(2) True]
    by (intro logsInv_lead [OF assms(1) extends_refl, where es = "[fst ?l]"]) (simp_all add: r)
  moreover have "logsGrow G (G(currentTerm r \<mapsto> Entries (raftLog r))) (updateNode i r es c)"
    using True by (intro logsGrow_lead [where i = i]) (simp_all add: r)
  ultimately show ?thesis using st by (auto simp: clientStart_def)
qed

text \<open>The deciding vote.\<close>

lemma becomeLeader_next: "length (Entries (raftLog r)) < 9223372036854775807 \<Longrightarrow>
    logWf (raftLog r) \<Longrightarrow> peers r = ps \<Longrightarrow> nextOk ps (fst (becomeLeader r))"
proof -
  assume a: "length (Entries (raftLog r)) < 9223372036854775807" "logWf (raftLog r)" "peers r = ps"
  have "fold (\<lambda>(p, _) m. m(p \<mapsto> v)) xs m q = (if q \<in> fst ` set xs then Some v else m q)"
    for v :: uint64 and xs :: "(int \<times> string) list" and m q
    by (induction xs arbitrary: m) auto
  moreover have "unat (LastIndex (raftLog r) + 1) = Suc (length (Entries (raftLog r)))"
    using a(1) by (simp add: LastIndex_wf [OF a(2)] unat_plus_one)
  ultimately show ?thesis using a(3)
    by (simp add: nextOk_def nextInLog_def becomeLeader_def Let_def mapRead_def)
qed

lemma becomeLeader_matchIndex: "mapRead (matchIndex (fst (becomeLeader r))) p = 0"
proof -
  have "mapRead (fold (\<lambda>(p, _) m. m(p \<mapsto> 0)) xs m) p = (0 :: uint64)" if "mapRead m p = 0"
    for xs :: "(int \<times> string) list" and m
    using that by (induction xs arbitrary: m) auto
  then have "mapRead (fold (\<lambda>(p, _) m. m(p \<mapsto> 0)) (peers r) Map.empty) p = (0 :: uint64)"
    by (simp add: mapRead_def [of Map.empty])
  then show ?thesis by (simp add: becomeLeader_def Let_def)
qed

text \<open>A term that somebody wins had no leader before.\<close>

lemma candidate_no_log:
  assumes "logsInv ps H G n c" and "extends H H'" and "peersOk ps"
    and "won ps H' i (currentTerm (nodes c i))" and "state (nodes c i) = Candidate"
  shows "G (currentTerm (nodes c i)) = None"
proof (rule ccontr)
  let ?t = "currentTerm (nodes c i)"
  assume "G ?t \<noteq> None"
  then obtain g where "G ?t = Some g" by blast
  from logsInvD(4) [OF assms(1) this] obtain j where j: "won ps H j ?t" "pastCandidate (nodes c j) ?t"
    by blast
  have "j = i" by (rule won_unique [OF assms(3) won_extends [OF j(1) assms(2)] assms(4)])
  then show False using j(2) assms(5) by (simp add: pastCandidate_def)
qed

lemma finishVote_logs:
  assumes "logsInv ps H G n c" and "votesInv ps H c" and "extends H H'" and "votesInv ps H' c'"
    and "peersOk ps" and "finishVote e j c = Some c'" and "n < 9223372036854775807"
  shows "\<exists>G'. logsInv ps H' G' (Suc n) c' \<and> logsGrow G G' c'"
proof -
  obtain el p a result r votes es where v: "voteCall e j c = Some (el, p, a, Returned result)"
    and vr: "voteReply (elArgs el) p result (elVotes el) (nodes c (elCandidate el)) = (r, votes, es)"
    and c': "c' = (let c1 = setVoteCall e j Finished (updateNode (elCandidate el) r es c)
      in c1\<lparr>elections := (elections c1)[e := (elections c1 ! e)\<lparr>elVotes := votes\<rparr>]\<rparr>)"
    using assms(6)
    by (auto simp: finishVote_def Let_def split: option.splits prod.splits Call.splits)
  let ?i = "elCandidate el"
  let ?r = "nodes c ?i"
  have nodes: "nodes c' = (nodes c)(?i := r)" and reps: "replications c' = replications c"
    by (simp_all add: c' Let_def setVoteCall_def)
  have still: "\<exists>G'. logsInv ps H' G' (Suc n) (updateNode ?i r es c) \<and> logsGrow G G' c'"
    if "logStill ?r r"
    using logsInv_still [OF assms(1,3) that] by (intro exI [of _ G]) simp
  have "\<exists>G'. logsInv ps H' G' (Suc n) (updateNode ?i r es c) \<and> logsGrow G G' c'"
  proof (cases rule: voteReply_cases [of "elArgs el" p result "elVotes el" ?r])
    case stay
    then have "logStill ?r r" using vr by (simp add: still_defs)
    then show ?thesis by (rule still)
  next
    case (down reply es)
    then have "logStill ?r r" using vr by (auto simp: still_defs)
    then show ?thesis by (rule still)
  next
    case (counted reply es)
    then have "logStill ?r r" using vr by (simp add: still_defs)
    then show ?thesis by (rule still)
  next
    case (elected reply es')
    then have r: "r = fst (becomeLeader ?r)" using vr by simp
    let ?t = "currentTerm ?r"
    have won: "won ps H' ?i ?t" using votesInvD(6) [OF assms(4), of ?i] by (simp add: nodes r)
    have log: "logOk G n (Entries (raftLog ?r))" by (rule logsInvD(1) [OF assms(1)])
    have none: "G ?t = None" by (rule candidate_no_log [OF assms(1,3,5) won elected(3)])
    have "currentTerm (nodes c j) \<noteq> ?t" if "j \<noteq> ?i" "state (nodes c j) = Leader" for j
      using that won_unique [OF assms(5) won] won_extends [OF votesInvD(6) [OF assms(2)] assms(3)] by metis
    moreover have "nextOk ps r"
      unfolding r using log assms(7) votesInvD(3) [OF assms(2)]
      by (intro becomeLeader_next) (simp_all add: logOk_def logWf_def)
    ultimately have "logsInv ps H' (G(currentTerm r \<mapsto> Entries (raftLog r))) (Suc n) (updateNode ?i r es c)"
      using won none log
      by (intro logsInv_lead [OF assms(1,3), where es = "[]"]) (simp_all add: r termMove_def logOk_def)
    moreover have "logsGrow G (G(currentTerm r \<mapsto> Entries (raftLog r))) c'"
      by (rule logsGrow_lead [where i = ?i]) (simp_all add: nodes r)
    ultimately show ?thesis by blast
  qed
  then obtain G' where G': "logsInv ps H' G' (Suc n) (updateNode ?i r es c)" and g: "logsGrow G G' c'"
    by blast
  have "logsInv ps H' G' (Suc n) c'"
    using logsInvD(5) [OF G'] by (intro logsInv_cong [OF _ _ G']) (simp_all add: nodes reps)
  with g show ?thesis by blast
qed

section \<open>Every action keeps it\<close>

lemma logsInv_still_same:
  "logsInv ps H G n c \<Longrightarrow> extends H H' \<Longrightarrow> logStill (nodes c i) r \<Longrightarrow>
    nodes c' = (nodes c)(i := r) \<Longrightarrow> replications c' = replications c \<Longrightarrow>
    logsInv ps H' G (Suc n) c'"
  using logsInv_still [of ps H G n c H' i r "[]"]
  by (auto intro!: logsInv_cong [of c' "updateNode i r [] c"] dest: logsInvD(5))

lemma timerFires_logs:
  assumes "logsInv ps H G n c" and "extends H H'" and "timerFires i c = Some c'"
  shows "logsInv ps H' G (Suc n) c'"
  using assms(3) by (intro logsInv_still_same [OF assms(1,2) timerFired_still [of "nodes c i"]])
    (auto simp: timerFires_def split: if_splits prod.splits)

lemma beginElection_logs:
  assumes "logsInv ps H G n c" and "extends H H'" and "beginElection i c = Some c'"
    and "unat (currentTerm (nodes c i)) < 18446744073709551615"
  shows "logsInv ps H' G (Suc n) c'"
  using assms(3) by (intro logsInv_still_same [OF assms(1,2) startElection_still [OF assms(4)]])
    (auto simp: beginElection_def split: if_splits prod.splits)

lemma handleVote_logs:
  assumes "logsInv ps H G n c" and "extends H H'" and "handleVote e j c = Some c'"
  shows "logsInv ps H' G (Suc n) c'"
proof -
  obtain el p a i r reply where "voteCall e j c = Some (el, p, a, Admitted i)"
    and rv: "RequestVote (elArgs el) (nodes c i) = (r, reply)"
    and c': "c' = setVoteCall e j (Returned (Inr reply)) (updateNode i r [] c)"
    using assms(3) by (auto simp: handleVote_def split: option.splits prod.splits Call.splits)
  have "logStill (nodes c i) r" using RequestVote_still [of "nodes c i" "elArgs el"] rv by simp
  then show ?thesis
    by (rule logsInv_still_same [OF assms(1,2)]) (simp_all add: c' setVoteCall_def Let_def)
qed

lemma stopNode_logs:
  assumes "logsInv ps H G n c" and "extends H H'"
  shows "logsInv ps H' G (Suc n) (stopNode i c)"
  by (rule logsInv_still_same [OF assms Stop_still [of "nodes c i"]])
     (simp_all add: stopNode_def split: prod.splits)

lemma logsInv_same:
  "logsInv ps H G n c \<Longrightarrow> extends H H' \<Longrightarrow> nodes c' = nodes c \<Longrightarrow>
    \<forall>rp \<in> set (replications c'). messageOk G (rpArgs rp) \<Longrightarrow> logsInv ps H' G (Suc n) c'"
  using logsInv_mono [of ps H G n c H'] by (simp add: logsInv_def)

lemma setVoteCall_logs:
  "logsInv ps H G n c \<Longrightarrow> extends H H' \<Longrightarrow> logsInv ps H' G (Suc n) (setVoteCall e j s c)"
  by (rule logsInv_same [of ps H G n c]) (simp_all add: setVoteCall_def Let_def logsInvD(5))

lemma setAppendCall_logs:
  "logsInv ps H G n c \<Longrightarrow> extends H H' \<Longrightarrow> logsInv ps H' G (Suc n) (setAppendCall k s c)"
  by (intro logsInv_setAppendCall logsInv_mono)

lemma perform_logs:
  assumes "logsInv ps H G n c" and "votesInv ps H c" and "extends H H'" and "votesInv ps H' c'"
    and "peersOk ps" and "perform a c = Some c'" and "\<not> isRestart a" and "n < 9223372036854775807"
    and "\<And>i. unat (currentTerm (nodes c i)) < 18446744073709551615"
  shows "\<exists>G'. logsInv ps H' G' (Suc n) c' \<and> logsGrow G G' c'"
proof -
  have same: ?thesis if "logsInv ps H' G (Suc n) c'" using that by (intro exI [of _ G]) simp
  show ?thesis
  proof (cases a)
  case (TimerFires i)
  then show ?thesis using same assms(6) timerFires_logs [OF assms(1,3)] by (simp split: if_splits)
next
  case (BeginElection i)
  then show ?thesis using same assms(6,9) beginElection_logs [OF assms(1,3)] by simp
next
  case (AdmitVote e j)
  then show ?thesis using same assms(6) setVoteCall_logs [OF assms(1,3)]
    by (auto simp: admitVote_def split: option.splits prod.splits Call.splits)
next
  case (HandleVote e j)
  then show ?thesis using same assms(6) handleVote_logs [OF assms(1,3)] by simp
next
  case (LoseVote e j)
  then show ?thesis using same assms(6) setVoteCall_logs [OF assms(1,3)]
    by (auto simp: loseVote_def split: option.splits prod.splits if_splits)
next
  case (FinishVote e j)
  then show ?thesis using assms(6) finishVote_logs [OF assms(1-5) _ assms(8)] by simp
next
  case (Heartbeat i)
  then show ?thesis using same assms(6) heartbeat_logs [OF assms(1,3,8) votesInvD(3) [OF assms(2)]] by (auto split: if_splits)
next
  case (AdmitAppend k)
  then show ?thesis using same assms(6) setAppendCall_logs [OF assms(1,3)]
    by (auto simp: admitAppend_def split: option.splits prod.splits Call.splits)
next
  case (HandleAppend k)
  then show ?thesis using same assms(6) handleAppend_logs [OF assms(1,3) _ assms(8)] by auto
next
  case (LoseAppend k)
  then show ?thesis using same assms(6) setAppendCall_logs [OF assms(1,3)]
    by (auto simp: loseAppend_def split: option.splits prod.splits if_splits)
next
  case (FinishAppend k)
  then show ?thesis using same assms(6) finishAppend_logs [OF assms(1,3) _ assms(8)] by auto
next
  case (ClientStart i cmd)
  then have c': "c' = clientStart i cmd c" using assms(6) by (auto split: if_splits)
  obtain G' where G': "logsInv ps H G' (Suc n) c'" and g: "logsGrow G G' c'"
    unfolding c' using clientStart_logs [OF assms(1,2,5)] by blast
  have "\<exists>i. won ps H' i t \<and> pastCandidate (nodes c' i) t" if gt: "G' t = Some g" for t g
    using logsInvD(4) [OF G' gt] won_extends [OF _ assms(3)] by blast
  then have "logsInv ps H' G' (Suc n) c'" using G' by (simp add: logsInv_def)
  with g show ?thesis by blast
next
  case (StopNode i)
  then show ?thesis using same assms(6) stopNode_logs [OF assms(1,3)] by (auto split: if_splits)
next
  case (RestartNode i)
  then show ?thesis using assms(7) by simp
qed
qed

section \<open>Runs\<close>

lemma run_logs:
  assumes "run c as c'" and "peersOk ps" and "votesInv ps H c" and "logsInv ps H G n c"
    and "termsBelow n c" and "n + length as < 9223372036854775808" and "\<forall>a \<in> set as. \<not> isRestart a"
  shows "\<exists>H' G'. votesInv ps H' c' \<and> logsInv ps H' G' (n + length as) c' \<and> termsBelow (n + length as) c'"
  using assms
proof (induction rule: run.induct)
  case (run_Nil c)
  then show ?case by auto
next
  case (run_snoc c as c' a c'')
  then obtain H1 G1 where ih: "votesInv ps H1 c'" "logsInv ps H1 G1 (n + length as) c'"
    "termsBelow (n + length as) c'" by auto
  have t: "unat (currentTerm (nodes c' i)) < 18446744073709551615" for i
    using termsBelowD(1) [OF ih(3), of i] run_snoc.prems(5) by simp
  have na: "\<not> isRestart a" using run_snoc.prems(6) by simp
  from perform_votes [OF ih(1) assms(2) run_snoc.hyps(2) na t]
  obtain H2 where H2: "extends H1 H2" "votesInv ps H2 c''" by (auto simp: votesNext_def)
  have "n + length as < 9223372036854775807" using run_snoc.prems(5) by simp
  from perform_logs [OF ih(2,1) H2 assms(2) run_snoc.hyps(2) na this t]
  obtain G2 where "logsInv ps H2 G2 (Suc (n + length as)) c''" by blast
  with H2(2) perform_terms [OF ih(3) run_snoc.hyps(2)] show ?case by auto
qed

lemma logsInv_boot: "logsInv ps H Map.empty 0 (bootCluster ps)"
  by (simp add: logsInv_def bootCluster_def bootNode_def NewRaftNode_def logOk_def prefixOk_def
      leadOk_def SetApplyFunc_def SetTransport_def SetPeers_def SetEventBus_def)

lemma reachable_logs:
  assumes "peersOk ps" and "run (bootCluster ps) as c" and "\<forall>a \<in> set as. \<not> isRestart a"
    and "length as < 9223372036854775808"
  obtains H G where "votesInv ps H c" and "logsInv ps H G (length as) c"
  using run_logs [OF assms(2,1) votesInv_boot logsInv_boot termsBelow_boot] assms(3,4) by auto

text \<open>C5. Log matching: in every state the cluster reaches from its boot without a restart,
  if the logs of two nodes have entries of the same term at the same position, the two logs are
  equal up to and including that entry, commands and all.\<close>

theorem log_matching:
  assumes "peersOk ps" and "run (bootCluster ps) as c" and "\<forall>a \<in> set as. \<not> isRestart a"
    and "length as < 2 ^ 63"
    and "k < length (Entries (raftLog (nodes c i)))" and "k < length (Entries (raftLog (nodes c j)))"
    and "entryTerm (Entries (raftLog (nodes c i)) ! k) = entryTerm (Entries (raftLog (nodes c j)) ! k)"
  shows "take (Suc k) (Entries (raftLog (nodes c i))) = take (Suc k) (Entries (raftLog (nodes c j)))"
proof -
  obtain H G where "logsInv ps H G (length as) c"
    using assms(4) by (auto intro: reachable_logs [OF assms(1-3)])
  then have "prefixOk G (Entries (raftLog (nodes c i)))" for i
    using logsInvD(1) by (simp add: logOk_def)
  from logsMatchD [OF prefixOk_match [OF this this] assms(5-7)] show ?thesis .
qed

definition oneEntryRun :: "Action list" where
  "oneEntryRun = electActions 0 0 @ [ClientStart 0 (setCmd ''k'' ''A''), Heartbeat 0] @ replicateActions 1"

lemma one_entry_run:
  "map_option (\<lambda>c. (Entries (raftLog (nodes c 0)), Entries (raftLog (nodes c 2)), applied c 0))
      (exec oneEntryRun (bootCluster peers3))
    = Some ([\<lparr>entryIndex = 1, entryTerm = 1, entryCommand = setCmd ''k'' ''A''\<rparr>],
        [\<lparr>entryIndex = 1, entryTerm = 1, entryCommand = setCmd ''k'' ''A''\<rparr>], [setCmd ''k'' ''A''])"
  by code_simp

lemma log_matching_witness:
  "\<exists>c. exec oneEntryRun (bootCluster peers3) = Some c \<and> length (Entries (raftLog (nodes c 2))) = 1
    \<and> take 1 (Entries (raftLog (nodes c 0))) = take 1 (Entries (raftLog (nodes c 2)))"
proof -
  obtain c where c: "exec oneEntryRun (bootCluster peers3) = Some c"
    "Entries (raftLog (nodes c 0)) = [\<lparr>entryIndex = 1, entryTerm = 1, entryCommand = setCmd ''k'' ''A''\<rparr>]"
    "Entries (raftLog (nodes c 2)) = [\<lparr>entryIndex = 1, entryTerm = 1, entryCommand = setCmd ''k'' ''A''\<rparr>]"
    using one_entry_run by auto
  have "take (Suc 0) (Entries (raftLog (nodes c 0))) = take (Suc 0) (Entries (raftLog (nodes c 2)))"
    by (rule log_matching [OF peersOk_peers3 exec_run [OF c(1)]])
       (simp_all add: oneEntryRun_def electActions_def replicateActions_def c(2,3))
  with c show ?thesis by (intro exI [of _ c]) simp
qed

text \<open>C40. What the handlers receive is well-formed: in every state reached without a restart,
  every log is numbered from 1 without gaps, and every AppendEntries message that is in flight
  carries consecutive entries that fit behind its previous index. These are the hypotheses under
  which AppendEntries is the reference merge.\<close>

theorem reachable_logs_and_messages_wf:
  assumes "peersOk ps" and "run (bootCluster ps) as c" and "\<forall>a \<in> set as. \<not> isRestart a"
    and "length as < 2 ^ 63 - 1"
  shows "logWf (raftLog (nodes c i)) \<and> logSmall (raftLog (nodes c i))
    \<and> length (Entries (raftLog (nodes c i))) \<le> length as
    \<and> list_all (\<lambda>rp. argsWf (rpArgs rp)) (replications c)"
proof -
  have n: "length as < 9223372036854775807" using assms(4) by simp
  then obtain H G where inv: "logsInv ps H G (length as) c"
    by (auto intro: reachable_logs [OF assms(1-3)])
  have "argsWf args" if m: "messageOk G args" for args
  proof -
    let ?p = "unat (aePrevLogIndex args)"
    obtain g k where g: "G (aeTerm args) = Some g" "?p \<le> k" "k \<le> length g"
      "aeEntries args = drop ?p (take k g)"
      using m by (auto simp: messageOk_def)
    have "numberedFrom 0 (take k g)" "length g \<le> length as"
      using logsInvD(3) [OF inv g(1)] by (simp_all add: logOk_def numberedFrom_take)
    then show ?thesis
      using g n numberedFrom_drop [of 0 "take k g" ?p] by (simp add: argsWf_def)
  qed
  then have "list_all (\<lambda>rp. argsWf (rpArgs rp)) (replications c)"
    using logsInvD(5) [OF inv] by (simp add: list_all_iff)
  moreover have "numberedFrom 0 (Entries (raftLog (nodes c i)))"
    "length (Entries (raftLog (nodes c i))) \<le> length as"
    using logsInvD(1) [OF inv, of i] by (simp_all add: logOk_def)
  ultimately show ?thesis using n by (simp add: logWf_def logSmall_def)
qed

lemma reachable_logs_and_messages_wf_witness:
  "\<exists>c. exec oneEntryRun (bootCluster peers3) = Some c \<and> logWf (raftLog (nodes c 2))
    \<and> list_all (\<lambda>rp. argsWf (rpArgs rp)) (replications c)"
proof -
  obtain c where c: "exec oneEntryRun (bootCluster peers3) = Some c" using one_entry_run by auto
  show ?thesis
    using reachable_logs_and_messages_wf [OF peersOk_peers3 exec_run [OF c], of 2] c
    by (simp add: oneEntryRun_def electActions_def replicateActions_def)
qed

text \<open>C37. Committed commands can be replaced. \<open>updateCommitIndex\<close> counts replicas of entries of
  older terms too, so this run without any restart or stop ends with two different commands
  applied as the first: node 0, leader of term 3, commits and applies its two entries of term 1
  once node 2 holds them; node 1, leader of term 2 before, wins term 4 with node 2's vote (its
  last term is larger), overwrites both entries with its one, and commits that. Node 0's commit
  index, which no truncation lowers, then points beyond the end of its log.\<close>

theorem committed_entry_replaced:
  "\<exists>as c. run (bootCluster peers3) as c \<and> filter isRestart as = []
     \<and> applied c 0 = [setCmd ''k'' ''A'', setCmd ''k'' ''C''] \<and> applied c 1 = [setCmd ''k'' ''B'']
     \<and> map entryCommand (Entries (raftLog (nodes c 0))) = [setCmd ''k'' ''B''] \<and> commitIndex (nodes c 0) = 2"
proof -
  let ?as = "electActions 0 0 @ [ClientStart 0 (setCmd ''k'' ''A''), ClientStart 0 (setCmd ''k'' ''C''),
      TimerFires 1, BeginElection 1]
    @ electActions 1 2 @ [Heartbeat 1, AdmitAppend 0, HandleAppend 0, ClientStart 1 (setCmd ''k'' ''B'')]
    @ electActions 0 3 @ [AdmitVote 3 0, HandleVote 3 0, Heartbeat 0] @ replicateActions 3
    @ [Heartbeat 0] @ replicateActions 5 @ [Heartbeat 0] @ replicateActions 7 @ electActions 1 4
    @ [Heartbeat 1] @ replicateActions 8 @ [Heartbeat 1] @ replicateActions 10"
  have "map_option (\<lambda>c. (applied c 0, applied c 1, map entryCommand (Entries (raftLog (nodes c 0))), commitIndex (nodes c 0)))
      (exec ?as (bootCluster peers3))
      = Some ([setCmd ''k'' ''A'', setCmd ''k'' ''C''], [setCmd ''k'' ''B''], [setCmd ''k'' ''B''], 2)"
    by code_simp
  then obtain c where c: "exec ?as (bootCluster peers3) = Some c"
    "applied c 0 = [setCmd ''k'' ''A'', setCmd ''k'' ''C'']" "applied c 1 = [setCmd ''k'' ''B'']"
    "map entryCommand (Entries (raftLog (nodes c 0))) = [setCmd ''k'' ''B'']" "commitIndex (nodes c 0) = 2" by auto
  from exec_run [OF c(1)] c(2-5) show ?thesis
    by (intro exI [of _ ?as] exI [of _ c]) (simp add: electActions_def replicateActions_def)
qed

end
