(* ===== verification/Lead_Moves.thy ===== *)
theory Lead_Moves
  imports Log_Matching
begin

text \<open>
  What an answer to AppendEntries does to the leader that takes it and goes on leading: log, term
  and the acknowledgements of the other peers stay, and a commit index that is up to date with the
  acknowledgements stays so. This is what replicating to several peers, one after the other, needs.
\<close>

text \<open>Everything that a majority holds up to the last index is committed and applied.\<close>

definition commitReady :: "RaftNode \<Rightarrow> bool" where
  "commitReady L \<longleftrightarrow> lastApplied L \<le> commitIndex L \<and> commitIndex L \<le> LastIndex (raftLog L)
     \<and> (hasQuorum L (LastIndex (raftLog L)) \<longrightarrow>
          commitIndex L = LastIndex (raftLog L) \<and> lastApplied L = commitIndex L)"

definition leadMove :: "int set \<Rightarrow> RaftNode \<Rightarrow> RaftNode \<Rightarrow> bool" where
  "leadMove P L L' \<longleftrightarrow> raftLog L' = raftLog L \<and> state L' = state L \<and> currentTerm L' = currentTerm L
     \<and> nodeId L' = nodeId L \<and> peers L' = peers L \<and> stopClosed L' = stopClosed L
     \<and> (\<forall>q. q \<notin> P \<longrightarrow> mapRead (matchIndex L') q = mapRead (matchIndex L) q)
     \<and> (commitReady L \<longrightarrow> commitReady L')"

lemma leadMove_refl [simp]: "leadMove P L L"
  by (simp add: leadMove_def)

lemma leadMove_trans: "leadMove P L M \<Longrightarrow> leadMove R M N \<Longrightarrow> leadMove (P \<union> R) L N"
  by (simp add: leadMove_def)

lemma applyCommitted_last:
  "logSmall (raftLog r) \<Longrightarrow> unat (commitIndex r) \<le> length (Entries (raftLog r)) \<Longrightarrow>
   lastApplied r \<le> commitIndex r \<Longrightarrow> fst (applyCommitted r) = r\<lparr>lastApplied := commitIndex r\<rparr>"
proof (induction r rule: applyCommitted_induct)
  case (1 r)
  let ?a = "unat (lastApplied r)" and ?l = "Entries (raftLog r)"
  show ?case
  proof (cases "lastApplied r < commitIndex r")
    case False
    with "1.prems"(3) have "lastApplied r = commitIndex r" by simp
    then show ?thesis by (subst applyCommitted_unfold) (cases r; simp)
  next
    case True
    have suc: "unat (lastApplied r + 1) = Suc ?a" by (rule unat_plus_one_less [OF True])
    have a: "?a < length ?l" using True "1.prems"(2) by (simp add: word_less_nat_alt)
    have get: "logGet (lastApplied r + 1) (raftLog r) = (?l ! ?a, True)"
      using "1.prems"(1) a suc by (simp add: logGet_small)
    have le: "lastApplied r + 1 \<le> commitIndex r"
      using True suc by (simp add: word_le_nat_alt word_less_nat_alt)
    from "1.IH" [OF True] "1.prems" le True get applyCommitted_unfold [of r] show ?thesis
      by (simp add: Let_def)
  qed
qed

lemma hasQuorum_cong:
  "nodeId r = nodeId s \<Longrightarrow> peers r = peers s \<Longrightarrow> matchIndex r = matchIndex s \<Longrightarrow> hasQuorum r k = hasQuorum s k"
  by (simp add: hasQuorum_def commitQuorum_def replicaCount_def)

text \<open>Committing and applying, whatever was acknowledged before.\<close>

lemma commit_apply_ready:
  assumes "logWf (raftLog r)" and "logSmall (raftLog r)"
    and "lastApplied r \<le> commitIndex r" and "commitIndex r \<le> LastIndex (raftLog r)"
  shows "commitReady (fst (applyCommitted (fst (updateCommitIndex r))))"
proof -
  obtain s es where u: "updateCommitIndex r = (s, es)" by fastforce
  note sp = updateCommitIndex_spec [OF assms(1,2,4) u]
  then obtain k where s: "s = r\<lparr>commitIndex := k\<rparr>" "commitIndex r \<le> k" "k \<le> LastIndex (raftLog r)" by metis
  have q: "hasQuorum r (LastIndex (raftLog r)) \<Longrightarrow> k = LastIndex (raftLog r)"
    using sp s by (cases "commitIndex r < LastIndex (raftLog r)") auto
  have "unat k \<le> length (Entries (raftLog r))"
    using s(3) LastIndex_wf [OF assms(1)] assms(2) by (simp add: logSmall_def word_le_nat_alt unat64_of_nat)
  then have "fst (applyCommitted s) = s\<lparr>lastApplied := k\<rparr>"
    using applyCommitted_last [of s] assms(2,3) s by simp
  moreover have "hasQuorum (r\<lparr>commitIndex := k, lastApplied := k\<rparr>) x = hasQuorum r x" for x
    by (rule hasQuorum_cong) simp_all
  ultimately show ?thesis using s q by (simp add: u commitReady_def)
qed

lemma commitReady_nextIndex [simp]: "commitReady (L\<lparr>nextIndex := m\<rparr>) = commitReady L"
proof -
  have "hasQuorum (L\<lparr>nextIndex := m\<rparr>) x = hasQuorum L x" for x by (rule hasQuorum_cong) simp_all
  then show ?thesis by (simp add: commitReady_def)
qed

lemma commit_apply_stopClosed [simp]:
  "stopClosed (fst (applyCommitted r)) = stopClosed r" "stopClosed (fst (updateCommitIndex r)) = stopClosed r"
  by (subst applyCommitted_only, simp) (subst updateCommitIndex_only, simp)

lemma appendReply_leadMove:
  assumes "logWf (raftLog L)" and "logSmall (raftLog L)"
    and "state (fst (appendReply args p result L)) = Leader"
  shows "leadMove {p} L (fst (appendReply args p result L))"
proof (cases rule: appendReply_cases [of args p result L])
  case (ack m reply)
  let ?r = "L\<lparr>matchIndex := (matchIndex L)(p \<mapsto> m), nextIndex := (nextIndex L)(p \<mapsto> m + 1)\<rparr>"
  have "commitReady L \<Longrightarrow> commitReady (fst (applyCommitted (fst (updateCommitIndex ?r))))"
    using assms(1,2) by (intro commit_apply_ready) (simp_all add: commitReady_def)
  then show ?thesis unfolding ack(4) leadMove_def by simp
qed (use assms(3) in \<open>simp_all add: leadMove_def\<close>)

lemma syncRound_leadMove:
  assumes "logWf (raftLog L)" and "logSmall (raftLog L)"
    and "syncRound p (L, F) = (L', F')" and "state L' = Leader"
  shows "leadMove {p} L L'"
  using appendReply_leadMove [OF assms(1,2), of "heartbeatArgs L p" p] assms(3,4)
  by (auto simp: syncRound_def Let_def split: prod.splits) (metis fst_conv)

end
