(* ===== verification/Convergence.thy ===== *)
theory Convergence
  imports Lead_Moves
begin

text \<open>
  Replication always gets through if the network lets it: from any state the cluster reaches
  without a restart, a leader has a continuation of heartbeats and deliveries that brings a
  running peer of no newer term up to date. One round of \<open>Replication\<close> is four actions of the
  cluster; log matching supplies the hypothesis that round needs.
\<close>

definition roundActions :: "int \<Rightarrow> nat \<Rightarrow> Action list" where
  "roundActions i k = [Heartbeat i, AdmitAppend k, HandleAppend k, FinishAppend k]"

lemma appendCall_nth:
  "k < length (replications c) \<Longrightarrow> appendCall k c = Some (replications c ! k, rpCall (replications c ! k))"
  by (simp add: appendCall_def)

lemma cluster_round:
  assumes "votesInv ps H c" and "peersOk ps" and "i \<in> fst ` set ps" and "(p, a) \<in> set ps" and "p \<noteq> i"
    and "state (nodes c i) = Leader" and "\<not> stopClosed (nodes c p)"
  shows "\<exists>k c'. run c (roundActions i k) c'
    \<and> syncRound p (nodes c i, nodes c p) = (nodes c' i, nodes c' p)
    \<and> stopClosed (nodes c' p) = stopClosed (nodes c p)
    \<and> (\<forall>q. q \<noteq> i \<longrightarrow> q \<noteq> p \<longrightarrow> nodes c' q = nodes c q)"
proof -
  let ?L = "nodes c i" and ?F = "nodes c p" and ?n = "length (replications c)"
  let ?ps = "filter (\<lambda>(q, _). q \<noteq> nodeId ?L) (peers ?L)"
  let ?args = "heartbeatArgs ?L p"
  let ?rp = "\<lambda>s. \<lparr>rpLeader = i, rpPeer = p, rpAddress = a, rpArgs = ?args, rpCall = s\<rparr>"
  have id: "nodeId ?L = i" using votesInvD(4) [OF assms(1)] by (simp add: nodeOk_def)
  then have "(p, a) \<in> set ?ps" using assms(4,5) votesInvD(3) [OF assms(1)] by simp
  then obtain x where x: "x < length ?ps" "?ps ! x = (p, a)" by (metis in_set_conv_nth)
  let ?new = "map (\<lambda>(p, a). \<lparr>rpLeader = i, rpPeer = p, rpAddress = a, rpArgs = heartbeatArgs ?L p,
    rpCall = Sent :: AppendEntriesReply Call\<rparr>) ?ps"
  let ?k = "?n + x"
  have c1: "heartbeat i c = c\<lparr>replications := replications c @ ?new\<rparr>"
    using assms(6) by (simp add: heartbeat_def appendCallsOf_sendHeartbeats)
  obtain F es reply where ae: "AppendEntries ?args ?F = (F, es, reply)" by (metis prod_cases3)
  obtain L es' where ar: "appendReply ?args p (Inr reply) ?L = (L, es')" by fastforce
  define reps where "reps = replications c @ ?new"
  have k: "?k < length reps" "reps ! ?k = ?rp Sent"
    using x by (simp_all add: reps_def nth_append)
  have adm: "(admitCall (localTransport c) (nodes c) a :: AppendEntriesReply Call) = Admitted p"
    using endpoint_of_peer [OF assms(2,4)] assms(7)
    by (simp add: admitCall_def admit_def votesInvD(7) [OF assms(1)] NewLocalTransport_def IsStopped_def)
  let ?c1 = "c\<lparr>replications := reps\<rparr>"
  let ?c2 = "c\<lparr>replications := reps[?k := ?rp (Admitted p)]\<rparr>"
  let ?c3 = "(updateNode p F es c)\<lparr>replications := reps[?k := ?rp (Returned (Inr reply))]\<rparr>"
  let ?c4 = "(updateNode i L es' (updateNode p F es c))\<lparr>replications := reps[?k := ?rp Finished]\<rparr>"
  have s1: "perform (Heartbeat i) c = Some ?c1"
    using assms(3) votesInvD(1) [OF assms(1)] by (simp add: c1 reps_def)
  have s2: "perform (AdmitAppend ?k) ?c1 = Some ?c2"
    using k adm by (simp add: admitAppend_def appendCall_nth setAppendCall_def)
  have s3: "perform (HandleAppend ?k) ?c2 = Some ?c3"
    using k ae by (simp add: handleAppend_def appendCall_nth setAppendCall_def updateNode_def)
  have s4: "perform (FinishAppend ?k) ?c3 = Some ?c4"
    using k ar assms(5) by (simp add: finishAppend_def appendCall_nth setAppendCall_def updateNode_def)
  have "run c (roundActions i ?k) ?c4"
    unfolding roundActions_def
    by (rule run_Cons [OF s1 run_Cons [OF s2 run_Cons [OF s3 run_Cons [OF s4 run_Nil]]]])
  moreover have "syncRound p (?L, ?F) = (L, F)" by (simp add: syncRound_def ae ar)
  moreover have "stopClosed F = stopClosed ?F" using AppendEntries_stopClosed [of ?args ?F] ae by simp
  ultimately show ?thesis using assms(5) by (intro exI [of _ ?k] exI [of _ ?c4]) simp
qed

text \<open>A continuation that brings the peers \<open>P\<close> up to date: no restart, the leader only takes answers,
  the peers have its log, and the other nodes are left alone.\<close>

definition replicated :: "int set \<Rightarrow> int \<Rightarrow> Action list \<Rightarrow> Cluster \<Rightarrow> Cluster \<Rightarrow> bool" where
  "replicated P i bs c c' \<longleftrightarrow> filter isRestart bs = [] \<and> leadMove P (nodes c i) (nodes c' i)
     \<and> (\<forall>q \<in> P. synced q (nodes c' i) (nodes c' q)) \<and> (\<forall>q. q \<noteq> i \<longrightarrow> q \<notin> P \<longrightarrow> nodes c' q = nodes c q)"

lemma replicated_trans:
  assumes "replicated P i as c c1" and "replicated R i bs c1 c2" and "P \<inter> R = {}" and "i \<notin> P"
  shows "replicated (P \<union> R) i (as @ bs) c c2"
proof -
  have "synced q (nodes c2 i) (nodes c2 q)" if "q \<in> P" for q
  proof -
    have "q \<notin> R" "q \<noteq> i" using that assms(3,4) by auto
    then have "nodes c2 q = nodes c1 q" "mapRead (matchIndex (nodes c2 i)) q = mapRead (matchIndex (nodes c1 i)) q"
      "raftLog (nodes c2 i) = raftLog (nodes c1 i)"
      using assms(2) by (simp_all add: replicated_def leadMove_def)
    moreover have "synced q (nodes c1 i) (nodes c1 q)" using assms(1) that by (simp add: replicated_def)
    ultimately show ?thesis by (simp add: synced_def)
  qed
  moreover have "leadMove (P \<union> R) (nodes c i) (nodes c2 i)"
    using assms(1,2) by (intro leadMove_trans [of P _ "nodes c1 i"]) (simp_all add: replicated_def)
  ultimately show ?thesis using assms(1,2) by (auto simp: replicated_def)
qed

lemma cluster_converges:
  assumes "votesInv ps H c" and "logsInv ps H G n c" and "termsBelow n c" and "peersOk ps"
    and "i \<in> fst ` set ps" and "(p, a) \<in> set ps" and "p \<noteq> i"
    and "state (nodes c i) = Leader" and "\<not> stopClosed (nodes c p)"
    and "currentTerm (nodes c p) \<le> currentTerm (nodes c i)"
    and "n + 4 * unat (mapRead (nextIndex (nodes c i)) p) < 9223372036854775807"
  shows "\<exists>bs c'. run c bs c' \<and> replicated {p} i bs c c' \<and> length bs \<le> 4 * unat (mapRead (nextIndex (nodes c i)) p)"
  using assms
proof (induction "unat (mapRead (nextIndex (nodes c i)) p)" arbitrary: c n H G rule: less_induct)
  case less
  note inv = less.prems(1-3) and cfg = less.prems(4-10) and small = less.prems(11)
  let ?L = "nodes c i" and ?F = "nodes c p"
  have wf: "logWf (raftLog (nodes c j))" "logSmall (raftLog (nodes c j))" for j
    using logsInvD(1) [OF inv(2), of j] small by (auto simp: logOk_def logWf_def logSmall_def)
  have "prefixOk G (Entries (raftLog (nodes c j)))" for j
    using logsInvD(1) [OF inv(2), of j] by (simp add: logOk_def)
  then have "logsMatch (Entries (raftLog ?F)) (Entries (raftLog ?L))" by (intro prefixOk_match)
  moreover have "nextInLog ?L p"
    using logsInvD(2) [OF inv(2), of i] cfg(3,5) by (force simp: leadOk_def nextOk_def)
  ultimately have ready: "syncReady p ?L ?F" using wf cfg by (simp add: syncReady_def)
  from cluster_round [OF inv(1) cfg(1-6)] obtain k c' where
    c': "run c (roundActions i k) c'" "syncRound p (?L, ?F) = (nodes c' i, nodes c' p)"
      "\<not> stopClosed (nodes c' p)" "\<forall>q. q \<noteq> i \<longrightarrow> q \<noteq> p \<longrightarrow> nodes c' q = nodes c q" using cfg(6) by auto
  have nr: "filter isRestart (roundActions i k) = []" and len: "length (roundActions i k) = 4"
    by (simp_all add: roundActions_def)
  have next1: "0 < unat (mapRead (nextIndex ?L) p)" using ready by (simp add: syncReady_def nextInLog_def)
  have move: "state (nodes c' i) = Leader \<Longrightarrow> leadMove {p} ?L (nodes c' i)"
    by (rule syncRound_leadMove [OF wf c'(2)])
  show ?case
  proof (cases "prevMatches (heartbeatArgs ?L p) ?F")
    case True
    with syncRound_hit [OF ready] c'(2) have "synced p (nodes c' i) (nodes c' p)" "state (nodes c' i) = Leader" by auto
    with c'(1,4) move nr len next1 show ?thesis
      by (intro exI [of _ "roundActions i k"] exI [of _ c']) (simp add: replicated_def)
  next
    case False
    with syncRound_miss [OF ready] c'(2) have m: "syncReady p (nodes c' i) (nodes c' p)"
      "raftLog (nodes c' i) = raftLog ?L"
      "unat (mapRead (nextIndex (nodes c' i)) p) < unat (mapRead (nextIndex ?L) p)" by auto
    have "\<forall>a \<in> set (roundActions i k). \<not> isRestart a" using nr by (simp add: filter_empty_conv)
    moreover have "n + length (roundActions i k) < 9223372036854775808" using small m(3) len by simp
    ultimately obtain H' G' where inv': "votesInv ps H' c'" "logsInv ps H' G' (n + 4) c'"
      "termsBelow (n + 4) c'"
      using run_logs [OF c'(1) cfg(1) inv] len by auto
    have small': "n + 4 + 4 * unat (mapRead (nextIndex (nodes c' i)) p) < 9223372036854775807"
      using small m(3) by linarith
    have lead: "state (nodes c' i) = Leader" "currentTerm (nodes c' p) \<le> currentTerm (nodes c' i)"
      using m(1) by (simp_all add: syncReady_def)
    from less.hyps [OF m(3) inv' cfg(1-4) lead(1) c'(3) lead(2) small'] obtain bs c'' where
      bs: "run c' bs c''" "replicated {p} i bs c' c''" "length bs \<le> 4 * unat (mapRead (nextIndex (nodes c' i)) p)" by blast
    have "replicated {p} i (roundActions i k @ bs) c c''"
      using bs(2) nr c'(4) leadMove_trans [OF move [OF lead(1)], of "{p}"] by (simp add: replicated_def)
    moreover have "length (roundActions i k @ bs) \<le> 4 * unat (mapRead (nextIndex ?L) p)" using bs(3) m(3) len by simp
    ultimately show ?thesis using run_trans [OF bs(1) c'(1)] by blast
  qed
qed

lemma leader_replicates:
  assumes "peersOk ps" and "run (bootCluster ps) as c" and "\<forall>a \<in> set as. \<not> isRestart a"
    and "length as < 2 ^ 60" and "i \<in> fst ` set ps" and "p \<in> fst ` set ps" and "p \<noteq> i"
    and "state (nodes c i) = Leader" and "\<not> stopClosed (nodes c p)"
    and "currentTerm (nodes c p) \<le> currentTerm (nodes c i)"
  shows "\<exists>bs c'. run c bs c' \<and> replicated {p} i bs c c' \<and> length bs \<le> 4 * Suc (length (Entries (raftLog (nodes c i))))"
proof -
  have n: "length as < 1152921504606846976" using assms(4) by simp
  from run_logs [OF assms(2,1) votesInv_boot logsInv_boot termsBelow_boot] assms(3) n
  obtain H G where inv: "votesInv ps H c" "logsInv ps H G (length as) c" "termsBelow (length as) c"
    by auto
  obtain a where a: "(p, a) \<in> set ps" using assms(6) by force
  have nx: "unat (mapRead (nextIndex (nodes c i)) p) \<le> Suc (length (Entries (raftLog (nodes c i))))"
    using logsInvD(2) [OF inv(2), of i] assms(6,8) by (auto simp: leadOk_def nextOk_def nextInLog_def)
  moreover have "length (Entries (raftLog (nodes c i))) \<le> length as"
    using logsInvD(1) [OF inv(2), of i] by (simp add: logOk_def)
  ultimately have "length as + 4 * unat (mapRead (nextIndex (nodes c i)) p) < 9223372036854775807"
    using n by linarith
  from cluster_converges [OF inv assms(1,5) a assms(7-10) this] obtain bs c' where
    "run c bs c'" "replicated {p} i bs c c'" "length bs \<le> 4 * unat (mapRead (nextIndex (nodes c i)) p)" by blast
  moreover from this(3) mult_le_mono2 [OF nx] have "length bs \<le> 4 * Suc (length (Entries (raftLog (nodes c i))))"
    by (rule order_trans)
  ultimately show ?thesis by blast
qed

text \<open>C7. Progress of replication in the cluster: from any state reached without a restart, a
  leader can bring any running peer of no newer term up to date. There is a continuation, of
  heartbeats and deliveries only and again without a restart, after which it still leads, its
  own log is unchanged, that log is a prefix of the peer's, and \<open>matchIndex\<close> for the peer is the
  last index.\<close>

theorem leader_can_replicate:
  assumes "peersOk ps" and "run (bootCluster ps) as c" and "\<forall>a \<in> set as. \<not> isRestart a"
    and "length as < 2 ^ 60" and "i \<in> fst ` set ps" and "p \<in> fst ` set ps" and "p \<noteq> i"
    and "state (nodes c i) = Leader" and "\<not> stopClosed (nodes c p)"
    and "currentTerm (nodes c p) \<le> currentTerm (nodes c i)"
  shows "\<exists>bs c'. run c bs c' \<and> filter isRestart bs = [] \<and> state (nodes c' i) = Leader
    \<and> raftLog (nodes c' i) = raftLog (nodes c i) \<and> synced p (nodes c' i) (nodes c' p)"
  using leader_replicates [OF assms] assms(8) by (fastforce simp: replicated_def leadMove_def)

definition twoEntriesRun :: "Action list" where
  "twoEntriesRun = electActions 0 0 @ [ClientStart 0 (setCmd ''k'' ''A''), ClientStart 0 (setCmd ''k'' ''B'')]"

lemma leader_can_replicate_witness:
  "\<exists>c bs c'. exec twoEntriesRun (bootCluster peers3) = Some c \<and> Entries (raftLog (nodes c 2)) = []
    \<and> run c bs c' \<and> synced 2 (nodes c' 0) (nodes c' 2)
    \<and> length (Entries (raftLog (nodes c' 0))) = 2"
proof -
  have "map_option (\<lambda>c. (state (nodes c 0), length (Entries (raftLog (nodes c 0))), stopClosed (nodes c 2),
        currentTerm (nodes c 2) \<le> currentTerm (nodes c 0), Entries (raftLog (nodes c 2))))
      (exec twoEntriesRun (bootCluster peers3)) = Some (Leader, 2, False, True, [])"
    by code_simp
  then obtain c where c: "exec twoEntriesRun (bootCluster peers3) = Some c"
    "state (nodes c 0) = Leader" "length (Entries (raftLog (nodes c 0))) = 2" "\<not> stopClosed (nodes c 2)"
    "currentTerm (nodes c 2) \<le> currentTerm (nodes c 0)" "Entries (raftLog (nodes c 2)) = []" by auto
  have "\<forall>a \<in> set twoEntriesRun. \<not> isRestart a" "length twoEntriesRun < 2 ^ 60"
    by (simp_all add: twoEntriesRun_def electActions_def)
  moreover have "0 \<in> fst ` set peers3" "2 \<in> fst ` set peers3" by (simp_all add: peers3_def)
  ultimately obtain bs c' where "run c bs c'" "raftLog (nodes c' 0) = raftLog (nodes c 0)"
    "synced 2 (nodes c' 0) (nodes c' 2)"
    using leader_can_replicate [OF peersOk_peers3 exec_run [OF c(1)] _ _ _ _ _ c(2,4,5)] by auto
  with c show ?thesis by (intro exI [of _ c] exI [of _ bs] exI [of _ c']) simp
qed

end
