(* ===== verification/Electability.thy ===== *)
theory Electability
  imports Election_Safety
begin

text \<open>
  A running node whose election timer is armed, and whose log is up to date for a majority of running
  nodes, can be elected from any state reached without a restart, whatever terms, votes and
  messages stand in the way: it stands until its term is above everybody's and then collects one
  vote after the other.
\<close>

section \<open>Standing for election\<close>

definition standing :: "RaftNode \<Rightarrow> RaftNode" where
  "standing r = fst (startElection (fst (timerFired r)))"

lemma standing_eq:
  "standing r = r\<lparr>state := Candidate, currentTerm := currentTerm r + 1, votedFor := nodeId r, timerArmed := True\<rparr>"
  by (simp add: standing_def startElection_moved timerFired_def)

lemma standing_simps [simp]:
  "state (standing r) = Candidate" "currentTerm (standing r) = currentTerm r + 1"
  "timerArmed (standing r) = True" "raftLog (standing r) = raftLog r" "nodeId (standing r) = nodeId r"
  "peers (standing r) = peers r" "stopClosed (standing r) = stopClosed r"
  "commitIndex (standing r) = commitIndex r" "lastApplied (standing r) = lastApplied r"
  by (simp_all add: standing_eq)

definition campaignOf :: "int \<Rightarrow> RaftNode \<Rightarrow> Election" where
  "campaignOf i r = \<lparr>elCandidate = i, elArgs = electionArgs r, elVotes = initialVotes,
     elCalls = map (\<lambda>(p, a). (p, a, Sent)) (filter (\<lambda>(p, _). p \<noteq> nodeId r) (peers r))\<rparr>"

lemma campaign:
  assumes "i \<in> set (members c)" and "timerArmed (nodes c i)" and "state (nodes c i) \<noteq> Leader"
  shows "\<exists>c'. run c [TimerFires i, BeginElection i] c' \<and> members c' = members c
    \<and> localTransport c' = localTransport c \<and> nodes c' = (nodes c)(i := standing (nodes c i))
    \<and> elections c' = elections c @ [campaignOf i (standing (nodes c i))]"
proof -
  let ?r = "fst (timerFired (nodes c i))"
  let ?c1 = "(updateNode i ?r [] c)\<lparr>firing := firing c @ [i]\<rparr>"
  have s1: "perform (TimerFires i) c = Some ?c1"
    using assms by (simp add: timerFires_def timerFired_def)
  obtain c2 where c2: "perform (BeginElection i) ?c1 = Some c2" and
    "members c2 = members c" "localTransport c2 = localTransport c"
    "nodes c2 = (nodes c)(i := standing (nodes c i))"
    "elections c2 = elections c @ [campaignOf i (standing (nodes c i))]"
    by (auto simp: beginElection_def case_prod_unfold standing_def campaignOf_def
        voteCallsOf_startElection startElection_moved updateNode_def)
  with run_Cons [OF s1 run_Cons [OF c2 run_Nil]] show ?thesis by blast
qed

text \<open>Standing again and again raises the term.\<close>

lemma campaigns:
  assumes "i \<in> set (members c)" and "timerArmed (nodes c i)" and "state (nodes c i) \<noteq> Leader"
  shows "\<exists>bs c' s t v. run c bs c' \<and> filter isRestart bs = [] \<and> length bs = 2 * k \<and> members c' = members c
    \<and> localTransport c' = localTransport c \<and> s \<noteq> Leader \<and> t = currentTerm (nodes c i) + word_of_nat k
    \<and> nodes c' = (nodes c)(i := (nodes c i)\<lparr>state := s, currentTerm := t, votedFor := v, timerArmed := True\<rparr>)"
proof (induction k)
  case 0
  have "nodes c = (nodes c)(i := (nodes c i)\<lparr>state := state (nodes c i), currentTerm := currentTerm (nodes c i) + word_of_nat 0,
      votedFor := votedFor (nodes c i), timerArmed := True\<rparr>)"
    using assms(2) by (cases "nodes c i") (auto simp: fun_eq_iff)
  then show ?case using assms(3) run_Nil by fastforce
next
  case (Suc k)
  then obtain bs c1 s t v where c1: "run c bs c1" "filter isRestart bs = []" "length bs = 2 * k"
    "members c1 = members c" "localTransport c1 = localTransport c" "s \<noteq> Leader"
    "t = currentTerm (nodes c i) + word_of_nat k"
    "nodes c1 = (nodes c)(i := (nodes c i)\<lparr>state := s, currentTerm := t, votedFor := v, timerArmed := True\<rparr>)" by blast
  from campaign [of i c1] c1(4,6,8) assms(1) obtain c2 where c2: "run c1 [TimerFires i, BeginElection i] c2"
    "members c2 = members c1" "localTransport c2 = localTransport c1"
    "nodes c2 = (nodes c1)(i := standing (nodes c1 i))" by auto
  from run_trans [OF c2(1) c1(1)] c1 c2(2-4) show ?case
    by (intro exI [of _ "bs @ [TimerFires i, BeginElection i]"] exI [of _ c2] exI [of _ Candidate]
        exI [of _ "t + 1"] exI [of _ "nodeId (nodes c i)"]) (simp add: standing_eq)
qed

section \<open>Collecting votes\<close>

text \<open>A call that brings a vote: not yet sent on, to a running node of an older term for which the
  candidate's log is up to date.\<close>

definition willing :: "Cluster \<Rightarrow> Election \<Rightarrow> nat \<Rightarrow> bool" where
  "willing c el j \<longleftrightarrow> j < length (elCalls el) \<and> (case elCalls el ! j of (p, a, s) \<Rightarrow>
     s = Sent \<and> endpoints (localTransport c) a = Some p \<and> p \<noteq> elCandidate el \<and> \<not> stopClosed (nodes c p)
     \<and> currentTerm (nodes c p) < rvTerm (elArgs el)
     \<and> isCandidateLogUpToDate (rvLastLogIndex (elArgs el)) (rvLastLogTerm (elArgs el)) (nodes c p))"

definition calledPeer :: "Election \<Rightarrow> nat \<Rightarrow> int" where
  "calledPeer el j = fst (elCalls el ! j)"

definition voteActions :: "nat \<Rightarrow> nat \<Rightarrow> Action list" where
  "voteActions e j = [AdmitVote e j, HandleVote e j, FinishVote e j]"

lemma RequestVote_newer:
  assumes "currentTerm r < rvTerm args"
    and "isCandidateLogUpToDate (rvLastLogIndex args) (rvLastLogTerm args) r"
  shows "RequestVote args r = (r\<lparr>currentTerm := rvTerm args, state := Follower, votedFor := rvCandidateID args,
      timerArmed := True\<rparr>, \<lparr>rvrTerm = rvTerm args, rvrVoteGranted = True\<rparr>)"
proof (cases rule: RequestVote_cases [of args r])
  case (seen r1)
  moreover have "isCandidateLogUpToDate (rvLastLogIndex args) (rvLastLogTerm args) r1"
    using assms seen(2) isCandidateLogUpToDate_log [of r1 r] by simp
  ultimately show ?thesis using assms(1) by (simp add: resetElectionTimer_def)
qed (use assms(1) in auto)

lemma voteReply_granted:
  assumes "state r = Candidate" and "currentTerm r = rvTerm args"
  shows "\<exists>es. voteReply args p (Inr \<lparr>rvrTerm = rvTerm args, rvrVoteGranted = True\<rparr>) votes r =
    ((if wonElection r (Suc votes) then fst (becomeLeader r) else r), Suc votes, es)"
  using assms by (auto simp: voteReply_def Let_def split: prod.splits)

lemma vote_round:
  assumes "e < length (elections c)" and "elections c ! e = el" and "elCandidate el = i" and "willing c el j"
    and "state (nodes c i) = Candidate" and "currentTerm (nodes c i) = rvTerm (elArgs el)"
  shows "\<exists>c' a. run c (voteActions e j) c' \<and> localTransport c' = localTransport c
    \<and> nodes c' = (nodes c)(calledPeer el j := fst (RequestVote (elArgs el) (nodes c (calledPeer el j))),
        i := (if wonElection (nodes c i) (Suc (elVotes el)) then fst (becomeLeader (nodes c i)) else nodes c i))
    \<and> elections c' = (elections c)[e := el\<lparr>elCalls := (elCalls el)[j := (calledPeer el j, a, Finished)],
        elVotes := Suc (elVotes el)\<rparr>]"
proof -
  obtain p a where j: "j < length (elCalls el)" "elCalls el ! j = (p, a, Sent)"
    "endpoints (localTransport c) a = Some p" "p \<noteq> i" "\<not> stopClosed (nodes c p)"
    "currentTerm (nodes c p) < rvTerm (elArgs el)"
    "isCandidateLogUpToDate (rvLastLogIndex (elArgs el)) (rvLastLogTerm (elArgs el)) (nodes c p)"
    using assms(3,4) by (auto simp: willing_def)
  have p: "calledPeer el j = p" using j(2) by (simp add: calledPeer_def)
  let ?reply = "\<lparr>rvrTerm = rvTerm (elArgs el), rvrVoteGranted = True\<rparr>"
  obtain w where rv: "RequestVote (elArgs el) (nodes c p) = (w, ?reply)" using RequestVote_newer [OF j(6,7)] by simp
  let ?el = "\<lambda>s. el\<lparr>elCalls := (elCalls el)[j := (p, a, s)]\<rparr>"
  let ?r = "if wonElection (nodes c i) (Suc (elVotes el)) then fst (becomeLeader (nodes c i)) else nodes c i"
  obtain es where vr: "voteReply (elArgs el) p (Inr ?reply) (elVotes el) (nodes c i) = (?r, Suc (elVotes el), es)"
    using voteReply_granted [OF assms(5,6)] by blast
  let ?c1 = "c\<lparr>elections := (elections c)[e := ?el (Admitted p)]\<rparr>"
  let ?c2 = "(updateNode p w [] c)\<lparr>elections := (elections c)[e := ?el (Returned (Inr ?reply))]\<rparr>"
  let ?c3 = "(updateNode i ?r es (updateNode p w [] c))\<lparr>elections :=
    (elections c)[e := (?el Finished)\<lparr>elVotes := Suc (elVotes el)\<rparr>]\<rparr>"
  have s1: "perform (AdmitVote e j) c = Some ?c1"
    using assms(1,2) j(1,2,3,5)
    by (simp add: admitVote_def voteCall_def setVoteCall_def admitCall_def admit_def IsStopped_def Let_def)
  have s2: "perform (HandleVote e j) ?c1 = Some ?c2"
    using assms(1,2) j(1,2) rv by (simp add: handleVote_def voteCall_def setVoteCall_def updateNode_def Let_def)
  have s3: "perform (FinishVote e j) ?c2 = Some ?c3"
    using assms(1-3) j(1,2,4) vr by (simp add: finishVote_def voteCall_def setVoteCall_def updateNode_def Let_def)
  have "run c (voteActions e j) ?c3"
    unfolding voteActions_def by (rule run_Cons [OF s1 run_Cons [OF s2 run_Cons [OF s3 run_Nil]]])
  then show ?thesis unfolding p by (intro exI [of _ ?c3] exI [of _ a]) (simp add: updateNode_def rv)
qed

lemma willing_same:
  assumes "willing c el k" and "localTransport c' = localTransport c"
    and "nodes c' (calledPeer el k) = nodes c (calledPeer el k)" and "elCalls el' ! k = elCalls el ! k"
    and "length (elCalls el') = length (elCalls el)" and "elArgs el' = elArgs el" and "elCandidate el' = elCandidate el"
  shows "willing c' el' k"
  using assms by (auto simp: willing_def calledPeer_def)

text \<open>What the votes change at the other nodes: logs stay, and the term is the old one or the election's.
  The result is one new leader.\<close>

definition polled :: "int \<Rightarrow> uint64 \<Rightarrow> Cluster \<Rightarrow> Cluster \<Rightarrow> bool" where
  "polled i t c c' \<longleftrightarrow> (\<forall>q. q \<noteq> i \<longrightarrow>
     raftLog (nodes c' q) = raftLog (nodes c q) \<and> stopClosed (nodes c' q) = stopClosed (nodes c q)
     \<and> (currentTerm (nodes c' q) = currentTerm (nodes c q) \<or> currentTerm (nodes c' q) = t))"

definition elected :: "int \<Rightarrow> uint64 \<Rightarrow> Cluster \<Rightarrow> Cluster \<Rightarrow> bool" where
  "elected i t c c' \<longleftrightarrow> nodes c' i = fst (becomeLeader (nodes c i)) \<and> polled i t c c'"

lemma elected_trans:
  "polled i t c c1 \<Longrightarrow> nodes c1 i = nodes c i \<Longrightarrow> elected i t c1 c' \<Longrightarrow> elected i t c c'"
  unfolding elected_def polled_def by metis

lemma gather:
  assumes "e < length (elections c)" and "elections c ! e = el" and "elCandidate el = i"
    and "\<forall>j \<in> set js. willing c el j" and "distinct (map (calledPeer el) js)"
    and "state (nodes c i) = Candidate" and "currentTerm (nodes c i) = rvTerm (elArgs el)"
    and "\<not> wonElection (nodes c i) (elVotes el)" and "wonElection (nodes c i) (elVotes el + length js)"
  shows "\<exists>bs c'. run c bs c' \<and> filter isRestart bs = [] \<and> length bs \<le> 3 * length js
    \<and> elected i (rvTerm (elArgs el)) c c'"
  using assms
proof (induction js arbitrary: c el)
  case Nil
  then show ?case by simp
next
  case (Cons j js)
  let ?p = "calledPeer el j" and ?r = "nodes c i"
  have j: "calledPeer el k \<noteq> ?p" if "k \<in> set js" for k
    using Cons.prems(5) imageI [OF that, of "calledPeer el"] by auto
  have w: "willing c el j" and pi: "?p \<noteq> i" using Cons.prems(3,4) by (auto simp: willing_def calledPeer_def)
  from vote_round [OF Cons.prems(1,2,3) w Cons.prems(6,7)] obtain c1 a where
    c1: "run c (voteActions e j) c1" "localTransport c1 = localTransport c"
      "nodes c1 = (nodes c)(?p := fst (RequestVote (elArgs el) (nodes c ?p)),
        i := (if wonElection ?r (Suc (elVotes el)) then fst (becomeLeader ?r) else ?r))"
      "elections c1 = (elections c)[e := el\<lparr>elCalls := (elCalls el)[j := (?p, a, Finished)], elVotes := Suc (elVotes el)\<rparr>]"
    by blast
  have va: "filter isRestart (voteActions e j) = []" "length (voteActions e j) = 3" by (simp_all add: voteActions_def)
  have "nodes c1 ?p = fst (RequestVote (elArgs el) (nodes c ?p))" using pi by (simp add: c1(3))
  then have poll: "polled i (rvTerm (elArgs el)) c c1"
    using w by (auto simp: polled_def c1(3) willing_def calledPeer_def RequestVote_newer split: prod.splits)
  show ?case
  proof (cases "wonElection ?r (Suc (elVotes el))")
    case True
    then have "elected i (rvTerm (elArgs el)) c c1"
      using poll by (simp add: elected_def c1(3))
    with c1(1) va show ?thesis by (intro exI [of _ "voteActions e j"] exI [of _ c1]) simp
  next
    case False
    then have r: "nodes c1 i = ?r" by (simp add: c1(3))
    let ?el = "el\<lparr>elCalls := (elCalls el)[j := (?p, a, Finished)], elVotes := Suc (elVotes el)\<rparr>"
    have same: "elCalls ?el ! k = elCalls el ! k" if "k \<in> set js" for k
      using j [OF that] by (cases "k = j") auto
    have "willing c1 ?el k" if "k \<in> set js" for k
    proof (rule willing_same [OF _ c1(2)])
      show "willing c el k" using Cons.prems(4) that by simp
      then show "nodes c1 (calledPeer el k) = nodes c (calledPeer el k)"
        using j [OF that] Cons.prems(3) by (auto simp: c1(3) willing_def calledPeer_def)
    qed (use same [OF that] in simp_all)
    moreover have "map (calledPeer ?el) js = map (calledPeer el) js" using same by (simp add: calledPeer_def)
    then have "distinct (map (calledPeer ?el) js)" using Cons.prems(5) by (simp only: list.map distinct.simps)
    ultimately have "\<exists>bs c'. run c1 bs c' \<and> filter isRestart bs = [] \<and> length bs \<le> 3 * length js
        \<and> elected i (rvTerm (elArgs ?el)) c1 c'"
      using Cons.prems False r by (intro Cons.IH [of c1 ?el]) (simp_all add: c1(4))
    then obtain bs c' where c': "run c1 bs c'" "filter isRestart bs = []" "length bs \<le> 3 * length js"
      "elected i (rvTerm (elArgs el)) c1 c'" by auto
    have "elected i (rvTerm (elArgs el)) c c'" by (rule elected_trans [OF poll r c'(4)])
    with run_trans [OF c'(1) c1(1)] va c'(2,3) show ?thesis
      by (intro exI [of _ "voteActions e j @ bs"] exI [of _ c']) simp
  qed
qed

text \<open>The calls to the members of \<open>Q\<close>, by their positions.\<close>

lemma positions_of:
  assumes "distinct ys" and "Q \<subseteq> set ys"
  shows "\<exists>js. distinct (map ((!) ys) js) \<and> (\<forall>j \<in> set js. j < length ys \<and> ys ! j \<in> Q) \<and> length js = card Q"
proof -
  let ?js = "filter (\<lambda>j. ys ! j \<in> Q) [0..<length ys]"
  have m: "map ((!) ys) ?js = filter (\<lambda>y. y \<in> Q) ys"
    using filter_map [of "\<lambda>y. y \<in> Q" "(!) ys" "[0..<length ys]"] by (simp add: map_nth comp_def)
  have d: "distinct (map ((!) ys) ?js)" using assms(1) by (simp add: m)
  have "set (map ((!) ys) ?js) = Q" using assms(2) by (auto simp: m)
  with distinct_card [OF d] have "length ?js = card Q" by simp
  with d show ?thesis by (intro exI [of _ ?js]) simp
qed

lemma campaign_willing:
  assumes "peersOk ps" and "votesInv ps H c" and "localTransport c' = localTransport c"
    and "nodes c' = (nodes c)(i := r)" and "nodeId r = i" and "peers r = ps"
    and "Q \<subseteq> fst ` set ps" and "i \<notin> Q"
    and "\<And>q. q \<in> Q \<Longrightarrow> \<not> stopClosed (nodes c q) \<and> currentTerm (nodes c q) < currentTerm r
       \<and> isCandidateLogUpToDate (rvLastLogIndex (electionArgs r)) (rvLastLogTerm (electionArgs r)) (nodes c q)"
  shows "\<exists>js. distinct (map (calledPeer (campaignOf i r)) js) \<and> (\<forall>j \<in> set js. willing c' (campaignOf i r) j)
    \<and> length js = card Q"
proof -
  let ?xs = "filter (\<lambda>(p, _). p \<noteq> i) ps" and ?el = "campaignOf i r"
  have calls: "elCalls ?el = map (\<lambda>(p, a). (p, a, Sent)) ?xs" using assms(5,6) by (simp add: campaignOf_def)
  have fst_xs: "map fst ?xs = filter (\<lambda>p. p \<noteq> i) (map fst ps)"
    by (simp add: filter_map comp_def case_prod_unfold)
  have "distinct (map fst ?xs)" using assms(1) by (simp add: fst_xs peersOk_def)
  moreover have "Q \<subseteq> set (map fst ?xs)" using assms(7,8) by (auto simp: fst_xs)
  ultimately obtain js where js: "distinct (map ((!) (map fst ?xs)) js)" "length js = card Q"
    "\<forall>j \<in> set js. j < length (map fst ?xs) \<and> map fst ?xs ! j \<in> Q" using positions_of by blast
  have call: "j < length ?xs" "elCalls ?el ! j = (fst (?xs ! j), snd (?xs ! j), Sent)" "fst (?xs ! j) \<in> Q"
    "map fst ?xs ! j = fst (?xs ! j)" if "j \<in> set js" for j
    using js(3) that by (auto simp: calls case_prod_unfold)
  have "map (calledPeer ?el) js = map ((!) (map fst ?xs)) js" using call by (simp add: calledPeer_def)
  then have "distinct (map (calledPeer ?el) js)" using js(1) by (simp only:)
  moreover have "willing c' ?el j" if "j \<in> set js" for j
  proof -
    let ?p = "fst (?xs ! j)" and ?a = "snd (?xs ! j)"
    have "?xs ! j \<in> set ps" using nth_mem [OF call(1) [OF that]] by simp
    then have "endpoints (localTransport c') ?a = Some ?p"
      using endpoint_of_peer [OF assms(1), of ?p ?a] votesInvD(7) [OF assms(2)] assms(3)
      by (simp add: NewLocalTransport_def)
    moreover have "?p \<noteq> i" "nodes c' ?p = nodes c ?p" using call(3) [OF that] assms(4,8) by auto
    moreover have "j < length (elCalls ?el)" using call(1) [OF that] by (simp add: calls)
    moreover have "elCandidate ?el = i" "elArgs ?el = electionArgs r" "rvTerm (electionArgs r) = currentTerm r"
      by (simp_all add: campaignOf_def electionArgs_def Let_def)
    ultimately show ?thesis
      using assms(9) [OF call(3) [OF that]] call(2) [OF that] by (simp add: willing_def)
  qed
  ultimately show ?thesis using js(2) by blast
qed

section \<open>Electing a leader\<close>

lemma becomeLeader_rest [simp]:
  "commitIndex (fst (becomeLeader r)) = commitIndex r" "lastApplied (fst (becomeLeader r)) = lastApplied r"
  by (simp_all add: becomeLeader_def Let_def)

text \<open>Standing often enough: a campaign in a term above everybody's.\<close>

lemma campaign_above:
  assumes "votesInv ps H c" and "termsBelow n c" and "n < 2 ^ 60" and "i \<in> fst ` set ps"
    and "timerArmed (nodes c i)" and "state (nodes c i) \<noteq> Leader"
  shows "\<exists>bs c' els r. run c bs c' \<and> filter isRestart bs = [] \<and> length bs = 2 * n + 2
    \<and> localTransport c' = localTransport c \<and> nodes c' = (nodes c)(i := r) \<and> elections c' = els @ [campaignOf i r]
    \<and> state r = Candidate \<and> nodeId r = i \<and> peers r = ps \<and> raftLog r = raftLog (nodes c i)
    \<and> commitIndex r = commitIndex (nodes c i) \<and> lastApplied r = lastApplied (nodes c i)
    \<and> (\<forall>q. currentTerm (nodes c q) < currentTerm r)"
proof -
  have mem: "i \<in> set (members c)" using assms(4) votesInvD(1) [OF assms(1)] by simp
  from campaigns [OF mem assms(5,6), of n] obtain b1 c1 s t v where
    c1: "run c b1 c1" "filter isRestart b1 = []" "length b1 = 2 * n" "members c1 = members c"
      "localTransport c1 = localTransport c" "s \<noteq> Leader" "t = currentTerm (nodes c i) + word_of_nat n"
      "nodes c1 = (nodes c)(i := (nodes c i)\<lparr>state := s, currentTerm := t, votedFor := v, timerArmed := True\<rparr>)" by blast
  let ?r = "standing (nodes c1 i)"
  from campaign [of i c1] c1(4,6,8) mem obtain c2 where
    c2: "run c1 [TimerFires i, BeginElection i] c2" "localTransport c2 = localTransport c1"
      "nodes c2 = (nodes c1)(i := ?r)" "elections c2 = elections c1 @ [campaignOf i ?r]" by auto
  have low: "unat (currentTerm (nodes c q)) \<le> n" for q by (rule termsBelowD(1) [OF assms(2)])
  have "unat (t + 1) = Suc (unat (currentTerm (nodes c i)) + n)"
    using low [of i] assms(3) by (simp add: c1(7) unat_word_ariths)
  then have newer: "currentTerm (nodes c q) < currentTerm ?r" for q
    using low [of q] by (simp add: c1(8) word_less_nat_alt)
  have "peers ?r = ps" "nodeId ?r = i"
    using votesInvD(3,4) [OF assms(1), of i] by (simp_all add: c1(8) nodeOk_def)
  moreover have "raftLog ?r = raftLog (nodes c i)" "commitIndex ?r = commitIndex (nodes c i)"
    "lastApplied ?r = lastApplied (nodes c i)" "nodes c2 = (nodes c)(i := ?r)"
    by (simp_all add: c2(3) c1(8))
  ultimately show ?thesis
    using run_trans [OF c2(1) c1(1)] c1(2,3,5) c2(2,4) newer
    by (intro exI [of _ "b1 @ [TimerFires i, BeginElection i]"] exI [of _ c2] exI [of _ "elections c1"] exI [of _ ?r]) simp
qed

lemma can_be_elected:
  assumes "peersOk ps" and "run (bootCluster ps) as c" and "\<forall>a \<in> set as. \<not> isRestart a" and "length as < 2 ^ 60"
    and "i \<in> fst ` set ps" and "2 \<le> length ps" and "timerArmed (nodes c i)" and "state (nodes c i) \<noteq> Leader"
    and "Q \<subseteq> fst ` set ps" and "i \<notin> Q" and "wonElection (nodes c i) (Suc (card Q))"
    and "\<forall>q \<in> Q. \<not> stopClosed (nodes c q) \<and> isCandidateLogUpToDate (rvLastLogIndex (electionArgs (nodes c i)))
      (rvLastLogTerm (electionArgs (nodes c i))) (nodes c q)"
  shows "\<exists>bs c' r. run c bs c' \<and> filter isRestart bs = [] \<and> length bs \<le> 2 * length as + 3 * card Q + 2
    \<and> nodes c' i = fst (becomeLeader r) \<and> raftLog r = raftLog (nodes c i) \<and> commitIndex r = commitIndex (nodes c i)
    \<and> lastApplied r = lastApplied (nodes c i)
    \<and> (\<forall>q \<in> Q. raftLog (nodes c' q) = raftLog (nodes c q) \<and> \<not> stopClosed (nodes c' q)
        \<and> currentTerm (nodes c' q) \<le> currentTerm (nodes c' i))"
proof -
  have len: "length as < 1152921504606846976" and len60: "length as < 2 ^ 60" using assms(4) by simp_all
  from run_votes [OF assms(2,1) votesInv_boot termsBelow_boot] assms(3) len
  obtain H where inv: "votesInv ps H c" "termsBelow (length as) c" by auto
  from campaign_above [OF inv len60 assms(5,7,8)] obtain b1 c2 els r where
    c2: "run c b1 c2" "filter isRestart b1 = []" "length b1 = 2 * length as + 2" "localTransport c2 = localTransport c"
      "nodes c2 = (nodes c)(i := r)" "elections c2 = els @ [campaignOf i r]" and
    r: "state r = Candidate" "nodeId r = i" "peers r = ps" "raftLog r = raftLog (nodes c i)"
      "commitIndex r = commitIndex (nodes c i)" "lastApplied r = lastApplied (nodes c i)" and
    newer: "\<And>q. currentTerm (nodes c q) < currentTerm r" by blast
  have args: "rvLastLogIndex (electionArgs r) = rvLastLogIndex (electionArgs (nodes c i))"
    "rvLastLogTerm (electionArgs r) = rvLastLogTerm (electionArgs (nodes c i))"
    by (simp_all add: electionArgs_def r(4) Let_def)
  from campaign_willing [OF assms(1) inv(1) c2(4,5) r(2,3) assms(9,10)] assms(12) newer args
  obtain js where js: "distinct (map (calledPeer (campaignOf i r)) js)"
    "\<forall>j \<in> set js. willing c2 (campaignOf i r) j" "length js = card Q" by auto
  have el: "elCandidate (campaignOf i r) = i" "elVotes (campaignOf i r) = 1"
    "rvTerm (elArgs (campaignOf i r)) = currentTerm r"
    by (simp_all add: campaignOf_def initialVotes_def electionArgs_def Let_def)
  have won: "wonElection r k = wonElection (nodes c i) k" for k
    using votesInvD(3) [OF inv(1), of i] r(3) by (simp add: wonElection_def)
  have "\<not> wonElection (nodes c i) 1"
    using assms(6) votesInvD(3) [OF inv(1), of i] by (simp add: wonElection_def)
  then have "\<exists>bs c'. run c2 bs c' \<and> filter isRestart bs = [] \<and> length bs \<le> 3 * length js
      \<and> elected i (rvTerm (elArgs (campaignOf i r))) c2 c'"
    using assms(11) js el won r(1) by (intro gather [of "length els"]) (simp_all add: c2(5,6))
  then obtain b3 c3 where c3: "run c2 b3 c3" "filter isRestart b3 = []" "length b3 \<le> 3 * card Q"
    "elected i (currentTerm r) c2 c3" using js(3) el(3) by auto
  have n3: "nodes c3 i = fst (becomeLeader r)" using c3(4) by (simp add: elected_def c2(5))
  moreover have "raftLog (nodes c3 q) = raftLog (nodes c q) \<and> \<not> stopClosed (nodes c3 q)
      \<and> currentTerm (nodes c3 q) \<le> currentTerm (nodes c3 i)" if "q \<in> Q" for q
    using c3(4) that assms(10,12) newer [of q] n3 by (auto simp: elected_def polled_def c2(5))
  ultimately show ?thesis
    using run_trans [OF c3(1) c2(1)] c2(2,3) c3(2,3) r
    by (intro exI [of _ "b1 @ b3"] exI [of _ c3] exI [of _ r]) auto
qed

end
