(* ===== verification/Progress.thy ===== *)
theory Progress
  imports Convergence Electability
begin

text \<open>
  What a majority can do: elect one of its nodes (\<open>Electability\<close>), give it a client's command,
  replicate to the voters one after the other (\<open>Convergence\<close>), and so commit and apply the
  command, from any state reached without a restart.
\<close>

section \<open>Replicating to several peers\<close>

lemma replicate_all:
  assumes "peersOk ps" and "i \<in> fst ` set ps" and "finite P" and "P \<subseteq> fst ` set ps" and "i \<notin> P"
    and "run (bootCluster ps) as c" and "\<forall>a \<in> set as. \<not> isRestart a"
    and "length as + card P * (4 * Suc (length (Entries (raftLog (nodes c i))))) < 2 ^ 60"
    and "state (nodes c i) = Leader"
    and "\<forall>q \<in> P. \<not> stopClosed (nodes c q) \<and> currentTerm (nodes c q) \<le> currentTerm (nodes c i)"
  shows "\<exists>bs c'. run c bs c' \<and> replicated P i bs c c'
    \<and> length bs \<le> card P * (4 * Suc (length (Entries (raftLog (nodes c i)))))"
  using assms(3,4,5,8,10)
proof (induction P rule: finite_induct)
  case empty
  have "replicated {} i [] c c" by (simp add: replicated_def)
  then show ?case using run_Nil by fastforce
next
  case (insert x P)
  let ?n = "4 * Suc (length (Entries (raftLog (nodes c i))))"
  have n: "length as + (card P * ?n + ?n) < 2 ^ 60" using insert.prems(3) insert.hyps by simp
  have "\<exists>bs c'. run c bs c' \<and> replicated P i bs c c' \<and> length bs \<le> card P * ?n"
    using insert.prems n by (intro insert.IH) (auto intro: le_less_trans [OF _ n])
  then obtain bs c1 where c1: "run c bs c1" "replicated P i bs c c1" "length bs \<le> card P * ?n" by blast
  have same: "nodes c1 x = nodes c x" "state (nodes c1 i) = Leader" "currentTerm (nodes c1 i) = currentTerm (nodes c i)"
    "raftLog (nodes c1 i) = raftLog (nodes c i)"
    using c1(2) insert.hyps insert.prems assms(9) by (auto simp: replicated_def leadMove_def)
  have "\<forall>a \<in> set (as @ bs). \<not> isRestart a" using assms(7) c1(2) by (auto simp: replicated_def filter_empty_conv)
  moreover have "length (as @ bs) < 2 ^ 60" using c1(3) n by simp
  ultimately have "\<exists>cs c'. run c1 cs c' \<and> replicated {x} i cs c1 c'
      \<and> length cs \<le> 4 * Suc (length (Entries (raftLog (nodes c1 i))))"
    using insert.prems(1,2,4) same
    by (intro leader_replicates [OF assms(1) run_trans [OF c1(1) assms(6)] _ _ assms(2)]) auto
  then obtain cs c2 where c2: "run c1 cs c2" "replicated {x} i cs c1 c2" "length cs \<le> ?n" using same(4) by auto
  have "replicated (P \<union> {x}) i (bs @ cs) c c2"
    using insert.hyps insert.prems(2) by (intro replicated_trans [OF c1(2) c2(2)]) auto
  moreover have "length (bs @ cs) \<le> card (insert x P) * ?n" using c1(3) c2(3) insert.hyps by simp
  ultimately show ?case using run_trans [OF c2(1) c1(1)] by (intro exI [of _ "bs @ cs"] exI [of _ c2]) simp
qed

section \<open>Committing a command\<close>

lemma replicaCount_none:
  "(\<And>p. mapRead (matchIndex r) p < k) \<Longrightarrow> replicaCount r k = 1"
  by (force simp: replicaCount_def filter_empty_conv dest: leD)

lemma replicaCount_all:
  assumes "distinct (map fst (peers r))" and "Q \<subseteq> fst ` set (peers r)" and "nodeId r \<notin> Q"
    and "\<And>q. q \<in> Q \<Longrightarrow> k \<le> mapRead (matchIndex r) q"
  shows "Suc (card Q) \<le> replicaCount r k"
proof -
  let ?xs = "filter (\<lambda>(p, _). p \<noteq> nodeId r \<and> k \<le> mapRead (matchIndex r) p) (peers r)"
  have "Q \<subseteq> fst ` set ?xs" using assms(2-4) by force
  then have "card Q \<le> card (fst ` set ?xs)" by (rule card_mono [rotated]) simp
  also have "\<dots> \<le> card (set ?xs)" by (rule card_image_le) simp
  also have "\<dots> \<le> length ?xs" by (rule card_length)
  finally show ?thesis by (simp add: replicaCount_def)
qed

lemma fresh_leader_commitReady:
  assumes "peers r = ps" and "2 \<le> length ps" and "logWf (raftLog r)" and "length (Entries (raftLog r)) < 2 ^ 62"
    and "lastApplied r \<le> commitIndex r" and "commitIndex r \<le> LastIndex (raftLog r)"
  shows "commitReady (fst (Start cmd (fst (becomeLeader r))))"
proof -
  let ?L = "fst (Start cmd (fst (becomeLeader r)))"
  let ?l = "snd (logAppend (currentTerm r) cmd (raftLog r))"
  have L: "?L = (fst (becomeLeader r))\<lparr>raftLog := ?l\<rparr>" by (subst Start_leader) simp_all
  have last: "LastIndex ?l = word_of_nat (Suc (length (Entries (raftLog r))))"
    using LastIndex_wf [OF logAppend_wf [OF assms(3)]] by (simp add: Entries_logAppend)
  have small: "unat (LastIndex ?l) = Suc (length (Entries (raftLog r)))"
    unfolding last using assms(4) by (intro unat64_of_nat) simp
  have "unat (LastIndex (raftLog r)) = length (Entries (raftLog r))"
    using assms(4) by (simp add: LastIndex_wf [OF assms(3)])
  then have le: "commitIndex r \<le> LastIndex ?l"
    using assms(6) small by (simp add: word_le_nat_alt)
  have "mapRead (matchIndex ?L) p < LastIndex ?l" for p
    using small by (simp add: L becomeLeader_matchIndex word_less_nat_alt)
  then have "replicaCount ?L (LastIndex ?l) = 1" by (rule replicaCount_none)
  then have "\<not> hasQuorum ?L (LastIndex ?l)"
    using assms(1,2) by (simp add: hasQuorum_def commitQuorum_def L)
  with le assms(5) show ?thesis by (simp add: commitReady_def L)
qed

text \<open>What follows once \<open>i\<close> has become leader: the client's command, and replication to \<open>Q\<close>.\<close>

lemma leader_can_commit:
  assumes "peersOk ps" and "run (bootCluster ps) as c" and "\<forall>a \<in> set as. \<not> isRestart a"
    and "nodes c i = fst (becomeLeader r)" and "length (Entries (raftLog r)) = n" and "n < 2 ^ 62"
    and "Suc (length as) + card Q * (4 * Suc (Suc n)) < 2 ^ 60" and "2 \<le> length ps" and "i \<in> fst ` set ps"
    and "lastApplied r \<le> commitIndex r" and "commitIndex r \<le> LastIndex (raftLog r)"
    and "Q \<subseteq> fst ` set ps" and "i \<notin> Q" and "wonElection r (Suc (card Q))"
    and "\<forall>q \<in> Q. \<not> stopClosed (nodes c q) \<and> currentTerm (nodes c q) \<le> currentTerm (nodes c i)"
  shows "\<exists>bs c' e. run c bs c' \<and> filter isRestart bs = [] \<and> ClientStart i cmd \<in> set bs \<and> state (nodes c' i) = Leader
    \<and> Entries (raftLog (nodes c' i)) = Entries (raftLog r) @ [e] \<and> entryCommand e = cmd
    \<and> commitIndex (nodes c' i) = LastIndex (raftLog (nodes c' i)) \<and> lastApplied (nodes c' i) = commitIndex (nodes c' i)
    \<and> (\<forall>q \<in> Q. synced q (nodes c' i) (nodes c' q))"
proof -
  have "length as < 9223372036854775808" using assms(7) by simp
  from reachable_logs [OF assms(1-3) this] obtain H G where inv: "votesInv ps H c" "logsInv ps H G (length as) c" .
  have r: "peers r = ps" "nodeId r = i" "logWf (raftLog r)"
    using votesInvD(3,4) [OF inv(1), of i] logsInvD(1) [OF inv(2), of i] assms(4)
    by (simp_all add: nodeOk_def logOk_def logWf_def)
  let ?L = "fst (Start cmd (fst (becomeLeader r)))"
  define c2 where "c2 = clientStart i cmd c"
  have s2: "run c [ClientStart i cmd] c2"
    using assms(9) votesInvD(1) [OF inv(1)] by (intro run_Cons [OF _ run_Nil]) (simp add: c2_def)
  have n2: "nodes c2 = (nodes c)(i := ?L)" by (simp add: c2_def clientStart_def assms(4) case_prod_unfold)
  obtain e where L: "state ?L = Leader" "currentTerm ?L = currentTerm r" "peers ?L = ps" "nodeId ?L = i"
    "Entries (raftLog ?L) = Entries (raftLog r) @ [e]" "entryCommand e = cmd"
    using r by (auto simp: Start_leader Entries_logAppend) (auto simp: logAppend_def Let_def)
  have ready: "commitReady ?L"
    using assms(5,6,8,10,11) by (intro fresh_leader_commitReady [OF r(1) _ r(3)]) simp_all
  have nr2: "\<forall>a \<in> set (as @ [ClientStart i cmd]). \<not> isRestart a" using assms(3) by simp
  have Q2: "\<forall>q \<in> Q. \<not> stopClosed (nodes c2 q) \<and> currentTerm (nodes c2 q) \<le> currentTerm (nodes c2 i)"
    using assms(4,13,15) L(2) by (auto simp: n2)
  have "length (as @ [ClientStart i cmd]) + card Q * (4 * Suc (length (Entries (raftLog (nodes c2 i))))) < 2 ^ 60"
    using assms(5,7) by (simp add: n2 L(5))
  from replicate_all [OF assms(1,9) finite_subset [OF assms(12)] assms(12,13) run_trans [OF s2 assms(2)] nr2 this _ Q2]
  obtain b3 c3 where c3: "run c2 b3 c3" "replicated Q i b3 c2 c3" using L(1) by (auto simp: n2)
  let ?M = "nodes c3 i"
  have M: "raftLog ?M = raftLog ?L" "state ?M = Leader" "peers ?M = ps" "nodeId ?M = i" "commitReady ?M"
    and syn: "\<forall>q \<in> Q. synced q ?M (nodes c3 q)"
    using c3(2) L ready by (simp_all add: replicated_def leadMove_def n2)
  have "Suc (card Q) \<le> replicaCount ?M (LastIndex (raftLog ?M))"
    using assms(1,12,13) M(3,4) syn by (intro replicaCount_all) (simp_all add: peersOk_def synced_def)
  then have "hasQuorum ?M (LastIndex (raftLog ?M))"
    using assms(14) r(1) M(3) by (simp add: hasQuorum_def commitQuorum_def wonElection_def)
  with M(5) have "commitIndex ?M = LastIndex (raftLog ?M)" "lastApplied ?M = commitIndex ?M"
    by (simp_all add: commitReady_def)
  with run_trans [OF c3(1) s2] c3(2) M(1,2) L(5,6) syn show ?thesis
    by (intro exI [of _ "[ClientStart i cmd] @ b3"] exI [of _ c3] exI [of _ e]) (simp add: replicated_def)
qed

text \<open>C6. A majority can make progress: from any state reached without a restart, a node \<open>i\<close> that runs
  without leading, with its election timer armed, its commit index inside its log and at least as large as
  what it has applied, and other running nodes \<open>Q\<close> that make a majority with it and for
  whose logs its own is up to date, have a continuation, again without a restart, in which \<open>i\<close>
  becomes leader and takes the command \<open>cmd\<close> from a client, and after which \<open>i\<close> still leads, its log is the
  old one and one entry with \<open>cmd\<close>, that entry is committed and applied, and every node of \<open>Q\<close> has
  that log. The terms of the others, their votes and whatever is in flight do not matter.\<close>

theorem majority_can_commit:
  assumes "peersOk ps" and "run (bootCluster ps) as c" and "\<forall>a \<in> set as. \<not> isRestart a"
    and "length as < 2 ^ 30" and "2 \<le> length ps" and "length ps < 2 ^ 20"
    and "i \<in> fst ` set ps" and "\<not> stopClosed (nodes c i)" and "timerArmed (nodes c i)" and "state (nodes c i) \<noteq> Leader"
    and "lastApplied (nodes c i) \<le> commitIndex (nodes c i)"
    and "commitIndex (nodes c i) \<le> LastIndex (raftLog (nodes c i))"
    and "Q \<subseteq> fst ` set ps" and "i \<notin> Q" and "wonElection (nodes c i) (Suc (card Q))"
    and "\<forall>q \<in> Q. \<not> stopClosed (nodes c q) \<and> isCandidateLogUpToDate (rvLastLogIndex (electionArgs (nodes c i)))
      (rvLastLogTerm (electionArgs (nodes c i))) (nodes c q)"
  shows "\<exists>bs c' e. run c bs c' \<and> filter isRestart bs = [] \<and> ClientStart i cmd \<in> set bs \<and> state (nodes c' i) = Leader
    \<and> Entries (raftLog (nodes c' i)) = Entries (raftLog (nodes c i)) @ [e] \<and> entryCommand e = cmd
    \<and> commitIndex (nodes c' i) = LastIndex (raftLog (nodes c' i)) \<and> lastApplied (nodes c' i) = commitIndex (nodes c' i)
    \<and> (\<forall>q \<in> Q. take (length (Entries (raftLog (nodes c' i)))) (Entries (raftLog (nodes c' q))) = Entries (raftLog (nodes c' i)))"
proof -
  have len: "length as < 1073741824" and len60: "length as < 2 ^ 60" using assms(4) by simp_all
  then have "length as < 9223372036854775808" by simp
  from reachable_logs [OF assms(1-3) this] obtain H G where inv: "votesInv ps H c" "logsInv ps H G (length as) c" .
  have log: "length (Entries (raftLog (nodes c i))) \<le> length as"
    using logsInvD(1) [OF inv(2), of i] by (simp add: logOk_def)
  have "card Q \<le> card (fst ` set ps)" by (rule card_mono [OF _ assms(13)]) simp
  also have "\<dots> \<le> length ps" using card_image_le [of "set ps" fst] card_length [of ps] by simp
  finally have Q: "card Q < 1048576" using assms(6) by simp
  from can_be_elected [OF assms(1-3) len60 assms(7,5,9,10,13-16)] obtain b1 c1 r where
    c1: "run c b1 c1" "filter isRestart b1 = []" "length b1 \<le> 2 * length as + 3 * card Q + 2"
      "nodes c1 i = fst (becomeLeader r)" "raftLog r = raftLog (nodes c i)" "commitIndex r = commitIndex (nodes c i)"
      "lastApplied r = lastApplied (nodes c i)" and
    Q1: "\<forall>q \<in> Q. \<not> stopClosed (nodes c1 q) \<and> currentTerm (nodes c1 q) \<le> currentTerm (nodes c1 i)"
    by blast
  have r1: "run (bootCluster ps) (as @ b1) c1" by (rule run_trans [OF c1(1) assms(2)])
  have nr1: "\<forall>a \<in> set (as @ b1). \<not> isRestart a" using assms(3) c1(2) by (auto simp: filter_empty_conv)
  have len1: "length (as @ b1) < 9223372036854775808" using c1(3) len Q by simp
  from reachable_logs [OF assms(1) r1 nr1 this] obtain H1 G1 where "votesInv ps H1 c1" "logsInv ps H1 G1 (length (as @ b1)) c1" .
  then have won: "wonElection r (Suc (card Q))"
    using assms(15) votesInvD(3) [of ps H c i] votesInvD(3) [of ps H1 c1 i] inv(1) c1(4) by (simp add: wonElection_def)
  let ?n = "length (Entries (raftLog (nodes c i)))"
  have "card Q * (4 * Suc (Suc ?n)) \<le> 1048576 * (4 * Suc 1073741824)"
    using Q log len by (intro mult_le_mono) simp_all
  then have small: "Suc (length (as @ b1)) + card Q * (4 * Suc (Suc ?n)) < 2 ^ 60" using c1(3) len Q by simp
  have n: "length (Entries (raftLog r)) = ?n" "?n < 2 ^ 62" "lastApplied r \<le> commitIndex r"
    "commitIndex r \<le> LastIndex (raftLog r)" using assms(11,12) log len by (simp_all add: c1(5-7))
  from leader_can_commit [OF assms(1) r1 nr1 c1(4) n(1,2) small assms(5,7) n(3,4) assms(13,14) won Q1]
  obtain b2 c2 e where c2: "run c1 b2 c2" "filter isRestart b2 = []" "ClientStart i cmd \<in> set b2"
    "state (nodes c2 i) = Leader" "Entries (raftLog (nodes c2 i)) = Entries (raftLog (nodes c i)) @ [e]"
    "entryCommand e = cmd" "commitIndex (nodes c2 i) = LastIndex (raftLog (nodes c2 i))"
    "lastApplied (nodes c2 i) = commitIndex (nodes c2 i)" "\<forall>q \<in> Q. synced q (nodes c2 i) (nodes c2 q)"
    unfolding c1(5) by blast
  with run_trans [OF c2(1) c1(1)] c1(2) show ?thesis
    by (intro exI [of _ "b1 @ b2"] exI [of _ c2] exI [of _ e]) (simp add: synced_def)
qed

definition leaderStoppedRun :: "Action list" where
  "leaderStoppedRun = oneEntryRun @ [StopNode 0]"

lemma leader_stopped_run:
  "map_option (\<lambda>c. (stopClosed (nodes c 2), timerArmed (nodes c 2), state (nodes c 2) \<noteq> Leader,
      lastApplied (nodes c 2) \<le> commitIndex (nodes c 2), commitIndex (nodes c 2) \<le> LastIndex (raftLog (nodes c 2)),
      wonElection (nodes c 2) 2, stopClosed (nodes c 1),
      isCandidateLogUpToDate (rvLastLogIndex (electionArgs (nodes c 2))) (rvLastLogTerm (electionArgs (nodes c 2))) (nodes c 1),
      length (Entries (raftLog (nodes c 2)))))
    (exec leaderStoppedRun (bootCluster peers3)) = Some (False, True, True, True, True, True, False, True, 1)"
  by code_simp

lemma majority_can_commit_witness:
  "\<exists>c bs c'. exec leaderStoppedRun (bootCluster peers3) = Some c \<and> run c bs c' \<and> state (nodes c' 2) = Leader
    \<and> length (Entries (raftLog (nodes c' 2))) = 2 \<and> lastApplied (nodes c' 2) = LastIndex (raftLog (nodes c' 2))"
proof -
  obtain c where c: "exec leaderStoppedRun (bootCluster peers3) = Some c" "\<not> stopClosed (nodes c 2)" "timerArmed (nodes c 2)"
    "state (nodes c 2) \<noteq> Leader" "lastApplied (nodes c 2) \<le> commitIndex (nodes c 2)"
    "commitIndex (nodes c 2) \<le> LastIndex (raftLog (nodes c 2))" "wonElection (nodes c 2) 2" "\<not> stopClosed (nodes c 1)"
    "isCandidateLogUpToDate (rvLastLogIndex (electionArgs (nodes c 2))) (rvLastLogTerm (electionArgs (nodes c 2))) (nodes c 1)"
    "length (Entries (raftLog (nodes c 2))) = 1" using leader_stopped_run by auto
  have run: "\<forall>a \<in> set leaderStoppedRun. \<not> isRestart a" "length leaderStoppedRun < 2 ^ 30"
    by (simp_all add: leaderStoppedRun_def oneEntryRun_def electActions_def replicateActions_def)
  have cfg: "2 \<le> length peers3" "length peers3 < 2 ^ 20" "2 \<in> fst ` set peers3" "{1} \<subseteq> fst ` set peers3" "2 \<notin> {1 :: int}"
    by (simp_all add: peers3_def)
  have "wonElection (nodes c 2) (Suc (card {1 :: int}))" using c(7) by (simp add: numeral_2_eq_2)
  from majority_can_commit [OF peersOk_peers3 exec_run [OF c(1)] run cfg(1-3) c(2-6) cfg(4,5) this, of "setCmd ''k'' ''B''"]
    c(1,8-10) show ?thesis by force
qed

end
