(* ===== verification/Http_Transport.thy ===== *)
theory Http_Transport
  imports Kv_Node Cluster
begin

text \<open>
  Raft over HTTP: the handlers (internal/raft/http_handler.go) and the client
  (internal/raft/http_transport.go). The bodies are encoding/json texts. A number or a boolean
  comes back as it was; a string comes back with every byte that is not part of valid UTF-8
  replaced by U+FFFD, so what the two ends exchange is modelled by that map on strings. What
  the network does is an input.
\<close>

section \<open>Strings through encoding/json\<close>

definition contByte :: "byte \<Rightarrow> bool" where
  "contByte b \<longleftrightarrow> 0x80 \<le> b \<and> b \<le> 0xBF"

text \<open>The second byte of a three or four byte rune, by its first byte.\<close>

definition secondByte :: "byte \<Rightarrow> byte \<Rightarrow> bool" where
  "secondByte b0 b1 \<longleftrightarrow>
    (if b0 = 0xE0 then 0xA0 \<le> b1 \<and> b1 \<le> 0xBF
     else if b0 = 0xED then 0x80 \<le> b1 \<and> b1 \<le> 0x9F
     else if b0 = 0xF0 then 0x90 \<le> b1 \<and> b1 \<le> 0xBF
     else if b0 = 0xF4 then 0x80 \<le> b1 \<and> b1 \<le> 0x8F
     else contByte b1)"

text \<open>The size of the rune at the start, 0 if there is no valid one.\<close>

fun runeSize :: "bytes \<Rightarrow> nat" where
  "runeSize [] = 0"
| "runeSize (b0 # bs) =
    (if b0 < 0x80 then 1
     else if 0xC2 \<le> b0 \<and> b0 \<le> 0xDF then
       (case bs of b1 # _ \<Rightarrow> if contByte b1 then 2 else 0 | _ \<Rightarrow> 0)
     else if 0xE0 \<le> b0 \<and> b0 \<le> 0xEF then
       (case bs of b1 # b2 # _ \<Rightarrow> if secondByte b0 b1 \<and> contByte b2 then 3 else 0 | _ \<Rightarrow> 0)
     else if 0xF0 \<le> b0 \<and> b0 \<le> 0xF4 then
       (case bs of b1 # b2 # b3 # _ \<Rightarrow>
          if secondByte b0 b1 \<and> contByte b2 \<and> contByte b3 then 4 else 0 | _ \<Rightarrow> 0)
     else 0)"

definition replacement :: bytes where
  "replacement = [0xEF, 0xBF, 0xBD]"

function coerceUtf8 :: "bytes \<Rightarrow> bytes" where
  "coerceUtf8 bs =
    (if bs = [] then []
     else if runeSize bs = 0 then replacement @ coerceUtf8 (drop 1 bs)
     else take (runeSize bs) bs @ coerceUtf8 (drop (runeSize bs) bs))"
  by pat_completeness auto
termination by (relation "measure length") auto

declare coerceUtf8.simps [simp del]

definition jsonString :: "gostring \<Rightarrow> gostring" where
  "jsonString s = stringOf (coerceUtf8 (bytesOf s))"

lemma coerceUtf8_Nil [simp]: "coerceUtf8 [] = []"
  by (simp add: coerceUtf8.simps)

text \<open>A rune's size depends on its own bytes only.\<close>

lemma runeSize_le: "runeSize bs \<le> length bs"
  by (cases bs rule: runeSize.cases) (auto split: list.splits)

lemma runeSize_prefix:
  assumes "runeSize bs \<noteq> 0" shows "runeSize (take (runeSize bs) bs @ rest) = runeSize bs"
proof (cases bs)
  case (Cons b0 cs)
  with assms show ?thesis
    by (auto split: list.splits if_splits simp: numeral_eq_Suc)
qed (use assms in simp)

lemma coerceUtf8_rune:
  "runeSize bs \<noteq> 0 \<Longrightarrow> coerceUtf8 (take (runeSize bs) bs @ rest) = take (runeSize bs) bs @ coerceUtf8 rest"
proof -
  assume n: "runeSize bs \<noteq> 0"
  note p = runeSize_prefix [OF n, of rest]
  have "length (take (runeSize bs) bs) = runeSize bs" using runeSize_le [of bs] by simp
  with n p show ?thesis by (subst coerceUtf8.simps) auto
qed

lemma runeSize_replacement: "runeSize (replacement @ rest) = 3"
  by (simp add: replacement_def secondByte_def contByte_def)

lemma coerceUtf8_idem: "coerceUtf8 (coerceUtf8 bs) = coerceUtf8 bs"
proof (induction bs rule: coerceUtf8.induct)
  case (1 bs)
  show ?case
  proof (cases "bs = []")
    case False
    note ih = "1.IH" [OF False]
    show ?thesis
    proof (cases "runeSize bs = 0")
      case True
      have "coerceUtf8 (replacement @ coerceUtf8 (drop 1 bs)) = replacement @ coerceUtf8 (coerceUtf8 (drop 1 bs))"
        using coerceUtf8_rune [of replacement] runeSize_replacement [of "[]"] by (simp add: replacement_def)
      then show ?thesis using False True ih(1) by (subst (1 2) coerceUtf8.simps [of bs]) simp
    next
      case no: False
      then show ?thesis
        using False coerceUtf8_rune [OF no] ih(2) by (subst (1 2) coerceUtf8.simps [of bs]) simp
    qed
  qed simp
qed

text \<open>The byte sequences that are texts: runes from start to end.\<close>

function validUtf8 :: "bytes \<Rightarrow> bool" where
  "validUtf8 bs = 
    (if bs = [] then True else if runeSize bs = 0 then False else validUtf8 (drop (runeSize bs) bs))"
  by pat_completeness auto
termination by (relation "measure length") auto

declare validUtf8.simps [simp del]

text \<open>Exactly those are left as they are.\<close>

lemma coerceUtf8_valid_iff: "coerceUtf8 bs = bs \<longleftrightarrow> validUtf8 bs"
proof (induction bs rule: coerceUtf8.induct)
  case (1 bs)
  show ?case
  proof (cases "bs = []")
    case True
    then show ?thesis by (simp add: validUtf8.simps)
  next
    case ne: False
    show ?thesis
    proof (cases "runeSize bs = 0")
      case True
      have "coerceUtf8 bs \<noteq> bs"
      proof
        assume "coerceUtf8 bs = bs"
        with ne True have "bs = replacement @ coerceUtf8 (drop 1 bs)" by (subst (asm) coerceUtf8.simps) simp
        then have "runeSize bs = 3" using runeSize_replacement by metis
        with True show False by simp
      qed
      with ne True show ?thesis by (subst validUtf8.simps) simp
    next
      case False
      let ?n = "runeSize bs"
      have "take ?n bs @ x = bs \<longleftrightarrow> x = drop ?n bs" for x
        using append_take_drop_id [of ?n bs] same_append_eq [of "take ?n bs" x "drop ?n bs"] by argo
      moreover have "coerceUtf8 bs = take ?n bs @ coerceUtf8 (drop ?n bs)"
        using ne False by (subst coerceUtf8.simps) simp
      ultimately have "coerceUtf8 bs = bs \<longleftrightarrow> coerceUtf8 (drop ?n bs) = drop ?n bs" by simp
      with "1.IH"(2) [OF ne False] ne False show ?thesis by (subst validUtf8.simps) simp
    qed
  qed
qed

lemma bytesOf_stringOf [simp]: "bytesOf (stringOf bs) = bs"
proof -
  have "of_char (char_of (unat b) :: char) = b" for b :: byte
  proof -
    have "unat b < 256" using unsigned_less [of b, where ?'a = nat] by simp
    then have "(of_char (char_of (unat b) :: char) :: nat) = unat b" by simp
    then have "word_of_nat (of_char (char_of (unat b) :: char)) = b" by simp
    then show ?thesis by (simp only: of_nat_of_char)
  qed
  then show ?thesis by (simp add: bytesOf_def stringOf_def comp_def)
qed

lemma jsonString_valid_iff: "jsonString s = s \<longleftrightarrow> validUtf8 (bytesOf s)"
  unfolding jsonString_def coerceUtf8_valid_iff [symmetric]
  by (metis bytesOf_stringOf stringOf_bytesOf)

lemma coerceUtf8_ascii: "\<forall>b \<in> set bs. b < 0x80 \<Longrightarrow> coerceUtf8 bs = bs"
proof (induction bs)
  case (Cons b bs)
  then show ?case by (subst coerceUtf8.simps) simp
qed simp

section \<open>The messages\<close>

text \<open>What a message is after a pass through encoding/json. The vote messages and both replies
  hold only numbers and booleans, so only the commands of the log entries change.\<close>

definition jsonCommand :: "Command \<Rightarrow> Command" where
  "jsonCommand c = c\<lparr>cmdKey := jsonString (cmdKey c), cmdValue := jsonString (cmdValue c)\<rparr>"

definition jsonEntry :: "LogEntry \<Rightarrow> LogEntry" where
  "jsonEntry e = e\<lparr>entryCommand := jsonCommand (entryCommand e)\<rparr>"

definition jsonArgs :: "AppendEntriesArgs \<Rightarrow> AppendEntriesArgs" where
  "jsonArgs args = args\<lparr>aeEntries := map jsonEntry (aeEntries args)\<rparr>"

section \<open>The server's side: RegisterRaftHandlers\<close>

datatype 'r HttpAnswer = ErrorAnswer int string | JsonAnswer 'r

text \<open>The method and the body of a request, decoded or with the decoder's message. \<open>later\<close> is what other goroutines do to the
  node between IsStopped and the handler, which take the mutex separately.\<close>

definition requestVoteHandler ::
  "string \<Rightarrow> string + RequestVoteArgs \<Rightarrow> (RaftNode \<Rightarrow> RaftNode) \<Rightarrow> RaftNode \<Rightarrow>
    RaftNode \<times> RequestVoteReply HttpAnswer" where
  "requestVoteHandler rqMethod body later n =
    (if rqMethod \<noteq> ''POST'' then (n, ErrorAnswer 405 ''method not allowed'')
     else if IsStopped n then (n, ErrorAnswer 503 ''node stopped'')
     else case body of
            Inl msg \<Rightarrow> (later n, ErrorAnswer 400 msg)
          | Inr args \<Rightarrow> (case RequestVote args (later n) of (n', reply) \<Rightarrow> (n', JsonAnswer reply)))"

definition appendEntriesHandler ::
  "string \<Rightarrow> string + AppendEntriesArgs \<Rightarrow> (RaftNode \<Rightarrow> RaftNode) \<Rightarrow> RaftNode \<Rightarrow>
    RaftNode \<times> Effect list \<times> AppendEntriesReply HttpAnswer" where
  "appendEntriesHandler rqMethod body later n =
    (if rqMethod \<noteq> ''POST'' then (n, [], ErrorAnswer 405 ''method not allowed'')
     else if IsStopped n then (n, [], ErrorAnswer 503 ''node stopped'')
     else case body of
            Inl msg \<Rightarrow> (later n, [], ErrorAnswer 400 msg)
          | Inr args \<Rightarrow>
              (case AppendEntries args (later n) of (n', es, reply) \<Rightarrow> (n', es, JsonAnswer reply)))"

section \<open>The client's side: HTTPTransport\<close>

text \<open>What the client gets from the network: an error (no connection, no answer in time), or a
  status with a body, which is a JSON reply or does not decode.\<close>

definition answerStatus :: "'r HttpAnswer \<Rightarrow> int" where
  "answerStatus a = (case a of ErrorAnswer status msg \<Rightarrow> status | JsonAnswer reply \<Rightarrow> 200)"

definition clientReply :: "error + 'r HttpAnswer \<Rightarrow> error + 'r" where
  "clientReply got =
    (case got of
       Inl e \<Rightarrow> Inl e
     | Inr a \<Rightarrow>
         if answerStatus a \<noteq> 200 then Inl (Errorf (''bad status: '' @ showInt (answerStatus a)))
         else (case a of ErrorAnswer status msg \<Rightarrow> Inl (Errorf ''undecodable'') | JsonAnswer reply \<Rightarrow> Inr reply))"

text \<open>What may go wrong on the way: the request does not arrive, or the answer does not.\<close>

datatype Fault = NoFault | RequestLost | AnswerLost

definition answered :: "Fault \<Rightarrow> 'r HttpAnswer \<Rightarrow> error + 'r HttpAnswer" where
  "answered fault a = (if fault = AnswerLost then Inl (Errorf ''no answer'') else Inr a)"

text \<open>A whole call: the peer's address is that of the server of a node, or of none.\<close>

definition HTTPRequestVote ::
  "Fault \<Rightarrow> (RaftNode \<Rightarrow> RaftNode) \<Rightarrow> (string \<rightharpoonup> int) \<Rightarrow> string \<Rightarrow> RequestVoteArgs \<Rightarrow>
    (int \<Rightarrow> RaftNode) \<Rightarrow> (int \<Rightarrow> RaftNode) \<times> (error + RequestVoteReply)" where
  "HTTPRequestVote fault later servers peerAddress args ns =
    (case servers peerAddress of
       None \<Rightarrow> (ns, clientReply (Inl (Errorf ''connection refused'')))
     | Some i \<Rightarrow>
         if fault = RequestLost then (ns, clientReply (Inl (Errorf ''no answer'')))
         else (case requestVoteHandler ''POST'' (Inr args) later (ns i) of (n', a) \<Rightarrow>
                 (ns(i := n'), clientReply (answered fault a))))"

definition HTTPAppendEntries ::
  "Fault \<Rightarrow> (RaftNode \<Rightarrow> RaftNode) \<Rightarrow> (string \<rightharpoonup> int) \<Rightarrow> string \<Rightarrow> AppendEntriesArgs \<Rightarrow>
    (int \<Rightarrow> RaftNode) \<Rightarrow> (int \<Rightarrow> RaftNode) \<times> Effect list \<times> (error + AppendEntriesReply)" where
  "HTTPAppendEntries fault later servers peerAddress args ns =
    (case servers peerAddress of
       None \<Rightarrow> (ns, [], clientReply (Inl (Errorf ''connection refused'')))
     | Some i \<Rightarrow>
         if fault = RequestLost then (ns, [], clientReply (Inl (Errorf ''no answer'')))
         else (case appendEntriesHandler ''POST'' (Inr (jsonArgs args)) later (ns i) of (n', es, a) \<Rightarrow>
                 (ns(i := n'), es, clientReply (answered fault a))))"

text \<open>The calls of \<open>LocalTransport\<close> (internal/raft/mock_transport.go), whole.\<close>

definition LocalRequestVote ::
  "(RaftNode \<Rightarrow> RaftNode) \<Rightarrow> LocalTransport \<Rightarrow> string \<Rightarrow> RequestVoteArgs \<Rightarrow>
    (int \<Rightarrow> RaftNode) \<Rightarrow> (int \<Rightarrow> RaftNode) \<times> (error + RequestVoteReply)" where
  "LocalRequestVote later t peerAddress args ns =
    (case admit t ns peerAddress of
       Inl e \<Rightarrow> (ns, Inl e)
     | Inr i \<Rightarrow> (case RequestVote args (later (ns i)) of (n', reply) \<Rightarrow> (ns(i := n'), Inr reply)))"

definition LocalAppendEntries ::
  "(RaftNode \<Rightarrow> RaftNode) \<Rightarrow> LocalTransport \<Rightarrow> string \<Rightarrow> AppendEntriesArgs \<Rightarrow>
    (int \<Rightarrow> RaftNode) \<Rightarrow> (int \<Rightarrow> RaftNode) \<times> Effect list \<times> (error + AppendEntriesReply)" where
  "LocalAppendEntries later t peerAddress args ns =
    (case admit t ns peerAddress of
       Inl e \<Rightarrow> (ns, [], Inl e)
     | Inr i \<Rightarrow> (case AppendEntries args (later (ns i)) of (n', es, reply) \<Rightarrow> (ns(i := n'), es, Inr reply)))"

section \<open>The HTTP transport against the local one\<close>

text \<open>The commands that survive encoding/json.\<close>

definition commandText :: "Command \<Rightarrow> bool" where
  "commandText c \<longleftrightarrow> validUtf8 (bytesOf (cmdKey c)) \<and> validUtf8 (bytesOf (cmdValue c))"

lemma jsonCommand_text: "commandText c \<Longrightarrow> jsonCommand c = c"
  by (simp add: commandText_def jsonCommand_def jsonString_valid_iff [symmetric])

lemma jsonArgs_text: "\<forall>e \<in> set (aeEntries args). commandText (entryCommand e) \<Longrightarrow> jsonArgs args = args"
  by (simp add: jsonArgs_def jsonEntry_def jsonCommand_text map_idI)

definition sameResult :: "error + 'r \<Rightarrow> error + 'r \<Rightarrow> bool" where
  "sameResult r1 r2 \<longleftrightarrow> r1 = r2 \<or> (\<not> isOk r1 \<and> \<not> isOk r2)"

lemma clientReply_simps [simp]:
  "clientReply (Inl e) = Inl e" "clientReply (Inr (JsonAnswer r)) = Inr r"
  "\<not> isOk (clientReply (Inr (ErrorAnswer status msg)))"
  by (simp_all add: clientReply_def answerStatus_def)

lemma HTTPAppendEntries_local:
  assumes "HTTPAppendEntries fault later servers a args ns = (ns1, es1, r1)"
    and "LocalAppendEntries later (NewLocalTransport servers) a (jsonArgs args) ns = (ns2, es2, r2)"
  shows "if fault = RequestLost then ns1 = ns \<and> es1 = [] \<and> \<not> isOk r1
    else ns1 = ns2 \<and> es1 = es2 \<and> (if fault = AnswerLost then \<not> isOk r1 else sameResult r1 r2)"
  using assms
  by (auto simp: HTTPAppendEntries_def LocalAppendEntries_def appendEntriesHandler_def admit_def
      NewLocalTransport_def answered_def sameResult_def IsStopped_def
      split: option.splits if_splits prod.splits)

text \<open>C16. The HTTP transport does what the local one does, as long as the keys and values are
  texts: without a fault the peer ends in the same state, the same effects happen and the caller
  gets the same answer, an error exactly when the local transport has one. A lost request leaves
  the peer as it was, a lost answer does not, and both are errors to the caller.\<close>

theorem http_transport_equals_local:
  assumes "\<forall>e \<in> set (aeEntries args). commandText (entryCommand e)"
    and "HTTPAppendEntries fault later servers a args ns = (ns1, es1, r1)"
    and "LocalAppendEntries later (NewLocalTransport servers) a args ns = (ns2, es2, r2)"
    and "HTTPRequestVote fault later servers a vargs ns = (ns3, v3)"
    and "LocalRequestVote later (NewLocalTransport servers) a vargs ns = (ns4, v4)"
  shows "(if fault = RequestLost then ns1 = ns \<and> es1 = [] \<and> ns3 = ns \<and> \<not> isOk r1 \<and> \<not> isOk v3
      else ns1 = ns2 \<and> es1 = es2 \<and> ns3 = ns4
        \<and> (if fault = AnswerLost then \<not> isOk r1 \<and> \<not> isOk v3 else sameResult r1 r2 \<and> sameResult v3 v4))"
proof -
  have "if fault = RequestLost then ns3 = ns \<and> \<not> isOk v3
    else ns3 = ns4 \<and> (if fault = AnswerLost then \<not> isOk v3 else sameResult v3 v4)"
    using assms(4,5)
    by (auto simp: HTTPRequestVote_def LocalRequestVote_def requestVoteHandler_def admit_def
        NewLocalTransport_def answered_def sameResult_def IsStopped_def
        split: option.splits if_splits prod.splits)
  moreover have "jsonArgs args = args" using assms(1) by (rule jsonArgs_text)
  ultimately show ?thesis using HTTPAppendEntries_local [OF assms(2)] assms(3) by (simp split: if_splits)
qed

lemma commandText_ascii: "commandText (setCmd ''x'' ''x'')"
  by (simp add: commandText_def setCmd_def bytesOf_def validUtf8.simps)

lemma http_transport_equals_local_witness:
  "\<exists>ns1 es1 ns3. HTTPAppendEntries NoFault id [''a'' \<mapsto> 1] ''a'' (appendArgs 1 0 0 [entryAt 1 1 ''x''] 0) NewRaftNode
      = (ns1, es1, Inr \<lparr>aerTerm = 1, aerSuccess = True\<rparr>)
    \<and> HTTPRequestVote NoFault id [''a'' \<mapsto> 1] ''b'' (electionArgs (NewRaftNode 0)) NewRaftNode
      = (ns3, Inl (Errorf ''connection refused''))"
proof -
  let ?args = "appendArgs 1 0 0 [entryAt 1 1 ''x''] 0" and ?v = "electionArgs (NewRaftNode 0)"
  obtain ns1 es1 r1 where h: "HTTPAppendEntries NoFault id [''a'' \<mapsto> 1] ''a'' ?args NewRaftNode = (ns1, es1, r1)"
    by (metis prod_cases3)
  obtain ns2 es2 r2 where l:
    "LocalAppendEntries id (NewLocalTransport [''a'' \<mapsto> 1]) ''a'' ?args NewRaftNode = (ns2, es2, r2)"
    by (metis prod_cases3)
  have "r2 = Inr \<lparr>aerTerm = 1, aerSuccess = True\<rparr>"
  proof -
    have "snd (snd (LocalAppendEntries id (NewLocalTransport [''a'' \<mapsto> 1]) ''a'' ?args NewRaftNode))
        = Inr \<lparr>aerTerm = 1, aerSuccess = True\<rparr>"
      by code_simp
    with l show ?thesis by simp
  qed
  moreover have "\<forall>e \<in> set (aeEntries ?args). commandText (entryCommand e)"
    by (simp add: appendArgs_def commandText_ascii)
  moreover obtain ns3 v3 where v: "HTTPRequestVote NoFault id [''a'' \<mapsto> 1] ''a'' ?v NewRaftNode = (ns3, v3)"
    by fastforce
  moreover obtain ns4 v4 where
    "LocalRequestVote id (NewLocalTransport [''a'' \<mapsto> 1]) ''a'' ?v NewRaftNode = (ns4, v4)" by fastforce
  ultimately have "sameResult r1 r2"
    using http_transport_equals_local [OF _ h l v] by auto
  with h \<open>r2 = _\<close> show ?thesis by (auto simp: sameResult_def HTTPRequestVote_def)
qed

section \<open>Keys that are not texts\<close>

lemma mergeEntry_empty: "Entries l = [] \<Longrightarrow> mergeEntry e l = l\<lparr>Entries := [e]\<rparr>"
  by (auto simp: mergeEntry_def logGet_def outOfRange_def word_neq_0_conv)

text \<open>A fresh follower that is told of one committed entry holds what its command makes of the
  map it had.\<close>

lemma kv_first_entry:
  assumes "kvConsistent d0 n" and "Entries (raftLog (kvRaft n)) = []" and "commandFits cmd"
    and "currentTerm (kvRaft n) \<le> t"
  shows "\<exists>n'. kvAppendEntries (appendArgs t 0 0 [\<lparr>entryIndex = 1, entryTerm = t, entryCommand = cmd\<rparr>] 1) n = Some n'
    \<and> data (kvStore n') = specCommand cmd d0 \<and> lastApplied (kvRaft n') = 1"
proof -
  let ?e = "\<lparr>entryIndex = 1, entryTerm = t, entryCommand = cmd\<rparr>"
  let ?args = "appendArgs t 0 0 [?e] 1" and ?r = "kvRaft n"
  note con = assms(1) [unfolded kvConsistent_def]
  have com: "commitIndex ?r = 0" "lastApplied ?r = 0"
    using con assms(2) by (simp_all add: unat_eq_zero)
  have "argsWf ?args" by (simp add: argsWf_def appendArgs_def numberedFrom_Cons)
  moreover have "list_all (\<lambda>e. commandFits (entryCommand e)) (aeEntries ?args)"
    using assms(3) by (simp add: appendArgs_def)
  ultimately obtain n' where n': "kvAppendEntries ?args n = Some n'" "kvConsistent d0 n'"
    "kvRaft n' = fst (AppendEntries ?args ?r)"
    using kvAppendEntries_keeps [OF assms(1) _ _ refl refl, of ?args] com by auto
  have pm: "prevMatches ?args ?r" by (simp add: prevMatches_def appendArgs_def word_sless_alt)
  have le: "currentTerm ?r \<le> aeTerm ?args" using assms(4) by (simp add: appendArgs_def)
  obtain es where ae: "AppendEntries ?args ?r = (fst (applyCommitted (installed ?args ?r)), es,
      \<lparr>aerTerm = aeTerm ?args, aerSuccess = True\<rparr>)"
    using AppendEntries_accept [OF le pm] by blast
  have inst: "raftLog (installed ?args ?r) = (raftLog ?r)\<lparr>Entries := [?e]\<rparr>" "commitIndex (installed ?args ?r) = 1"
    using com assms(2)
    by (auto simp: installed_def adoptLeader_def advanceCommit_def appendArgs_def mergeEntry_empty
        LastIndex_def word_sless_alt)
  have "lastApplied (installed ?args ?r) = 0" "applyFunc (installed ?args ?r) = Some ApplyToStore"
    using com con by (auto simp: installed_def adoptLeader_def advanceCommit_def)
  then have "kvRaft n' = (installed ?args ?r)\<lparr>lastApplied := 1\<rparr>"
    using applyCommitted_range [of "installed ?args ?r"] inst by (simp add: n'(3) ae logSmall_def)
  with n'(2) inst have "data (kvStore n') = specCommand cmd d0 \<and> lastApplied (kvRaft n') = 1"
    by (simp add: kvConsistent_def)
  with n'(1) show ?thesis by blast
qed

definition kvAppendEntriesHTTP :: "AppendEntriesArgs \<Rightarrow> KVNode \<Rightarrow> KVNode option" where
  "kvAppendEntriesHTTP args =
    kvHandle (\<lambda>r. case appendEntriesHandler ''POST'' (Inr (jsonArgs args)) id r of (r', es, a) \<Rightarrow> (r', es))"

lemma kvAppendEntriesHTTP_eq:
  "\<not> IsStopped (kvRaft n) \<Longrightarrow> kvAppendEntriesHTTP args n = kvAppendEntries (jsonArgs args) n"
  by (simp add: kvAppendEntriesHTTP_def kvAppendEntries_def kvHandle_def appendEntriesHandler_def split: prod.splits)

text \<open>C31. A key that is not valid UTF-8 (the API takes one from the path of its URL) is stored by
  the followers under another key. Told over HTTP of a committed Set, a fresh follower answers
  the same Get with "not found" and the value is at the key with the bad bytes replaced; over
  the local transport it answers with the value. Both have applied the same number of entries.\<close>

theorem http_rewrites_invalid_keys:
  assumes "kvConsistent d0 n" and "Entries (raftLog (kvRaft n)) = []" and "\<not> IsStopped (kvRaft n)"
    and "currentTerm (kvRaft n) \<le> t" and "d0 key = None" and "\<not> validUtf8 (bytesOf key)"
    and "commandFits (setCmd key v)" and "commandFits (setCmd (jsonString key) (jsonString v))"
    and "args = appendArgs t 0 0 [\<lparr>entryIndex = 1, entryTerm = t, entryCommand = setCmd key v\<rparr>] 1"
  shows "\<exists>n1 n2. kvAppendEntries args n = Some n1 \<and> kvGet key n1 = (v, True)
    \<and> kvAppendEntriesHTTP args n = Some n2 \<and> kvGet key n2 = ([], False)
    \<and> kvGet (jsonString key) n2 = (jsonString v, True)
    \<and> lastApplied (kvRaft n1) = lastApplied (kvRaft n2)"
proof -
  have json: "jsonArgs args = appendArgs t 0 0
      [\<lparr>entryIndex = 1, entryTerm = t, entryCommand = setCmd (jsonString key) (jsonString v)\<rparr>] 1"
    by (simp add: assms(9) jsonArgs_def appendArgs_def jsonEntry_def jsonCommand_def setCmd_def)
  obtain n1 where n1: "kvAppendEntries args n = Some n1" "data (kvStore n1) = specCommand (setCmd key v) d0"
    "lastApplied (kvRaft n1) = 1"
    using kv_first_entry [OF assms(1,2,7,4)] assms(9) by blast
  obtain n2 where n2: "kvAppendEntriesHTTP args n = Some n2"
    "data (kvStore n2) = specCommand (setCmd (jsonString key) (jsonString v)) d0" "lastApplied (kvRaft n2) = 1"
    using kv_first_entry [OF assms(1,2,8,4)] kvAppendEntriesHTTP_eq [OF assms(3), of args] json by metis
  have "jsonString key \<noteq> key" using assms(6) by (simp add: jsonString_valid_iff)
  with n1 n2 assms(5) show ?thesis
    by (simp add: specCommand_def setCmd_def kvGet_def storeGet_def)
qed

lemma http_rewrites_invalid_keys_witness:
  "\<exists>n1 n2. kvAppendEntries (appendArgs 1 0 0 [entryAt 1 1 [CHR 0xFF]] 1) (kvNodeWithLog 1 0 []) = Some n1
    \<and> kvGet [CHR 0xFF] n1 = ([CHR 0xFF], True)
    \<and> kvAppendEntriesHTTP (appendArgs 1 0 0 [entryAt 1 1 [CHR 0xFF]] 1) (kvNodeWithLog 1 0 []) = Some n2
    \<and> kvGet [CHR 0xFF] n2 = ([], False)"
proof -
  let ?k = "[CHR 0xFF] :: gostring" and ?n = "kvNodeWithLog 1 0 []"
  have j: "jsonString ?k = [CHR 0xEF, CHR 0xBF, CHR 0xBD]" by code_simp
  have "kvConsistent Map.empty ?n" by (rule kvConsistent_fresh) simp_all
  moreover have "\<not> IsStopped (kvRaft ?n)" by (simp add: IsStopped_def nodeWithLog_def NewRaftNode_def)
  moreover have "\<not> validUtf8 (bytesOf ?k)" by code_simp
  moreover have "commandFits (setCmd ?k ?k)" "commandFits (setCmd (jsonString ?k) (jsonString ?k))"
    by (simp_all add: commandFits_def setCmd_def j)
  ultimately show ?thesis
    using http_rewrites_invalid_keys [of Map.empty ?n 1 ?k ?k, OF _ _ _ _ _ _ _ _ refl]
    by (auto simp: entryAt_def)
qed

end
