(* ===== verification/Leader_Logs.thy ===== *)
theory Leader_Logs
  imports Log_Matching
begin

text \<open>
  What a log holds of a leader's log. \<open>G\<close> is the history of \<open>Log_Matching\<close>: for every term that had
  a leader, that leader's log as far as it got. A log \<open>retains\<close> the first \<open>m\<close> entries of the leader
  of \<open>t\<close> if it starts with them, or if some leader of a later term lacks them; the lemmas say that
  appending, merging a message and winning a vote keep this.
\<close>

section \<open>Prefixes of leader logs\<close>

definition termsLe :: "LeaderLogs \<Rightarrow> bool" where
  "termsLe G \<longleftrightarrow> (\<forall>t g e. G t = Some g \<longrightarrow> e \<in> set g \<longrightarrow> entryTerm e \<le> t)"

text \<open>The leader of \<open>w\<close> lacks the first \<open>m\<close> entries of the leader of \<open>t\<close>.\<close>

definition lacks :: "LeaderLogs \<Rightarrow> uint64 \<Rightarrow> nat \<Rightarrow> uint64 \<Rightarrow> bool" where
  "lacks G t m w \<longleftrightarrow> t < w \<and> (\<exists>g h. G t = Some g \<and> G w = Some h \<and> take m h \<noteq> take m g)"

definition retains :: "LeaderLogs \<Rightarrow> uint64 \<Rightarrow> nat \<Rightarrow> uint64 set \<Rightarrow> LogEntry list \<Rightarrow> bool" where
  "retains G t m W l \<longleftrightarrow> (\<exists>g. G t = Some g \<and> take m l = take m g) \<or> (\<exists>w \<in> W. lacks G t m w)"

text \<open>Leader logs grow by entries of their term.\<close>

definition grows :: "LeaderLogs \<Rightarrow> LeaderLogs \<Rightarrow> bool" where
  "grows G G' \<longleftrightarrow> (\<forall>t g. G t = Some g \<longrightarrow> (\<exists>x. G' t = Some (g @ x) \<and> (\<forall>e \<in> set x. entryTerm e = t)))"

definition covered :: "LeaderLogs \<Rightarrow> uint64 \<Rightarrow> nat \<Rightarrow> bool" where
  "covered G t m \<longleftrightarrow> 0 < m \<and> (\<exists>g. G t = Some g \<and> m \<le> length g)"

text \<open>The last of the first \<open>m\<close> entries is of the leader's own term.\<close>

definition ownTerm :: "LeaderLogs \<Rightarrow> uint64 \<Rightarrow> nat \<Rightarrow> bool" where
  "ownTerm G t m \<longleftrightarrow> (\<exists>g. G t = Some g \<and> 0 < m \<and> m \<le> length g \<and> entryTerm (g ! (m - 1)) = t)"

lemma grows_refl [simp]: "grows G G"
  by (simp add: grows_def)

lemma growsD:
  assumes "grows G G'" and "G t = Some g"
  obtains x where "G' t = Some (g @ x)" and "\<forall>e \<in> set x. entryTerm e = t"
  using assms unfolding grows_def by blast

lemma covered_grows:
  assumes "covered G t m" and "grows G G'"
  obtains g x where "G t = Some g" and "G' t = Some (g @ x)" and "0 < m" and "m \<le> length g"
    and "covered G' t m"
proof -
  obtain g where g: "G t = Some g" "0 < m" "m \<le> length g" using assms(1) by (auto simp: covered_def)
  obtain x where "G' t = Some (g @ x)" using growsD [OF assms(2) g(1)] by blast
  with g that show ?thesis by (simp add: covered_def)
qed

lemma ownTerm_grows:
  assumes "covered G t m" and "grows G G'" shows "ownTerm G' t m \<longleftrightarrow> ownTerm G t m"
proof -
  obtain g x where g: "G t = Some g" "G' t = Some (g @ x)" "0 < m" "m \<le> length g"
    using covered_grows [OF assms] by metis
  then have "(g @ x) ! (m - 1) = g ! (m - 1)" by (simp add: nth_append)
  with g show ?thesis by (simp add: ownTerm_def)
qed

lemma lacks_grows:
  assumes "lacks G t m w" and "grows G G'" and "termsLe G" and "covered G t m"
  shows "lacks G' t m w"
proof -
  obtain g h where g: "t < w" "G t = Some g" "G w = Some h" "take m h \<noteq> take m g" "m \<le> length g"
    using assms(1,4) by (auto simp: lacks_def covered_def)
  obtain x where x: "G' t = Some (g @ x)" using growsD [OF assms(2) g(2)] by blast
  obtain y where y: "G' w = Some (h @ y)" "\<forall>e \<in> set y. entryTerm e = w"
    using growsD [OF assms(2) g(3)] by blast
  have "take m (h @ y) \<noteq> take m (g @ x)"
  proof
    assume eq: "take m (h @ y) = take m (g @ x)"
    have "length h < m" using eq g(4,5) by (cases "m \<le> length h") auto
    moreover have len: "m \<le> length (h @ y)" using arg_cong [OF eq, of length] g(5) by simp
    ultimately obtain e ys where ys: "y = e # ys" by (cases y) auto
    have "(h @ y) ! length h = (g @ x) ! length h"
      using arg_cong [OF eq, of "\<lambda>l. l ! length h"] \<open>length h < m\<close> by (simp del: take_append)
    then have "e = g ! length h" using ys \<open>length h < m\<close> g(5) by (simp add: nth_append)
    then have "entryTerm e \<le> t" using assms(3) g(2,5) \<open>length h < m\<close> by (auto simp: termsLe_def)
    with y(2) ys g(1) show False by simp
  qed
  with x y(1) g(1) show ?thesis by (auto simp: lacks_def)
qed

lemma retains_grows:
  assumes "retains G t m W l" and "grows G G'" and "termsLe G" and "covered G t m" and "W \<subseteq> W'"
  shows "retains G' t m W' l"
proof -
  obtain g where g: "G t = Some g" "m \<le> length g" using assms(4) by (auto simp: covered_def)
  obtain x where "G' t = Some (g @ x)" using growsD [OF assms(2) g(1)] by blast
  with g assms(1,5) lacks_grows [OF _ assms(2-4)] show ?thesis by (auto simp: retains_def)
qed

lemma retains_append:
  assumes "retains G t m W l" and "covered G t m"
  shows "retains G t m W (l @ x)"
proof -
  have "m \<le> length l" if "take m l = take m g" "m \<le> length g" for g
    using arg_cong [OF that(1), of length] that(2) by simp
  with assms show ?thesis by (auto simp: retains_def covered_def)
qed

lemma retains_mono: "retains G t m W l \<Longrightarrow> W \<subseteq> W' \<Longrightarrow> retains G t m W' l"
  by (auto simp: retains_def)

text \<open>A log that is at least as up to date as one that has the prefix, has it too.\<close>

lemma retains_up_to_date:
  assumes "take m lv = take m g" and "G t = Some g" and "ownTerm G t m"
    and "prefixOk G lv" and "prefixOk G lx" and "termsLe G"
    and "lx \<noteq> []" and "entryTerm (last lv) \<le> entryTerm (last lx)"
    and "entryTerm (last lx) = entryTerm (last lv) \<longrightarrow> length lv \<le> length lx"
    and "\<forall>e \<in> set lx. entryTerm e \<le> u"
  shows "retains G t m {..u} lx"
proof -
  have m: "0 < m" "m \<le> length g" "entryTerm (g ! (m - 1)) = t"
    using assms(2,3) by (auto simp: ownTerm_def)
  have "min m (length lv) = m" using arg_cong [OF assms(1), of length] m(2) by simp
  then have lv: "m \<le> length lv" "lv \<noteq> []" using m(1) by auto
  have at: "lv ! (m - 1) = g ! (m - 1)" using arg_cong [OF assms(1), of "\<lambda>l. l ! (m - 1)"] m(1) by simp
  let ?a = "entryTerm (last lv)" and ?c = "entryTerm (last lx)"
  have lastv: "last lv = lv ! (length lv - 1)" and lastx: "last lx = lx ! (length lx - 1)"
    using lv(2) assms(7) by (simp_all add: last_conv_nth)
  have "length lv - 1 < length lv" "length lx - 1 < length lx" using lv(2) assms(7) by auto
  obtain ga where ga: "G ?a = Some ga" "take (length lv) lv = take (length lv) ga"
    using prefixOkD [OF assms(4) \<open>length lv - 1 < length lv\<close>] lv(2)
    by (metis Suc_pred' lastv length_greater_0_conv)
  obtain gc where gc: "G ?c = Some gc" "take (length lx) lx = take (length lx) gc"
    using prefixOkD [OF assms(5) \<open>length lx - 1 < length lx\<close>] assms(7)
    by (metis Suc_pred' lastx length_greater_0_conv)
  have "set lv \<subseteq> set ga" using ga(2) by (metis order_refl set_take_subset take_all)
  moreover have "lv ! (m - 1) \<in> set lv" using lv m(1) by simp
  ultimately have "t \<le> ?a" using assms(6) ga(1) at m(3) by (auto simp: termsLe_def)
  then have tc: "t \<le> ?c" using assms(8) by simp
  have lx: "take m lx = take m gc" if "m \<le> length lx"
    using gc(2) that by (metis min.absorb1 order_refl take_all take_take)
  show ?thesis
  proof (cases "?c = t")
    case True
    then have "length lv \<le> length lx" using \<open>t \<le> ?a\<close> assms(8,9) by simp
    with True lx lv(1) gc(1) assms(2) show ?thesis by (auto simp: retains_def)
  next
    case False
    with tc have less: "t < ?c" by simp
    show ?thesis
    proof (cases "lacks G t m ?c")
      case True
      moreover have "?c \<le> u" using assms(7,10) by simp
      ultimately show ?thesis by (auto simp: retains_def)
    next
      case ok: False
      then have eq: "take m gc = take m g" using less assms(2) gc(1) by (simp add: lacks_def)
      have "m \<le> length lx"
      proof (rule ccontr)
        assume "\<not> m \<le> length lx"
        then have k: "length lx - 1 < m" "length lx - 1 < length g" using m(2) by auto
        have "lx ! (length lx - 1) = gc ! (length lx - 1)"
          using arg_cong [OF gc(2), of "\<lambda>l. l ! (length lx - 1)"] assms(7) by simp
        also have "\<dots> = g ! (length lx - 1)"
          using arg_cong [OF eq, of "\<lambda>l. l ! (length lx - 1)"] k(1) by simp
        finally have "last lx \<in> set g" using k(2) by (simp add: lastx)
        then have "?c \<le> t" using assms(2,6) by (auto simp: termsLe_def)
        with less show False by simp
      qed
      from lx [OF this] eq assms(2) show ?thesis by (auto simp: retains_def)
    qed
  qed
qed

text \<open>Merging a piece of \<open>g\<close>: a shared prefix stays, and what was sent is there afterwards.\<close>

lemma merge_keeps:
  assumes "take m l = take m g" and "m \<le> length g" and "p \<le> k" and "k \<le> length g"
  shows "take m (mergeSpec p (drop p (take k g)) l) = take m g"
  using assms(3)
proof (induction "k - p" arbitrary: p)
  case 0
  then show ?case using assms(1) by simp
next
  case (Suc d)
  then have p: "p < k" by simp
  then have es: "drop p (take k g) = g ! p # drop (Suc p) (take k g)"
    using assms(4) Cons_nth_drop_Suc [of p "take k g"] by simp
  have ml: "m \<le> length l" using arg_cong [OF assms(1), of length] assms(2) by simp
  have ih: "take m (mergeSpec (Suc p) (drop (Suc p) (take k g)) l) = take m g"
    using Suc p by simp
  show ?case
  proof (cases "p < length l \<and> entryTerm (l ! p) = entryTerm (g ! p)")
    case True
    with ih show ?thesis by (simp add: es)
  next
    case False
    have "m \<le> p"
    proof (rule ccontr)
      assume "\<not> m \<le> p"
      then have "l ! p = g ! p" using arg_cong [OF assms(1), of "\<lambda>x. x ! p"] by simp
      with False ml \<open>\<not> m \<le> p\<close> show False by simp
    qed
    moreover have "mergeSpec p (drop p (take k g)) l = take p l @ drop p (take k g)"
      using False by (auto simp: es)
    ultimately show ?thesis using ml assms(1) p assms(4) by (simp add: min_def)
  qed
qed

lemma merge_has:
  assumes "logsMatch l g" and "p \<le> k" and "k \<le> length g" and "take p l = take p g"
  shows "take k (mergeSpec p (drop p (take k g)) l) = take k g"
  using assms(2,4)
proof (induction "k - p" arbitrary: p)
  case 0
  then show ?case by simp
next
  case (Suc d)
  then have p: "p < k" by simp
  then have es: "drop p (take k g) = g ! p # drop (Suc p) (take k g)"
    using assms(3) Cons_nth_drop_Suc [of p "take k g"] by simp
  show ?case
  proof (cases "p < length l \<and> entryTerm (l ! p) = entryTerm (g ! p)")
    case True
    then have "take (Suc p) l = take (Suc p) g"
      using p assms(3) by (intro logsMatchD [OF assms(1)]) simp_all
    then have "take k (mergeSpec (Suc p) (drop (Suc p) (take k g)) l) = take k g"
      using Suc.hyps(2) p by (intro Suc.hyps(1)) simp_all
    with True show ?thesis by (simp add: es)
  next
    case False
    then have "mergeSpec p (drop p (take k g)) l = take p l @ drop p (take k g)" by (auto simp: es)
    also have "\<dots> = take p (take k g) @ drop p (take k g)" using Suc.prems p by (simp add: min_def)
    also have "\<dots> = take k g" by (rule append_take_drop_id)
    finally show ?thesis by simp
  qed
qed

end
