(* ===== verification/Ack_Invariant.thy ===== *)
theory Ack_Invariant
  imports Leader_Logs
begin

text \<open>
  The invariant behind leader completeness. A third history, \<open>A\<close>, records which node has
  acknowledged how much of which leader's log; it stands beside the votes \<open>H\<close> and the leader logs
  \<open>G\<close>. What an acknowledgement promises is local: the node still retains that prefix. A voter
  hands the promise on to the candidate it votes for, and the candidate to its term when it wins.
  The lemmas of this theory change one of the histories or one node at a time.
\<close>

type_synonym Acks = "(uint64 \<times> int \<times> nat) set"

section \<open>The invariant\<close>

abbreviation logOf :: "Cluster \<Rightarrow> int \<Rightarrow> LogEntry list" where
  "logOf c i \<equiv> Entries (raftLog (nodes c i))"

abbreviation termOf :: "Cluster \<Rightarrow> int \<Rightarrow> uint64" where
  "termOf c i \<equiv> currentTerm (nodes c i)"

definition ackOk :: "LeaderLogs \<Rightarrow> uint64 \<Rightarrow> nat \<Rightarrow> RaftNode \<Rightarrow> bool" where
  "ackOk G t m r \<longleftrightarrow> covered G t m \<and> t \<le> currentTerm r
     \<and> retains G t m {..currentTerm r} (Entries (raftLog r))"

text \<open>What a voter of term \<open>u\<close> acknowledged before, its candidate \<open>x\<close> retains.\<close>

definition voteOk :: "LeaderLogs \<Rightarrow> Acks \<Rightarrow> Cluster \<Rightarrow> int \<Rightarrow> uint64 \<Rightarrow> int \<Rightarrow> bool" where
  "voteOk G A c v u x \<longleftrightarrow> u \<le> termOf c x
     \<and> (state (nodes c x) = Candidate \<longrightarrow> termOf c x = u \<longrightarrow>
         (\<forall>t m. (t, v, m) \<in> A \<longrightarrow> ownTerm G t m \<longrightarrow> t < u \<longrightarrow> retains G t m {..u} (logOf c x)))"

text \<open>Behind the leader log \<open>h\<close> of term \<open>w\<close> stands an electing majority whose earlier
  acknowledgements it retains.\<close>

definition backed :: "(int \<times> string) list \<Rightarrow> LeaderLogs \<Rightarrow> Acks \<Rightarrow> Cluster \<Rightarrow> uint64 \<Rightarrow> LogEntry list \<Rightarrow> bool" where
  "backed ps G A c w h \<longleftrightarrow> (\<exists>Q s. peers s = ps \<and> Q \<subseteq> fst ` set ps \<and> wonElection s (card Q)
     \<and> (\<forall>q \<in> Q. w \<le> termOf c q
         \<and> (\<forall>t m. (t, q, m) \<in> A \<longrightarrow> ownTerm G t m \<longrightarrow> t < w \<longrightarrow> retains G t m {..<w} h)))"

definition promises :: "(int \<times> string) list \<Rightarrow> Ballots \<Rightarrow> LeaderLogs \<Rightarrow> Acks \<Rightarrow> Cluster \<Rightarrow> bool" where
  "promises ps H G A c \<longleftrightarrow> termsLe G
     \<and> (\<forall>i. \<forall>e \<in> set (logOf c i). entryTerm e \<le> termOf c i)
     \<and> (\<forall>t v m. (t, v, m) \<in> A \<longrightarrow> ackOk G t m (nodes c v))
     \<and> (\<forall>v u x. H v u = Some x \<longrightarrow> voteOk G A c v u x)
     \<and> (\<forall>w h. G w = Some h \<longrightarrow> backed ps G A c w h)"

lemma promisesD:
  assumes "promises ps H G A c"
  shows "termsLe G" and "e \<in> set (logOf c i) \<Longrightarrow> entryTerm e \<le> termOf c i"
    and "(t, v, m) \<in> A \<Longrightarrow> ackOk G t m (nodes c v)"
    and "H v u = Some x \<Longrightarrow> voteOk G A c v u x" and "G w = Some h \<Longrightarrow> backed ps G A c w h"
  using assms by (simp_all add: promises_def)

lemma promises_cong: "nodes c' = nodes c \<Longrightarrow> promises ps H G A c \<Longrightarrow> promises ps H G A c'"
  by (simp add: promises_def voteOk_def backed_def)

lemma backedE:
  assumes "backed ps G A c w h"
  obtains Q s where "peers s = ps" and "Q \<subseteq> fst ` set ps" and "wonElection s (card Q)"
    and "\<And>q. q \<in> Q \<Longrightarrow> w \<le> termOf c q"
    and "\<And>q t m. q \<in> Q \<Longrightarrow> (t, q, m) \<in> A \<Longrightarrow> ownTerm G t m \<Longrightarrow> t < w \<Longrightarrow> retains G t m {..<w} h"
  using assms unfolding backed_def by blast

lemma backed_mono:
  assumes "backed ps G A c w h" and "\<And>q. w \<le> termOf c q \<Longrightarrow> w \<le> termOf c' q"
    and "\<And>t q m. (t, q, m) \<in> A' \<Longrightarrow> t < w \<Longrightarrow> w \<le> termOf c q \<Longrightarrow> (t, q, m) \<in> A"
  shows "backed ps G A' c' w h"
  using assms(1)
proof (rule backedE)
  fix Q and s :: RaftNode
  assume Q: "peers s = ps" "Q \<subseteq> fst ` set ps" "wonElection s (card Q)"
    and le: "\<And>q. q \<in> Q \<Longrightarrow> w \<le> termOf c q"
    and keeps: "\<And>q t m. q \<in> Q \<Longrightarrow> (t, q, m) \<in> A \<Longrightarrow> ownTerm G t m \<Longrightarrow> t < w \<Longrightarrow> retains G t m {..<w} h"
  have "retains G t m {..<w} h" if "q \<in> Q" "(t, q, m) \<in> A'" "ownTerm G t m" "t < w" for q t m
    using keeps [OF that(1) assms(3) [OF that(2,4) le [OF that(1)]] that(3,4)] .
  with Q le assms(2) show ?thesis
    unfolding backed_def by (intro exI [of _ Q] exI [of _ s]) blast
qed

section \<open>One node moves\<close>

text \<open>A candidate is one of before, with its log, or of a new term.\<close>

definition candidacyOk :: "RaftNode \<Rightarrow> RaftNode \<Rightarrow> bool" where
  "candidacyOk r r' \<longleftrightarrow> (state r' = Candidate \<longrightarrow>
     state r = Candidate \<and> currentTerm r' = currentTerm r \<and> raftLog r' = raftLog r \<and> nodeId r' = nodeId r
     \<or> currentTerm r < currentTerm r')"

lemma promises_node:
  assumes "promises ps H G A c" and c': "nodes c' = (nodes c)(i := r)"
    and le: "termOf c i \<le> currentTerm r"
    and entries: "\<And>e. e \<in> set (Entries (raftLog r)) \<Longrightarrow> entryTerm e \<le> currentTerm r"
    and keeps: "\<And>t m. (t, i, m) \<in> A \<Longrightarrow> ackOk G t m (nodes c i) \<Longrightarrow>
      retains G t m {..currentTerm r} (Entries (raftLog r))"
    and candidate: "candidacyOk (nodes c i) r"
    and votes: "\<And>v u x. H' v u = Some x \<Longrightarrow> H v u = Some x \<or> voteOk G A c' v u x"
  shows "promises ps H' G A c'"
proof -
  have node: "nodes c' j = (if j = i then r else nodes c j)" for j by (simp add: c')
  have mono: "termOf c j \<le> termOf c' j" for j using le by (simp add: node)
  have "ackOk G t m (nodes c' v)" if a: "(t, v, m) \<in> A" for t v m
    using promisesD(3) [OF assms(1) a] keeps [of t m] a le by (auto simp: node ackOk_def)
  moreover have "voteOk G A c' v u x" if h: "H' v u = Some x" for v u x
    using votes [OF h]
  proof
    assume "H v u = Some x"
    then have old: "voteOk G A c v u x" by (rule promisesD(4) [OF assms(1)])
    then have u: "u \<le> termOf c x" by (simp add: voteOk_def)
    show ?thesis
    proof (cases "x = i")
      case True
      with old u le candidate show ?thesis by (fastforce simp: voteOk_def node candidacyOk_def)
    next
      case False
      with old show ?thesis by (simp add: voteOk_def node)
    qed
  qed
  moreover have "backed ps G A c' w h" if "G w = Some h" for w h
    using backed_mono [OF promisesD(5) [OF assms(1) that]] order_trans [OF _ mono] by blast
  ultimately show ?thesis
    using promisesD(1,2) [OF assms(1)] entries by (auto simp: promises_def node)
qed

section \<open>Leader logs grow\<close>

lemma backed_grows:
  assumes "backed ps G A c w h" and "grows G G'" and "termsLe G"
    and "\<And>t v m. (t, v, m) \<in> A \<Longrightarrow> covered G t m"
  shows "backed ps G' A c w (h @ x)"
proof -
  obtain Q s where Q: "peers s = ps" "Q \<subseteq> fst ` set ps" "wonElection s (card Q)"
    "\<And>q. q \<in> Q \<Longrightarrow> w \<le> termOf c q"
    "\<And>q t m. q \<in> Q \<Longrightarrow> (t, q, m) \<in> A \<Longrightarrow> ownTerm G t m \<Longrightarrow> t < w \<Longrightarrow> retains G t m {..<w} h"
    using assms(1) by (rule backedE) blast
  have "retains G' t m {..<w} (h @ x)" if "q \<in> Q" "(t, q, m) \<in> A" "ownTerm G' t m" "t < w" for q t m
  proof -
    note cov = assms(4) [OF that(2)]
    have "ownTerm G t m" using ownTerm_grows [OF cov assms(2)] that(3) by simp
    from Q(5) [OF that(1,2) this that(4)] show ?thesis
      by (intro retains_grows [OF retains_append [OF _ cov] assms(2,3) cov order_refl])
  qed
  with Q(1-4) show ?thesis unfolding backed_def by blast
qed

lemma promises_grow:
  assumes "promises ps H G A c" and "grows G G'"
    and new: "\<And>w h. G w = None \<Longrightarrow> G' w = Some h \<Longrightarrow>
      (\<forall>e \<in> set h. entryTerm e \<le> w) \<and> backed ps G A c w h"
  shows "promises ps H G' A c"
proof -
  note tl = promisesD(1) [OF assms(1)]
  have cov: "covered G t m" if "(t, v, m) \<in> A" for t v m
    using promisesD(3) [OF assms(1) that] by (simp add: ackOk_def)
  have old: "\<exists>h0 x. h = h0 @ x \<and> (\<forall>e \<in> set h. entryTerm e \<le> w) \<and> backed ps G A c w h0"
    if h: "G' w = Some h" for w h
  proof (cases "G w")
    case None
    with new [OF None h] show ?thesis by (intro exI [of _ h] exI [of _ "[]"]) simp
  next
    case (Some h0)
    obtain x where x: "G' w = Some (h0 @ x)" "\<forall>e \<in> set x. entryTerm e = w"
      using growsD [OF assms(2) Some] by blast
    then have "\<forall>e \<in> set h. entryTerm e \<le> w" using tl Some h by (auto simp: termsLe_def)
    then show ?thesis using x h promisesD(5) [OF assms(1) Some] by auto
  qed
  have "ackOk G' t m (nodes c v)" if a: "(t, v, m) \<in> A" for t v m
    using promisesD(3) [OF assms(1) a] covered_grows [OF cov [OF a] assms(2)]
      retains_grows [OF _ assms(2) tl cov [OF a] order_refl] by (auto simp: ackOk_def)
  moreover have "voteOk G' A c v u x" if "H v u = Some x" for v u x
    using promisesD(4) [OF assms(1) that] cov assms(2) ownTerm_grows
      retains_grows [OF _ assms(2) tl _ order_refl] unfolding voteOk_def by meson
  moreover have "backed ps G' A c w h" if gw: "G' w = Some h" for w h
  proof -
    obtain h0 x where "h = h0 @ x" "backed ps G A c w h0" using old [OF gw] by blast
    then show ?thesis using backed_grows [OF _ assms(2) tl] cov by simp
  qed
  moreover have "termsLe G'" using old unfolding termsLe_def by blast
  ultimately show ?thesis using promisesD(2) [OF assms(1)] by (simp add: promises_def)
qed

section \<open>New acknowledgements\<close>

text \<open>They are of the node's current term, in which nobody has been voted for beyond it.\<close>

lemma promises_acks:
  assumes "promises ps H G A c" and "votesInv ps H c"
    and "\<And>t v m. (t, v, m) \<in> A' \<Longrightarrow> (t, v, m) \<in> A \<or> t = termOf c v \<and> ackOk G t m (nodes c v)"
  shows "promises ps H G A' c"
proof -
  have "voteOk G A' c v u x" if h: "H v u = Some x" for v u x
  proof -
    have "u \<le> termOf c v"
      using votesInvD(4) [OF assms(2), of v] h unfolding nodeOk_def by (metis not_le option.discI)
    then have "(t, v, m) \<in> A" if "(t, v, m) \<in> A'" "t < u" for t m
      using assms(3) [OF that(1)] that(2) by (metis leD)
    then show ?thesis using promisesD(4) [OF assms(1) h] unfolding voteOk_def by blast
  qed
  moreover have "backed ps G A' c w h" if "G w = Some h" for w h
    using backed_mono [OF promisesD(5) [OF assms(1) that]] assms(3) by (metis leD)
  moreover have "ackOk G t m (nodes c v)" if "(t, v, m) \<in> A'" for t v m
    using assms(3) [OF that] promisesD(3) [OF assms(1)] by blast
  ultimately show ?thesis using promisesD(1,2) [OF assms(1)] by (simp add: promises_def)
qed

end
