(* ===== verification/Ack_Steps.thy ===== *)
theory Ack_Steps
  imports Ack_Invariant
begin

text \<open>
  Every action of the cluster keeps the promises of \<open>Ack_Invariant\<close>, together with the places where
  the code keeps acknowledgements: \<open>matchIndex\<close>, the answers on their way to the leader and the
  arguments of the elections. One lemma per action says how the history \<open>A\<close> grows: by the leader's
  own entries when it wins or takes a command, and by what a follower has merged.
\<close>

section \<open>Where the code keeps the acknowledgements\<close>

definition electionArgsOk :: "Cluster \<Rightarrow> Election \<Rightarrow> bool" where
  "electionArgsOk c el \<longleftrightarrow> (state (nodes c (elCandidate el)) = Candidate \<longrightarrow>
     termOf c (elCandidate el) = rvTerm (elArgs el) \<longrightarrow>
     elArgs el = electionArgs (nodes c (elCandidate el)))"

definition leadAcks :: "(int \<times> string) list \<Rightarrow> Acks \<Rightarrow> int \<Rightarrow> RaftNode \<Rightarrow> bool" where
  "leadAcks ps A i r \<longleftrightarrow> (state r = Leader \<longrightarrow>
     (\<forall>m \<in> {1..length (Entries (raftLog r))}. (currentTerm r, i, m) \<in> A)
     \<and> (\<forall>p \<in> fst ` set ps. \<forall>m \<in> {1..unat (mapRead (matchIndex r) p)}. (currentTerm r, p, m) \<in> A))"

definition answerOk :: "(int \<times> string) list \<Rightarrow> Acks \<Rightarrow> Replication \<Rightarrow> bool" where
  "answerOk ps A rp \<longleftrightarrow> (rpPeer rp, rpAddress rp) \<in> set ps
     \<and> (\<forall>j. rpCall rp = Admitted j \<longrightarrow> j = rpPeer rp)
     \<and> (\<forall>reply. rpCall rp = Returned (Inr reply) \<longrightarrow> aerSuccess reply \<longrightarrow>
         (\<forall>m \<in> {1..unat (aePrevLogIndex (rpArgs rp)) + length (aeEntries (rpArgs rp))}.
            (aeTerm (rpArgs rp), rpPeer rp, m) \<in> A))"

definition acksInv :: "(int \<times> string) list \<Rightarrow> Ballots \<Rightarrow> LeaderLogs \<Rightarrow> Acks \<Rightarrow> Cluster \<Rightarrow> bool" where
  "acksInv ps H G A c \<longleftrightarrow> promises ps H G A c
     \<and> (\<forall>el \<in> set (elections c). electionArgsOk c el)
     \<and> (\<forall>i. leadAcks ps A i (nodes c i))
     \<and> (\<forall>rp \<in> set (replications c). answerOk ps A rp)"

lemma acksInvD:
  assumes "acksInv ps H G A c"
  shows "promises ps H G A c" and "el \<in> set (elections c) \<Longrightarrow> electionArgsOk c el"
    and "leadAcks ps A i (nodes c i)" and "rp \<in> set (replications c) \<Longrightarrow> answerOk ps A rp"
  using assms by (simp_all add: acksInv_def)

lemma leadAcks_mono: "leadAcks ps A i r \<Longrightarrow> A \<subseteq> A' \<Longrightarrow> leadAcks ps A' i r"
  unfolding leadAcks_def by blast

lemma answerOk_mono: "answerOk ps A rp \<Longrightarrow> A \<subseteq> A' \<Longrightarrow> answerOk ps A' rp"
  unfolding answerOk_def by blast

section \<open>Moves that change neither a log nor a vote\<close>

definition calmMove :: "RaftNode \<Rightarrow> RaftNode \<Rightarrow> bool" where
  "calmMove r r' \<longleftrightarrow> currentTerm r \<le> currentTerm r' \<and> raftLog r' = raftLog r \<and> nodeId r' = nodeId r
     \<and> (state r' = Candidate \<longrightarrow> state r = Candidate \<and> currentTerm r' = currentTerm r)
     \<and> (votedFor r' = -1 \<or> currentTerm r' = currentTerm r \<and> votedFor r' = votedFor r)"

lemma calmMove_candidacy: "calmMove r r' \<Longrightarrow> candidacyOk r r'"
  by (simp add: calmMove_def candidacyOk_def)

lemma calmMove_refl [simp]: "calmMove r r"
  by (simp add: calmMove_def)

lemma timerFired_calm: "calmMove r (fst (timerFired r))"
  by (simp add: calmMove_def timerFired_def)

lemma Stop_calm: "calmMove r (fst (Stop r))"
  by (simp add: calmMove_def Stop_def Let_def)

lemma applyCommitted_updateCommit_calm:
  "calmMove r (fst (applyCommitted (fst (updateCommitIndex (r\<lparr>matchIndex := m, nextIndex := n\<rparr>)))))"
  by (simp add: calmMove_def)

lemma appendReply_calm: "calmMove r (fst (appendReply args p result r))"
  by (cases rule: appendReply_cases [of args p result r]) (auto simp: calmMove_def)

text \<open>The votes such a move leaves as they are, and what a new vote says.\<close>

lemma new_vote:
  assumes "votesInv ps H c" and "votesInv ps H' c'" and "nodes c' = (nodes c)(i := r)"
    and "\<And>v t. t \<noteq> termOf c' v \<Longrightarrow> H' v t = H v t"
    and "H' v u = Some x" and "H v u \<noteq> Some x"
  shows "v = i" and "u = currentTerm r" and "votedFor r = x" and "x \<noteq> -1"
    and "currentTerm r \<noteq> termOf c i \<or> votedFor r \<noteq> votedFor (nodes c i)"
proof -
  have u: "u = termOf c' v" using assms(4) [of u v] assms(5,6) by force
  have h: "votedFor (nodes c' v) = x" "x \<noteq> -1"
    using votesInvD(4) [OF assms(2), of v] assms(5) u by (auto simp: nodeOk_def split: if_splits)
  have old: "\<not> (termOf c' v = termOf c v \<and> votedFor (nodes c' v) = votedFor (nodes c v))"
    using votesInvD(4) [OF assms(1), of v] assms(6) u h by (auto simp: nodeOk_def)
  then show v: "v = i" using assms(3) by (auto split: if_splits)
  show "u = currentTerm r" "votedFor r = x" "x \<noteq> -1"
    "currentTerm r \<noteq> termOf c i \<or> votedFor r \<noteq> votedFor (nodes c i)"
    using u h old v assms(3) by auto
qed

lemma calm_votes:
  assumes "votesInv ps H c" and "votesInv ps H' c'" and "nodes c' = (nodes c)(i := r)"
    and "\<And>v t. t \<noteq> termOf c' v \<Longrightarrow> H' v t = H v t" and "calmMove (nodes c i) r"
    and "H' v u = Some x"
  shows "H v u = Some x"
  using new_vote [OF assms(1-4,6)] assms(5) by (auto simp: calmMove_def)

lemma promises_calm:
  assumes "promises ps H G A c" and "nodes c' = (nodes c)(i := r)" and "calmMove (nodes c i) r"
    and "\<And>v u x. H' v u = Some x \<Longrightarrow> H v u = Some x"
  shows "promises ps H' G A c'"
proof (rule promises_node [OF assms(1,2)])
  show le: "termOf c i \<le> currentTerm r" using assms(3) by (simp add: calmMove_def)
  show "entryTerm e \<le> currentTerm r" if "e \<in> set (Entries (raftLog r))" for e
  proof (rule order_trans [OF promisesD(2) [OF assms(1)] le])
    show "e \<in> set (logOf c i)" using that assms(3) by (simp add: calmMove_def)
  qed
  show "retains G t m {..currentTerm r} (Entries (raftLog r))" if "ackOk G t m (nodes c i)" for t m
  proof -
    have "retains G t m {..termOf c i} (logOf c i)" using that by (simp add: ackOk_def)
    then have "retains G t m {..currentTerm r} (logOf c i)" by (rule retains_mono) (simp add: le)
    then show ?thesis using assms(3) by (simp add: calmMove_def)
  qed
  show "candidacyOk (nodes c i) r" using assms(3) by (rule calmMove_candidacy)
  show "H v u = Some x \<or> voteOk G A c' v u x" if "H' v u = Some x" for v u x
    using assms(4) [OF that] ..
qed

lemma electionArgsOk_node:
  assumes "electionArgsOk c el" and "nodes c' = (nodes c)(i := r)"
    and "rvTerm (elArgs el) \<le> termOf c (elCandidate el)"
    and "candidacyOk (nodes c i) r"
  shows "electionArgsOk c' el"
proof (cases "elCandidate el = i")
  case True
  show ?thesis
    unfolding electionArgsOk_def
  proof (intro impI)
    assume a: "state (nodes c' (elCandidate el)) = Candidate" "termOf c' (elCandidate el) = rvTerm (elArgs el)"
    then have r: "state r = Candidate" "currentTerm r = rvTerm (elArgs el)" using assms(2) True by simp_all
    then have same: "state (nodes c i) = Candidate" "termOf c i = currentTerm r"
      "raftLog r = raftLog (nodes c i)" "nodeId r = nodeId (nodes c i)"
      using assms(3,4) True by (auto simp: candidacyOk_def)
    then have "elArgs el = electionArgs (nodes c i)"
      using assms(1) True r(2) unfolding electionArgsOk_def by metis
    also have "\<dots> = electionArgs r" using same by (simp add: electionArgs_def Let_def)
    finally show "elArgs el = electionArgs (nodes c' (elCandidate el))" using assms(2) True by simp
  qed
next
  case False
  then show ?thesis using assms(1,2) by (simp add: electionArgsOk_def)
qed

lemma election_term:
  assumes "votesInv ps H c" and "el \<in> set (elections c)"
  shows "rvTerm (elArgs el) \<le> termOf c (elCandidate el)"
  using votesInvD(5) [OF assms] votesInvD(4) [OF assms(1), of "elCandidate el"]
  unfolding electionOk_def nodeOk_def by (metis not_le option.discI)

lemma electionArgs_step:
  assumes "acksInv ps H G A c" and "votesInv ps H c" and "nodes c' = (nodes c)(i := r)"
    and "candidacyOk (nodes c i) r"
    and "\<exists>el \<in> set (elections c). elCandidate el' = elCandidate el \<and> elArgs el' = elArgs el"
  shows "electionArgsOk c' el'"
proof -
  obtain el where el: "el \<in> set (elections c)" "elCandidate el' = elCandidate el" "elArgs el' = elArgs el"
    using assms(5) by blast
  have "electionArgsOk c' el"
    by (rule electionArgsOk_node [OF acksInvD(2) [OF assms(1) el(1)] assms(3)
        election_term [OF assms(2) el(1)] assms(4)])
  with el(2,3) show ?thesis by (simp add: electionArgsOk_def)
qed

section \<open>One step\<close>

text \<open>The other two histories around a step, and what is to be shown of the third.\<close>

definition stepOk :: "(int \<times> string) list \<Rightarrow> nat \<Rightarrow> Ballots \<Rightarrow> LeaderLogs \<Rightarrow> Cluster \<Rightarrow> Ballots \<Rightarrow> LeaderLogs \<Rightarrow> Cluster \<Rightarrow> bool" where
  "stepOk ps n H G c H' G' c' \<longleftrightarrow> peersOk ps \<and> n < 9223372036854775807
     \<and> votesInv ps H c \<and> votesInv ps H' c' \<and> extends H H' \<and> (\<forall>v t. t \<noteq> termOf c' v \<longrightarrow> H' v t = H v t)
     \<and> logsInv ps H G n c \<and> logsInv ps H' G' (Suc n) c' \<and> logsGrow G G' c'"

definition acksNext :: "(int \<times> string) list \<Rightarrow> Ballots \<Rightarrow> LeaderLogs \<Rightarrow> LeaderLogs \<Rightarrow> Acks \<Rightarrow> Cluster \<Rightarrow> bool" where
  "acksNext ps H' G G' A c' \<longleftrightarrow> grows G G' \<and> (\<exists>A'. A \<subseteq> A' \<and> acksInv ps H' G' A' c')"

lemma stepOkD:
  assumes "stepOk ps n H G c H' G' c'"
  shows "votesInv ps H c" and "votesInv ps H' c'" and "t \<noteq> termOf c' v \<Longrightarrow> H' v t = H v t"
    and "logsInv ps H G n c" and "logsInv ps H' G' (Suc n) c'" and "logsGrow G G' c'"
    and "n < 9223372036854775807" and "peersOk ps" and "extends H H'"
  using assms by (simp_all add: stepOk_def)

lemma leaderLogs_step:
  assumes "stepOk ps n H G c H' G' c'" and "nodes c' = (nodes c)(i := r)"
  shows "state r \<noteq> Leader \<Longrightarrow> G' = G"
    and "state r = Leader \<Longrightarrow> G' = G(currentTerm r \<mapsto> Entries (raftLog r))"
proof -
  note inv = stepOkD [OF assms(1)]
  have new: "state r = Leader \<and> currentTerm r = t" if d: "G' t \<noteq> G t" for t
  proof -
    obtain j where j: "state (nodes c' j) = Leader" "termOf c' j = t"
      using inv(6) d by (auto simp: logsGrow_def)
    have "j = i"
    proof (rule ccontr)
      assume "j \<noteq> i"
      then have "nodes c' j = nodes c j" using assms(2) by simp
      then have "G t = G' t"
        using j logsInvD(2) [OF inv(4), of j] logsInvD(2) [OF inv(5), of j] unfolding leadOk_def by metis
      with d show False by simp
    qed
    with j assms(2) show ?thesis by simp
  qed
  show "G' = G" if "state r \<noteq> Leader" by (rule ext, rule ccontr) (use new that in simp)
  show "G' = G(currentTerm r \<mapsto> Entries (raftLog r))" if l: "state r = Leader"
  proof
    fix t
    have lead: "G' (currentTerm r) = Some (Entries (raftLog r))"
      using logsInvD(2) [OF inv(5), of i] l assms(2) by (simp add: leadOk_def)
    show "G' t = (G(currentTerm r \<mapsto> Entries (raftLog r))) t"
    proof (cases "t = currentTerm r")
      case True
      with lead show ?thesis by simp
    next
      case False
      then have "G' t = G t" using new [of t] by blast
      with False show ?thesis by simp
    qed
  qed
qed

lemma leaderLogs_same:
  assumes "stepOk ps n H G c H' G' c'" and "nodes c' = (nodes c)(i := r)"
    and "state r = Leader \<Longrightarrow> state (nodes c i) = Leader \<and> currentTerm r = termOf c i
      \<and> raftLog r = raftLog (nodes c i)"
  shows "G' = G"
proof (cases "state r = Leader")
  case True
  have "G (currentTerm r) = Some (Entries (raftLog r))"
    using logsInvD(2) [OF stepOkD(4) [OF assms(1)], of i] assms(3) [OF True] by (simp add: leadOk_def)
  then show ?thesis using leaderLogs_step(2) [OF assms(1,2) True] by (simp add: map_upd_triv)
qed (rule leaderLogs_step(1) [OF assms(1,2)])

lemma acksInv_calm:
  assumes "stepOk ps n H G c H' G' c'" and "acksInv ps H G A c"
    and "nodes c' = (nodes c)(i := r)" and "calmMove (nodes c i) r"
    and "state r = Leader \<Longrightarrow> state (nodes c i) = Leader \<and> currentTerm r = termOf c i"
    and "leadAcks ps A i r"
    and "\<And>el'. el' \<in> set (elections c') \<Longrightarrow>
      \<exists>el \<in> set (elections c). elCandidate el' = elCandidate el \<and> elArgs el' = elArgs el"
    and "\<And>rp. rp \<in> set (replications c') \<Longrightarrow> answerOk ps A rp"
  shows "acksNext ps H' G G' A c'"
proof -
  note inv = stepOkD [OF assms(1)]
  have G: "G' = G"
    by (rule leaderLogs_same [OF assms(1,3)]) (use assms(4,5) in \<open>auto simp: calmMove_def\<close>)
  have "promises ps H' G A c'"
    by (rule promises_calm [OF acksInvD(1) [OF assms(2)] assms(3,4)])
      (rule calm_votes [OF inv(1,2) assms(3) inv(3) assms(4)])
  moreover have "electionArgsOk c' el" if "el \<in> set (elections c')" for el
    by (rule electionArgs_step [OF assms(2) inv(1) assms(3) calmMove_candidacy [OF assms(4)] assms(7) [OF that]])
  moreover have "leadAcks ps A j (nodes c' j)" for j
    using acksInvD(3) [OF assms(2)] assms(3,6) by simp
  ultimately show ?thesis
    using assms(8) by (auto simp: acksNext_def acksInv_def G)
qed

section \<open>The actions that move no log and cast no vote\<close>

lemma sameArgs_update:
  assumes "elCandidate x = elCandidate (els ! e)" and "elArgs x = elArgs (els ! e)" and "el' \<in> set (els[e := x])"
  shows "\<exists>el \<in> set els. elCandidate el' = elCandidate el \<and> elArgs el' = elArgs el"
proof (cases "e < length els")
  case True
  then show ?thesis using assms set_update_subset_insert [of els e x] by (metis insertE nth_mem subsetD)
next
  case False
  then show ?thesis using assms(3) by (auto simp: list_update_beyond)
qed

lemma setVoteCall_args:
  "el' \<in> set (elections (setVoteCall e j s c)) \<Longrightarrow>
    \<exists>el \<in> set (elections c). elCandidate el' = elCandidate el \<and> elArgs el' = elArgs el"
  by (rule sameArgs_update) (simp_all add: setVoteCall_def Let_def)

lemma setVoteCall_frame [simp]:
  "nodes (setVoteCall e j s c) = nodes c" "replications (setVoteCall e j s c) = replications c"
  by (simp_all add: setVoteCall_def Let_def)

lemma setAppendCall_frame [simp]:
  "nodes (setAppendCall k s c) = nodes c" "elections (setAppendCall k s c) = elections c"
  by (simp_all add: setAppendCall_def)

lemma setAppendCall_answers:
  assumes "\<And>rp. rp \<in> set (replications c) \<Longrightarrow> answerOk ps A rp" and "appendCall k c = Some (rp, s0)"
    and "answerOk ps A (rp\<lparr>rpCall := s\<rparr>)" and "rp' \<in> set (replications (setAppendCall k s c))"
  shows "answerOk ps A rp'"
  using assms set_update_subset_insert [of "replications c" k "rp\<lparr>rpCall := s\<rparr>"] appendCall_SomeD [OF assms(2)]
  by (auto simp: setAppendCall_def)

lemma acksInv_same:
  assumes "stepOk ps n H G c H' G' c'" and "acksInv ps H G A c" and "nodes c' = nodes c"
    and "\<And>el'. el' \<in> set (elections c') \<Longrightarrow>
      \<exists>el \<in> set (elections c). elCandidate el' = elCandidate el \<and> elArgs el' = elArgs el"
    and "\<And>rp. rp \<in> set (replications c') \<Longrightarrow> answerOk ps A rp"
  shows "acksNext ps H' G G' A c'"
  by (rule acksInv_calm [OF assms(1,2) _ calmMove_refl _ acksInvD(3) [OF assms(2)] assms(4,5), of 0])
     (simp_all add: assms(3))

lemma acksInv_still:
  assumes "stepOk ps n H G c H' G' c'" and "acksInv ps H G A c" and "nodes c' = (nodes c)(i := r)"
    and "calmMove (nodes c i) r"
    and "state r = Leader \<Longrightarrow> state (nodes c i) = Leader \<and> currentTerm r = termOf c i
      \<and> matchIndex r = matchIndex (nodes c i)"
    and "elections c' = elections c" and "replications c' = replications c"
  shows "acksNext ps H' G G' A c'"
proof (rule acksInv_calm [OF assms(1-4)])
  show "state (nodes c i) = Leader \<and> currentTerm r = termOf c i" if "state r = Leader"
    using assms(5) [OF that] by simp
  show "leadAcks ps A i r"
    using acksInvD(3) [OF assms(2), of i] assms(4,5) by (auto simp: leadAcks_def calmMove_def)
qed (use assms(6,7) acksInvD(4) [OF assms(2)] in auto)

lemma timerFires_acks:
  assumes "stepOk ps n H G c H' G' c'" and "acksInv ps H G A c" and "timerFires i c = Some c'"
  shows "acksNext ps H' G G' A c'"
  using assms(3) timerFired_calm [of "nodes c i"]
  by (intro acksInv_still [OF assms(1,2), of i "fst (timerFired (nodes c i))"])
     (auto simp: timerFires_def timerFired_def split: if_splits prod.splits)

lemma Stop_frame [simp]:
  "state (fst (Stop r)) = state r" "currentTerm (fst (Stop r)) = currentTerm r"
  "matchIndex (fst (Stop r)) = matchIndex r"
  by (simp_all add: Stop_def Let_def)

lemma stopNode_acks:
  assumes "stepOk ps n H G c H' G' (stopNode i c)" and "acksInv ps H G A c"
  shows "acksNext ps H' G G' A (stopNode i c)"
  using Stop_calm [of "nodes c i"]
  by (intro acksInv_still [OF assms, of i "fst (Stop (nodes c i))"])
     (simp_all add: stopNode_def case_prod_unfold)

lemma setVoteCall_acks:
  assumes "stepOk ps n H G c H' G' (setVoteCall e j s c)" and "acksInv ps H G A c"
  shows "acksNext ps H' G G' A (setVoteCall e j s c)"
  using setVoteCall_args acksInvD(4) [OF assms(2)] by (intro acksInv_same [OF assms]) auto

lemma heartbeat_acks:
  assumes "stepOk ps n H G c H' G' (heartbeat i c)" and "acksInv ps H G A c"
  shows "acksNext ps H' G G' A (heartbeat i c)"
proof -
  have "answerOk ps A rp" if "rp \<in> set (appendCallsOf i (sendHeartbeats (nodes c i)))" for rp
    using that votesInvD(3) [OF stepOkD(1) [OF assms(1)], of i]
    by (auto simp: appendCallsOf_sendHeartbeats answerOk_def split: if_splits)
  then show ?thesis
    using acksInvD(4) [OF assms(2)] by (intro acksInv_same [OF assms]) (auto simp: heartbeat_def)
qed

lemma admitAppend_acks:
  assumes "stepOk ps n H G c H' G' c'" and "acksInv ps H G A c" and "admitAppend k c = Some c'"
  shows "acksNext ps H' G G' A c'"
proof -
  obtain rp where call: "appendCall k c = Some (rp, Sent)"
    and c': "c' = setAppendCall k (admitCall (localTransport c) (nodes c) (rpAddress rp)) c"
    using assms(3) by (auto simp: admitAppend_def split: option.splits prod.splits Call.splits)
  have ok: "answerOk ps A rp" by (rule acksInvD(4) [OF assms(2) appendCall_SomeD(4) [OF call]])
  then have "endpoints (localTransport c) (rpAddress rp) = Some (rpPeer rp)"
    using endpoint_of_peer [OF stepOkD(8) [OF assms(1)]]
    by (simp add: votesInvD(7) [OF stepOkD(1) [OF assms(1)]] NewLocalTransport_def answerOk_def)
  then have "answerOk ps A (rp\<lparr>rpCall := admitCall (localTransport c) (nodes c) (rpAddress rp)\<rparr>)"
    using ok by (auto simp: answerOk_def admitCall_def admit_def)
  then show ?thesis
    using setAppendCall_answers [OF acksInvD(4) [OF assms(2)] call] assms(1)
    by (intro acksInv_same [OF assms(1,2)]) (auto simp: c')
qed

lemma loseAppend_acks:
  assumes "stepOk ps n H G c H' G' c'" and "acksInv ps H G A c" and "loseAppend k c = Some c'"
  shows "acksNext ps H' G G' A c'"
proof -
  obtain rp s where call: "appendCall k c = Some (rp, s)"
    and c': "c' = setAppendCall k (Returned (Inl (Errorf ''no answer''))) c"
    using assms(3) by (auto simp: loseAppend_def split: option.splits prod.splits if_splits)
  have "answerOk ps A (rp\<lparr>rpCall := Returned (Inl (Errorf ''no answer''))\<rparr>)"
    using acksInvD(4) [OF assms(2) appendCall_SomeD(4) [OF call]] by (simp add: answerOk_def)
  then show ?thesis
    using setAppendCall_answers [OF acksInvD(4) [OF assms(2)] call]
    by (intro acksInv_same [OF assms(1,2)]) (auto simp: c')
qed

text \<open>The answer to a message: \<open>matchIndex\<close> counts what was acknowledged.\<close>

lemma appendReply_leadAcks:
  assumes "leadAcks ps A i r" and "answerOk ps A rp" and "rpCall rp = Returned result"
  shows "leadAcks ps A i (fst (appendReply (rpArgs rp) (rpPeer rp) result r))"
proof (cases rule: appendReply_cases [of "rpArgs rp" "rpPeer rp" result r])
  case (ack m reply)
  let ?args = "rpArgs rp"
  have "unat m \<le> unat (aePrevLogIndex ?args) + unat (word_of_nat (length (aeEntries ?args)) :: uint64)"
    by (simp add: ack(3) unat_word_ariths)
  also have "\<dots> \<le> unat (aePrevLogIndex ?args) + length (aeEntries ?args)" by (simp add: unat_of_nat)
  finally have "unat m \<le> \<dots>" .
  then have "\<forall>k \<in> {1..unat m}. (currentTerm r, rpPeer rp, k) \<in> A"
    using assms(2,3) ack(2,5,6) by (auto simp: answerOk_def)
  with assms(1) show ?thesis by (simp add: leadAcks_def ack(4))
qed (use assms(1) in \<open>simp_all add: leadAcks_def\<close>)

lemma finishAppend_acks:
  assumes "stepOk ps n H G c H' G' c'" and "acksInv ps H G A c" and "finishAppend k c = Some c'"
  shows "acksNext ps H' G G' A c'"
  using assms(3)
proof (cases rule: finishAppend_cases)
  case (1 rp result r es)
  let ?i = "rpLeader rp"
  have r: "r = fst (appendReply (rpArgs rp) (rpPeer rp) result (nodes c ?i))" using 1(2) by simp
  have ok: "answerOk ps A rp" by (rule acksInvD(4) [OF assms(2) appendCall_SomeD(4) [OF 1(1)]])
  then have fin: "answerOk ps A (rp\<lparr>rpCall := Finished\<rparr>)" by (simp add: answerOk_def)
  show ?thesis
  proof (rule acksInv_calm [OF assms(1,2)])
    show "nodes c' = (nodes c)(?i := r)" by (simp add: 1(3))
    show "calmMove (nodes c ?i) r" by (simp add: r appendReply_calm)
    show "state (nodes c ?i) = Leader \<and> currentTerm r = termOf c ?i" if "state r = Leader"
      using that appendReply_quiet [of "nodes c ?i" "rpArgs rp" "rpPeer rp" result] by (simp add: r quietMove_def)
    show "leadAcks ps A ?i r"
      unfolding r using appendCall_SomeD(3) [OF 1(1)] by (intro appendReply_leadAcks acksInvD(3) [OF assms(2)] ok) simp
    show "answerOk ps A rp'" if "rp' \<in> set (replications c')" for rp'
      using setAppendCall_answers [OF acksInvD(4) [OF assms(2)] 1(1) fin, of rp'] that
      by (simp add: 1(3) setAppendCall_def)
  qed (simp add: 1(3), blast)
qed

section \<open>Leaders\<close>

text \<open>A leader acknowledges its own log.\<close>

definition ownAcks :: "int \<Rightarrow> RaftNode \<Rightarrow> Acks" where
  "ownAcks i r = (\<lambda>m. (currentTerm r, i, m)) ` {1..length (Entries (raftLog r))}"

lemma promises_own:
  assumes "promises ps H G A c" and "votesInv ps H c" and "G (termOf c i) = Some (logOf c i)"
  shows "promises ps H G (A \<union> ownAcks i (nodes c i)) c"
  using assms(3) by (intro promises_acks [OF assms(1,2)])
    (auto simp: ownAcks_def ackOk_def covered_def retains_def)

lemma acksInv_leads:
  assumes "stepOk ps n H G c H' G' c'" and "acksInv ps H G A c" and "nodes c' = (nodes c)(i := r)"
    and "promises ps H' G' A c'" and "grows G G'" and "state r = Leader"
    and "\<forall>p \<in> fst ` set ps. \<forall>m \<in> {1..unat (mapRead (matchIndex r) p)}. (currentTerm r, p, m) \<in> A"
    and "\<And>el'. el' \<in> set (elections c') \<Longrightarrow>
      \<exists>el \<in> set (elections c). elCandidate el' = elCandidate el \<and> elArgs el' = elArgs el"
    and "replications c' = replications c"
  shows "acksNext ps H' G G' A c'"
proof -
  note inv = stepOkD [OF assms(1)]
  let ?A = "A \<union> ownAcks i r"
  have "G' (currentTerm r) = Some (Entries (raftLog r))"
    using leaderLogs_step(2) [OF assms(1,3,6)] by simp
  then have "promises ps H' G' ?A c'"
    using promises_own [OF assms(4) inv(2), of i] assms(3) by simp
  moreover have "electionArgsOk c' el" if "el \<in> set (elections c')" for el
    using assms(6) by (intro electionArgs_step [OF assms(2) inv(1) assms(3) _ assms(8) [OF that]])
      (simp add: candidacyOk_def)
  moreover have "leadAcks ps ?A j (nodes c' j)" for j
    using leadAcks_mono [OF acksInvD(3) [OF assms(2), of j], of ?A] assms(3,7)
    by (auto simp: leadAcks_def ownAcks_def)
  moreover have "answerOk ps ?A rp" if "rp \<in> set (replications c')" for rp
    using that assms(9) by (intro answerOk_mono [OF acksInvD(4) [OF assms(2)]]) auto
  ultimately show ?thesis
    using assms(5) unfolding acksNext_def acksInv_def by blast
qed

text \<open>A leader takes a command: its log and its history grow together.\<close>

lemma leader_extends_acks:
  assumes "stepOk ps n H G c H' G' c'" and "acksInv ps H G A c" and "state (nodes c i) = Leader"
    and "nodes c' = (nodes c)(i := (nodes c i)\<lparr>raftLog := l\<rparr>)"
    and "Entries l = logOf c i @ [e]" and "entryTerm e = termOf c i"
    and "elections c' = elections c" and "replications c' = replications c"
  shows "acksNext ps H' G G' A c'"
proof -
  note inv = stepOkD [OF assms(1)]
  let ?r = "(nodes c i)\<lparr>raftLog := l\<rparr>"
  have G: "G (termOf c i) = Some (logOf c i)"
    using logsInvD(2) [OF inv(4), of i] assms(3) by (simp add: leadOk_def)
  have G': "G' = G(termOf c i \<mapsto> Entries l)"
    using leaderLogs_step(2) [OF assms(1,4)] assms(3) by simp
  have grow: "grows G G'" using G assms(5,6) by (simp add: grows_def G')
  have "promises ps H' G A c'"
  proof (rule promises_node [OF acksInvD(1) [OF assms(2)] assms(4)])
    show "entryTerm x \<le> currentTerm ?r" if "x \<in> set (Entries (raftLog ?r))" for x
      using that promisesD(2) [OF acksInvD(1) [OF assms(2)], of x i] assms(5,6) by auto
    show "retains G t m {..currentTerm ?r} (Entries (raftLog ?r))" if "ackOk G t m (nodes c i)" for t m
      using that retains_append by (simp add: ackOk_def assms(5))
    show "H v u = Some x \<or> voteOk G A c' v u x" if "H' v u = Some x" for v u x
      using new_vote(5) [OF inv(1,2) assms(4) inv(3) that] by auto
  qed (simp_all add: assms(3) candidacyOk_def)
  then have "promises ps H' G' A c'"
    by (rule promises_grow [OF _ grow]) (simp add: G' G split: if_splits)
  then show ?thesis
    using grow acksInvD(3) [OF assms(2), of i] assms(3,7,8)
    by (intro acksInv_leads [OF assms(1,2,4)]) (auto simp: leadAcks_def)
qed

lemma clientStart_acks:
  assumes "stepOk ps n H G c H' G' (clientStart i cmd c)" and "acksInv ps H G A c"
  shows "acksNext ps H' G G' A (clientStart i cmd c)"
proof (cases "state (nodes c i) = Leader")
  case False
  then have "nodes (clientStart i cmd c) = (nodes c)(i := nodes c i)"
    by (simp add: clientStart_def Start_def)
  then show ?thesis
    by (rule acksInv_still [OF assms]) (simp_all add: clientStart_def case_prod_unfold)
next
  case True
  let ?l = "logAppend (termOf c i) cmd (raftLog (nodes c i))"
  have "nodes (clientStart i cmd c) = (nodes c)(i := (nodes c i)\<lparr>raftLog := snd ?l\<rparr>)"
    using Start_leader [OF True, of cmd] by (simp add: clientStart_def case_prod_unfold)
  then show ?thesis
    by (rule leader_extends_acks [OF assms True, where e = "fst ?l"])
       (simp_all add: clientStart_def case_prod_unfold Entries_logAppend)
qed

text \<open>A candidate wins: its voters back its log.\<close>

lemma win_acks:
  assumes "stepOk ps n H G c H' G' c'" and "acksInv ps H G A c" and "state (nodes c i) = Candidate"
    and "nodes c' = (nodes c)(i := fst (becomeLeader (nodes c i)))"
    and "\<And>el'. el' \<in> set (elections c') \<Longrightarrow>
      \<exists>el \<in> set (elections c). elCandidate el' = elCandidate el \<and> elArgs el' = elArgs el"
    and "replications c' = replications c"
  shows "acksNext ps H' G G' A c'"
proof -
  note inv = stepOkD [OF assms(1)]
  let ?r = "fst (becomeLeader (nodes c i))" and ?t = "termOf c i"
  have calm: "calmMove (nodes c i) ?r" by (simp add: calmMove_def)
  have won: "won ps H' i ?t" using votesInvD(6) [OF inv(2), of i] assms(4) by simp
  have none: "G ?t = None" by (rule candidate_no_log [OF inv(4,9,8) won assms(3)])
  have G': "G' = G(?t \<mapsto> logOf c i)" using leaderLogs_step(2) [OF assms(1,4)] by simp
  have grow: "grows G G'" using none by (auto simp: grows_def G')
  have votes: "H v u = Some x" if "H' v u = Some x" for v u x
    by (rule calm_votes [OF inv(1,2) assms(4) _ calm that]) (rule inv(3))
  obtain Q s where Q: "peers s = ps" "Q \<subseteq> fst ` set ps" "wonElection s (card Q)"
    "\<forall>q \<in> Q. H' q ?t = Some i" using won by (auto simp: won_def)
  have "retains G t m {..<?t} (logOf c i)" if "q \<in> Q" "(t, q, m) \<in> A" "ownTerm G t m" "t < ?t" for q t m
  proof -
    have "H q ?t = Some i" using Q(4) that(1) by (intro votes) simp
    then have "voteOk G A c q ?t i" by (rule promisesD(4) [OF acksInvD(1) [OF assms(2)]])
    then have "retains G t m {..?t} (logOf c i)"
      using assms(3) that(2-4) unfolding voteOk_def by blast
    moreover have "\<not> lacks G t m ?t" using none by (simp add: lacks_def)
    ultimately show ?thesis unfolding retains_def by (metis atMost_iff le_less lessThan_iff)
  qed
  moreover have "?t \<le> termOf c' q" if "q \<in> Q" for q
    using votesInvD(4) [OF inv(2), of q] Q(4) that unfolding nodeOk_def by (metis not_le option.discI)
  ultimately have backed: "backed ps G A c' ?t (logOf c i)"
    using Q(1-3) unfolding backed_def by blast
  have "promises ps H' G A c'"
    by (rule promises_calm [OF acksInvD(1) [OF assms(2)] assms(4) calm votes])
  then have "promises ps H' G' A c'"
  proof (rule promises_grow [OF _ grow])
    fix w h assume "G w = None" "G' w = Some h"
    then have "w = ?t" "h = logOf c i" by (auto simp: G' split: if_splits)
    with backed promisesD(2) [OF acksInvD(1) [OF assms(2)], of _ i]
    show "(\<forall>e \<in> set h. entryTerm e \<le> w) \<and> backed ps G A c' w h" by simp
  qed
  then show ?thesis
    by (intro acksInv_leads [OF assms(1,2,4) _ grow _ _ assms(5,6)]) (simp_all add: becomeLeader_matchIndex)
qed

lemma finishVote_acks:
  assumes "stepOk ps n H G c H' G' c'" and "acksInv ps H G A c" and "finishVote e j c = Some c'"
  shows "acksNext ps H' G G' A c'"
proof -
  obtain el p a result r votes es where v: "voteCall e j c = Some (el, p, a, Returned result)"
    and vr: "voteReply (elArgs el) p result (elVotes el) (nodes c (elCandidate el)) = (r, votes, es)"
    and c': "c' = (let c1 = setVoteCall e j Finished (updateNode (elCandidate el) r es c)
      in c1\<lparr>elections := (elections c1)[e := (elections c1 ! e)\<lparr>elVotes := votes\<rparr>]\<rparr>)"
    using assms(3)
    by (auto simp: finishVote_def Let_def split: option.splits prod.splits Call.splits)
  let ?i = "elCandidate el"
  let ?r = "nodes c ?i"
  have nodes: "nodes c' = (nodes c)(?i := r)" and reps: "replications c' = replications c"
    by (simp_all add: c' Let_def)
  have els: "\<exists>el \<in> set (elections c). elCandidate el' = elCandidate el \<and> elArgs el' = elArgs el"
    if e: "el' \<in> set (elections c')" for el'
  proof -
    let ?c1 = "setVoteCall e j Finished (updateNode ?i r es c)"
    have "el' \<in> set ((elections ?c1)[e := (elections ?c1 ! e)\<lparr>elVotes := votes\<rparr>])"
      using e by (simp add: c' Let_def)
    then have "\<exists>x \<in> set (elections ?c1). elCandidate el' = elCandidate x \<and> elArgs el' = elArgs x"
      by (rule sameArgs_update [rotated 2]) simp_all
    then obtain x where "x \<in> set (elections ?c1)" "elCandidate el' = elCandidate x" "elArgs el' = elArgs x" by blast
    with setVoteCall_args [OF this(1)] show ?thesis by simp
  qed
  have calm: ?thesis if "calmMove ?r r" "leadAcks ps A ?i r"
    "state r = Leader \<Longrightarrow> state ?r = Leader \<and> currentTerm r = termOf c ?i"
    by (rule acksInv_calm [OF assms(1,2) nodes that(1) that(3) that(2) els])
      (use acksInvD(4) [OF assms(2)] reps in auto)
  show ?thesis
  proof (cases rule: voteReply_cases [of "elArgs el" p result "elVotes el" ?r])
    case stay
    then show ?thesis using vr acksInvD(3) [OF assms(2)] by (intro calm) auto
  next
    case (down reply es)
    then show ?thesis using vr by (intro calm) (auto simp: calmMove_def leadAcks_def)
  next
    case (counted reply es)
    then show ?thesis using vr acksInvD(3) [OF assms(2)] by (intro calm) auto
  next
    case (elected reply es')
    then have "nodes c' = (nodes c)(?i := fst (becomeLeader ?r))" using vr nodes by simp
    from win_acks [OF assms(1,2) elected(3) this els reps] show ?thesis .
  qed
qed

section \<open>Elections and votes\<close>

lemma ackOk_self:
  assumes "ackOk G t m r" and "currentTerm r \<le> u" and "raftLog r' = raftLog r"
  shows "retains G t m {..u} (Entries (raftLog r'))"
  using assms retains_mono [of G t m "{..currentTerm r}" "Entries (raftLog r)" "{..u}"] by (simp add: ackOk_def)

lemma beginElection_acks:
  assumes "stepOk ps n H G c H' G' c'" and "acksInv ps H G A c" and "beginElection i c = Some c'"
    and "unat (termOf c i) < 18446744073709551615"
  shows "acksNext ps H' G G' A c'"
proof -
  note inv = stepOkD [OF assms(1)]
  let ?r = "fst (startElection (nodes c i))"
  have nodes: "nodes c' = (nodes c)(i := ?r)" and reps: "replications c' = replications c"
    and els: "elections c' = elections c @ [\<lparr>elCandidate = i, elArgs = electionArgs ?r,
      elVotes = initialVotes, elCalls = voteCallsOf (snd (startElection (nodes c i)))\<rparr>]"
    using assms(3) by (auto simp: beginElection_def split: if_splits prod.splits)
  have id: "nodeId (nodes c i) = i" using votesInvD(4) [OF inv(1), of i] by (simp add: nodeOk_def)
  have less: "termOf c i < currentTerm ?r"
    using assms(4) by (simp add: startElection_moved word_less_nat_alt unat_plus_one)
  then have le: "termOf c i \<le> currentTerm ?r" by simp
  have G: "G' = G" by (rule leaderLogs_same [OF assms(1) nodes]) (simp add: startElection_moved)
  have own: "retains G t m {..currentTerm ?r} (Entries (raftLog ?r))" if "ackOk G t m (nodes c i)" for t m
    by (rule ackOk_self [OF that le]) (simp add: startElection_moved)
  have "promises ps H' G A c'"
  proof (rule promises_node [OF acksInvD(1) [OF assms(2)] nodes le])
    show "entryTerm e \<le> currentTerm ?r" if "e \<in> set (Entries (raftLog ?r))" for e
      using that by (intro order_trans [OF promisesD(2) [OF acksInvD(1) [OF assms(2)]] le])
        (simp add: startElection_moved)
    show "H v u = Some x \<or> voteOk G A c' v u x" if h: "H' v u = Some x" for v u x
    proof (cases "H v u = Some x")
      case False
      note nv = new_vote [OF inv(1,2) nodes inv(3) h False]
      then have "v = i" "x = i" "u = currentTerm ?r" using id by (auto simp: startElection_moved)
      then show ?thesis
        using own promisesD(3) [OF acksInvD(1) [OF assms(2)]] by (simp add: voteOk_def nodes)
    qed simp
  qed (use own less in \<open>auto simp: candidacyOk_def\<close>)
  moreover have "electionArgsOk c' el" if "el \<in> set (elections c')" for el
  proof (cases "el \<in> set (elections c)")
    case True
    then show ?thesis
      using less by (intro electionArgs_step [OF assms(2) inv(1) nodes]) (auto simp: candidacyOk_def)
  next
    case False
    then show ?thesis using that by (simp add: els electionArgsOk_def nodes)
  qed
  moreover have "leadAcks ps A j (nodes c' j)" for j
    using acksInvD(3) [OF assms(2), of j] by (simp add: nodes leadAcks_def startElection_moved)
  ultimately show ?thesis
    using acksInvD(4) [OF assms(2)] reps by (auto simp: acksNext_def acksInv_def G)
qed

text \<open>What the voter's comparison says of the two logs.\<close>

lemma last_term:
  assumes "logWf l" and "logSmall l"
  shows "(if LastIndex l > 0 then entryTerm (fst (logGet (LastIndex l) l)) else 0)
    = (if Entries l = [] then 0 else entryTerm (last (Entries l)))"
    and "unat (LastIndex l) = length (Entries l)"
proof -
  let ?n = "length (Entries l)"
  have u: "unat (LastIndex l) = ?n"
    using assms by (simp add: LastIndex_wf logSmall_def unat64_of_nat)
  then show "unat (LastIndex l) = ?n" .
  show "(if LastIndex l > 0 then entryTerm (fst (logGet (LastIndex l) l)) else 0)
    = (if Entries l = [] then 0 else entryTerm (last (Entries l)))"
  proof (cases "Entries l = []")
    case True
    then show ?thesis using u by (simp add: unat_eq_0)
  next
    case False
    then have "0 < LastIndex l" using u by (simp add: word_less_nat_alt)
    with False u show ?thesis by (simp add: logGet_small [OF assms(2)] last_conv_nth)
  qed
qed

lemma upToDate_logs:
  assumes "isCandidateLogUpToDate (rvLastLogIndex (electionArgs x)) (rvLastLogTerm (electionArgs x)) v"
    and "logWf (raftLog v)" and "logSmall (raftLog v)" and "logWf (raftLog x)" and "logSmall (raftLog x)"
    and "Entries (raftLog v) \<noteq> []"
  defines "lv \<equiv> Entries (raftLog v)" and "lx \<equiv> Entries (raftLog x)"
  shows "lx \<noteq> []" and "entryTerm (last lv) \<le> entryTerm (last lx)"
    and "entryTerm (last lx) = entryTerm (last lv) \<longrightarrow> length lv \<le> length lx"
proof -
  note v = last_term [OF assms(2,3)] and x = last_term [OF assms(4,5)]
  have up: "if (if lx = [] then 0 else entryTerm (last lx)) \<noteq> entryTerm (last lv)
      then (if lx = [] then 0 else entryTerm (last lx)) > entryTerm (last lv)
      else LastIndex (raftLog x) \<ge> LastIndex (raftLog v)"
    using assms(1,6) unfolding isCandidateLogUpToDate_def electionArgs_def Let_def
      RequestVoteArgs.select_convs v(1) x(1) lv_def lx_def by (simp cong: if_cong)
  have len: "LastIndex (raftLog x) \<ge> LastIndex (raftLog v) \<longleftrightarrow> length lv \<le> length lx"
    by (simp add: word_le_nat_alt v(2) x(2) lv_def lx_def)
  show ne: "lx \<noteq> []" using up len assms(6) by (auto simp: lv_def split: if_splits)
  show "entryTerm (last lv) \<le> entryTerm (last lx)"
    "entryTerm (last lx) = entryTerm (last lv) \<longrightarrow> length lv \<le> length lx"
    using up len ne by (auto split: if_splits)
qed

text \<open>A vote granted: the candidate retains what the voter has acknowledged.\<close>

lemma granted_retains:
  assumes "stepOk ps n H G c H' G' c'" and "acksInv ps H G A c" and "(t, v, m) \<in> A"
    and "ownTerm G t m" and "termOf c v \<le> termOf c x"
    and "isCandidateLogUpToDate (rvLastLogIndex (electionArgs (nodes c x)))
      (rvLastLogTerm (electionArgs (nodes c x))) (nodes c v)"
  shows "retains G t m {..termOf c x} (logOf c x)"
proof -
  note inv = stepOkD [OF assms(1)]
  note pr = acksInvD(1) [OF assms(2)]
  have log: "logOk G n (logOf c j)" for j by (rule logsInvD(1) [OF inv(4)])
  then have wf: "logWf (raftLog (nodes c j))" "logSmall (raftLog (nodes c j))" for j
    using inv(7) log [of j] by (auto simp: logOk_def logWf_def logSmall_def intro: le_less_trans)
  have ack: "ackOk G t m (nodes c v)" by (rule promisesD(3) [OF pr assms(3)])
  show ?thesis
  proof (cases "\<exists>w \<in> {..termOf c v}. lacks G t m w")
    case True
    then obtain w where "w \<le> termOf c v" "lacks G t m w" by auto
    then show ?thesis using assms(5) unfolding retains_def by (meson atMost_iff order_trans)
  next
    case False
    then obtain g where g: "G t = Some g" "take m (logOf c v) = take m g"
      using ack by (auto simp: ackOk_def retains_def)
    have "0 < m" "m \<le> length g" using ack g(1) by (auto simp: ackOk_def covered_def)
    then have "logOf c v \<noteq> []" using g(2) by auto
    note up = upToDate_logs [OF assms(6) wf wf this]
    show ?thesis
    proof (rule retains_up_to_date [OF g(2,1) assms(4) _ _ promisesD(1) [OF pr] up])
      show "prefixOk G (logOf c v)" "prefixOk G (logOf c x)" using log by (simp_all add: logOk_def)
      show "\<forall>e \<in> set (logOf c x). entryTerm e \<le> termOf c x" using promisesD(2) [OF pr] by blast
    qed
  qed
qed

lemma RequestVote_calm:
  "currentTerm r \<le> currentTerm (fst (RequestVote args r)) \<and> raftLog (fst (RequestVote args r)) = raftLog r
   \<and> nodeId (fst (RequestVote args r)) = nodeId r
   \<and> (state (fst (RequestVote args r)) = state r \<and> currentTerm (fst (RequestVote args r)) = currentTerm r
        \<and> matchIndex (fst (RequestVote args r)) = matchIndex r
      \<or> state (fst (RequestVote args r)) = Follower)"
  by (cases rule: RequestVote_cases [of args r]) auto

lemma RequestVote_new_vote:
  assumes "r' = fst (RequestVote args r)" and "votedFor r' \<noteq> -1"
    and "currentTerm r' \<noteq> currentTerm r \<or> votedFor r' \<noteq> votedFor r"
  shows "currentTerm r' = rvTerm args \<and> votedFor r' = rvCandidateID args
    \<and> isCandidateLogUpToDate (rvLastLogIndex args) (rvLastLogTerm args) r \<and> currentTerm r \<le> rvTerm args"
proof (cases rule: RequestVote_cases [of args r])
  case old
  with assms show ?thesis by simp
next
  case (seen r1)
  have "isCandidateLogUpToDate i t r1 = isCandidateLogUpToDate i t r" for i t
    using seen(2) by (intro isCandidateLogUpToDate_log) simp
  with seen assms show ?thesis by (auto split: if_splits)
qed

lemma handleVote_acks:
  assumes "stepOk ps n H G c H' G' c'" and "acksInv ps H G A c" and "handleVote e j c = Some c'"
  shows "acksNext ps H' G G' A c'"
proof -
  note inv = stepOkD [OF assms(1)] and pr = acksInvD(1) [OF assms(2)]
  obtain el p a i where v: "voteCall e j c = Some (el, p, a, Admitted i)"
    and c': "c' = setVoteCall e j (Returned (Inr (snd (RequestVote (elArgs el) (nodes c i)))))
      (updateNode i (fst (RequestVote (elArgs el) (nodes c i))) [] c)"
    using assms(3) by (auto simp: handleVote_def split: option.splits prod.splits Call.splits)
  let ?r = "fst (RequestVote (elArgs el) (nodes c i))" and ?x = "elCandidate el"
  have nodes: "nodes c' = (nodes c)(i := ?r)" and reps: "replications c' = replications c"
    by (simp_all add: c')
  have el: "el \<in> set (elections c)" "electionOk ps H el"
    using voteCall_SomeD(1) [OF v] votesInvD(5) [OF inv(1)] by simp_all
  then have ix: "i \<noteq> ?x" "rvCandidateID (elArgs el) = ?x"
    using electionOk_callOk [OF _ voteCall_SomeD(6) [OF v]] by (auto simp: callOk_def electionOk_def)
  note mv = RequestVote_calm [of "nodes c i" "elArgs el"]
  have le: "termOf c i \<le> currentTerm ?r" using mv by simp
  have cand: "candidacyOk (nodes c i) ?r" using mv by (auto simp: candidacyOk_def)
  have G: "G' = G"
    by (rule leaderLogs_same [OF assms(1) nodes]) (use mv in auto)
  have "promises ps H' G A c'"
  proof (rule promises_node [OF pr nodes le])
    show "entryTerm e \<le> currentTerm ?r" if "e \<in> set (Entries (raftLog ?r))" for e
      using that mv by (intro order_trans [OF promisesD(2) [OF pr] le]) simp
    show "retains G t m {..currentTerm ?r} (Entries (raftLog ?r))" if "ackOk G t m (nodes c i)" for t m
      by (rule ackOk_self [OF that le]) (simp add: mv)
    show "candidacyOk (nodes c i) ?r" by (rule cand)
    show "H v u = Some x \<or> voteOk G A c' v u x" if h: "H' v u = Some x" for v u x
    proof (cases "H v u = Some x")
      case False
      note nv = new_vote [OF inv(1,2) nodes inv(3) h False]
      have g: "currentTerm ?r = rvTerm (elArgs el)" "x = ?x"
        "isCandidateLogUpToDate (rvLastLogIndex (elArgs el)) (rvLastLogTerm (elArgs el)) (nodes c i)"
        using RequestVote_new_vote [OF refl, of "elArgs el" "nodes c i"] nv ix(2) by auto
      have u: "u = rvTerm (elArgs el)" "v = i" using nv g(1) by auto
      have "retains G t m {..u} (logOf c ?x)"
        if a: "(t, i, m) \<in> A" "ownTerm G t m" "state (nodes c ?x) = Candidate" "termOf c ?x = u" for t m
      proof -
        have "elArgs el = electionArgs (nodes c ?x)"
          using acksInvD(2) [OF assms(2) el(1)] a(3,4) u(1) unfolding electionArgsOk_def by blast
        then show ?thesis
          using granted_retains [OF assms(1,2) a(1,2), of ?x] g(1,3) le a(4) u by simp
      qed
      then show ?thesis
        using election_term [OF inv(1) el(1)] ix(1) u g(2) by (simp add: voteOk_def nodes)
    qed simp
  qed
  moreover have "electionArgsOk c' el'" if "el' \<in> set (elections c')" for el'
    using setVoteCall_args [of el' e j _ "updateNode i ?r [] c"] that
    by (intro electionArgs_step [OF assms(2) inv(1) nodes cand]) (simp_all add: c')
  moreover have "leadAcks ps A k (nodes c' k)" for k
    using acksInvD(3) [OF assms(2), of k] mv by (auto simp: nodes leadAcks_def)
  ultimately show ?thesis
    using acksInvD(4) [OF assms(2)] reps by (auto simp: acksNext_def acksInv_def G)
qed

section \<open>Accepting entries\<close>

text \<open>A merge of a piece of the log of the leader of \<open>t\<close> keeps what the node retains.\<close>

lemma merge_retains:
  assumes "retains G t' m W l" and "covered G t' m" and "G t = Some g" and "t' \<le> t" and "W \<subseteq> {..t}"
    and "p \<le> k" and "k \<le> length g"
  shows "retains G t' m {..t} (mergeSpec p (drop p (take k g)) l)"
proof (cases "(\<exists>w \<in> W. lacks G t' m w) \<or> lacks G t' m t")
  case True
  then show ?thesis using assms(5) by (auto simp: retains_def)
next
  case False
  then obtain g' where g': "G t' = Some g'" "take m l = take m g'" using assms(1) by (auto simp: retains_def)
  have m: "m \<le> length g'" using assms(2) g'(1) by (simp add: covered_def)
  have eq: "take m g = take m g'"
    using False assms(3,4) g'(1) by (cases "t' = t") (auto simp: lacks_def le_less)
  have "m \<le> length g" using arg_cong [OF eq, of length] m by (simp add: min_def split: if_splits)
  from merge_keeps [OF _ this assms(6,7)] g' eq show ?thesis by (simp add: retains_def)
qed

lemma merged_promises:
  assumes "stepOk ps n H G c H' G' c'" and "promises ps H G A c" and nodes: "nodes c' = (nodes c)(i := r)"
    and r: "r = fst (applyCommitted (installed args (nodes c i)))" and "termOf c i \<le> aeTerm args"
    and g: "G (aeTerm args) = Some g" "p \<le> q" "q \<le> length g" "logsMatch (logOf c i) g"
      "take p (logOf c i) = take p g" "Entries (raftLog r) = mergeSpec p (drop p (take q g)) (logOf c i)"
  shows "promises ps H' G A c'"
proof -
  note inv = stepOkD [OF assms(1)] and pr = assms(2)
  have t: "currentTerm r = aeTerm args" "state r = Follower"
    "votedFor r = (if termOf c i < aeTerm args then -1 else votedFor (nodes c i))" by (simp_all add: r)
  have le: "termOf c i \<le> currentTerm r" using assms(5) t(1) by simp
  show ?thesis
  proof (rule promises_node [OF pr nodes le])
    show "entryTerm e \<le> currentTerm r" if e: "e \<in> set (Entries (raftLog r))" for e
    proof -
      have "e \<in> set (logOf c i) \<or> e \<in> set g"
        using e merge_explained [OF g(4,2,3,5)] set_take_subset [of q g] by (auto simp: g(6))
      then show ?thesis
        using order_trans [OF promisesD(2) [OF pr] le] promisesD(1) [OF pr] g(1) t(1)
        by (auto simp: termsLe_def)
    qed
    show "retains G t' m {..currentTerm r} (Entries (raftLog r))" if "ackOk G t' m (nodes c i)" for t' m
    proof -
      have a: "retains G t' m {..termOf c i} (logOf c i)" "covered G t' m" "t' \<le> aeTerm args"
        "{..termOf c i} \<subseteq> {..aeTerm args}"
        using that assms(5) by (auto simp: ackOk_def)
      show ?thesis unfolding g(6) t(1) by (rule merge_retains [OF a(1,2) g(1) a(3,4) g(2,3)])
    qed
    show "H v u = Some x \<or> voteOk G A c' v u x" if h: "H' v u = Some x" for v u x
    proof (rule disjI1, rule ccontr)
      assume "H v u \<noteq> Some x"
      then show False
        using new_vote [OF inv(1,2) nodes inv(3) h] t assms(5) by (auto split: if_splits)
    qed
  qed (simp add: candidacyOk_def t(2))
qed

lemma handleAppend_acks:
  assumes "stepOk ps n H G c H' G' c'" and "acksInv ps H G A c" and "handleAppend k c = Some c'"
  shows "acksNext ps H' G G' A c'"
  using assms(3)
proof (cases rule: handleAppend_cases)
  case (1 rp i r es reply)
  note inv = stepOkD [OF assms(1)] and pr = acksInvD(1) [OF assms(2)]
  let ?args = "rpArgs rp" and ?r = "nodes c i"
  have nodes: "nodes c' = (nodes c)(i := r)" by (simp add: 1(3))
  have els: "elections c' = elections c" by (simp add: 1(3))
  have ok: "answerOk ps A rp" by (rule acksInvD(4) [OF assms(2) appendCall_SomeD(4) [OF 1(1)]])
  then have peer: "rpPeer rp = i" using appendCall_SomeD(3) [OF 1(1), symmetric] by (simp add: answerOk_def)
  have answers: "answerOk ps B rp'" if "A \<subseteq> B" "answerOk ps B (rp\<lparr>rpCall := Returned (Inr reply)\<rparr>)"
    "rp' \<in> set (replications c')" for B rp'
    using setAppendCall_answers [OF answerOk_mono [OF acksInvD(4) [OF assms(2)] that(1)] 1(1) that(2), of rp']
      that(3) by (simp add: 1(3) setAppendCall_def)
  have calm: ?thesis if still: "calmMove ?r r" and fails: "\<not> aerSuccess reply"
    and lead: "state r = Leader \<Longrightarrow> state ?r = Leader \<and> currentTerm r = termOf c i \<and> matchIndex r = matchIndex ?r"
  proof (rule acksInv_calm [OF assms(1,2) nodes still])
    show "leadAcks ps A i r"
      using still lead acksInvD(3) [OF assms(2), of i] by (auto simp: leadAcks_def calmMove_def)
    have "answerOk ps A (rp\<lparr>rpCall := Returned (Inr reply)\<rparr>)" using ok fails unfolding answerOk_def by simp
    then show "answerOk ps A rp'" if "rp' \<in> set (replications c')" for rp'
      by (rule answers [OF order_refl _ that])
    show "state (nodes c i) = Leader \<and> currentTerm r = termOf c i" if l: "state r = Leader"
      using lead [OF l] by blast
    show "\<exists>el \<in> set (elections c). elCandidate el' = elCandidate el \<and> elArgs el' = elArgs el"
      if "el' \<in> set (elections c')" for el'
      using that by (intro bexI [of _ el']) (simp_all add: els)
  qed
  show ?thesis
  proof (cases rule: AppendEntries_cases [of ?args ?r])
    case old
    then show ?thesis using 1(2) by (intro calm) auto
  next
    case (mismatch es)
    then show ?thesis using 1(2) by (intro calm) (auto simp: calmMove_def)
  next
    case (match es)
    let ?p = "unat (aePrevLogIndex ?args)" and ?t = "aeTerm ?args"
    have r: "r = fst (applyCommitted (installed ?args ?r))" and reply: "aerSuccess reply"
      using match(3) 1(2) by simp_all
    have msg: "messageOk G ?args" by (rule logsInvD(5) [OF inv(4) appendCall_SomeD(4) [OF 1(1)]])
    obtain g q where g: "G ?t = Some g" "?p \<le> q" "q \<le> length g" "aeEntries ?args = drop ?p (take q g)"
        "logsMatch (logOf c i) g" "take ?p (logOf c i) = take ?p g"
        "Entries (raftLog r) = mergeSpec ?p (drop ?p (take q g)) (logOf c i)"
      by (rule message_merge [OF logsInvD(1) [OF inv(4)] msg _ inv(7) match(2)])
        (rule logsInvD(3) [OF inv(4)], assumption, simp add: r)
    have t: "currentTerm r = ?t" "state r = Follower" by (simp_all add: r)
    have G: "G' = G" by (rule leaderLogs_same [OF assms(1) nodes]) (simp add: t(2))
    have "promises ps H' G A c'"
      by (rule merged_promises [OF assms(1) pr nodes r match(1) g(1-3) g(5-7)])
    let ?A = "A \<union> (\<lambda>m. (?t, i, m)) ` {1..q}"
    have new: "ackOk G ?t m r" if "m \<in> {1..q}" for m
    proof -
      have "take q (Entries (raftLog r)) = take q g"
        using merge_has [OF g(5,2,3,6)] by (simp add: g(7))
      from arg_cong [OF this, of "take m"] that have "take m (Entries (raftLog r)) = take m g"
        by (simp add: min_def)
      then show ?thesis using that g(1,3) t(1) by (auto simp: ackOk_def covered_def retains_def)
    qed
    have "promises ps H' G ?A c'"
      by (rule promises_acks [OF \<open>promises ps H' G A c'\<close> inv(2)]) (use new t(1) in \<open>auto simp: nodes\<close>)
    moreover have "electionArgsOk c' el" if "el \<in> set (elections c')" for el
      using that by (intro electionArgs_step [OF assms(2) inv(1) nodes])
        (auto simp: candidacyOk_def t(2) els)
    moreover have "leadAcks ps ?A j (nodes c' j)" for j
      using leadAcks_mono [OF acksInvD(3) [OF assms(2), of j], of ?A] by (simp add: nodes leadAcks_def t(2))
    moreover have "answerOk ps ?A (rp\<lparr>rpCall := Returned (Inr reply)\<rparr>)"
      using ok peer g(2,3,4) by (auto simp: answerOk_def)
    ultimately show ?thesis
      using answers [of ?A] by (auto simp: acksNext_def acksInv_def G intro!: exI [of _ ?A])
  qed
qed

end
