(* ===== verification/Leader_Completeness.thy ===== *)
theory Leader_Completeness
  imports Ack_Steps
begin

text \<open>
  Leader completeness, for every run without restarts: an entry of a leader's own term that a
  majority is known to hold is in the log of that leader and of every later one, at the same
  position and with the same entries before it. It fails for entries of older terms, which the
  code commits too (\<open>committed_entry_replaced\<close> in \<open>Log_Matching\<close>).
\<close>

section \<open>Runs\<close>

lemma perform_acks:
  assumes "stepOk ps n H G c H' G' c'" and "acksInv ps H G A c" and "perform a c = Some c'"
    and "\<not> isRestart a" and "\<And>i. unat (termOf c i) < 18446744073709551615"
  shows "acksNext ps H' G G' A c'"
proof (cases a)
  case (TimerFires i)
  then show ?thesis using assms(3) timerFires_acks [OF assms(1,2)] by (simp split: if_splits)
next
  case (BeginElection i)
  then show ?thesis using assms(3,5) beginElection_acks [OF assms(1,2)] by simp
next
  case (AdmitVote e j)
  then show ?thesis using assms(1,3) setVoteCall_acks [OF _ assms(2)]
    by (auto simp: admitVote_def split: option.splits prod.splits Call.splits)
next
  case (HandleVote e j)
  then show ?thesis using assms(3) handleVote_acks [OF assms(1,2)] by simp
next
  case (LoseVote e j)
  then show ?thesis using assms(1,3) setVoteCall_acks [OF _ assms(2)]
    by (auto simp: loseVote_def split: option.splits prod.splits if_splits)
next
  case (FinishVote e j)
  then show ?thesis using assms(3) finishVote_acks [OF assms(1,2)] by simp
next
  case (Heartbeat i)
  then show ?thesis using assms(1,3) heartbeat_acks [OF _ assms(2)] by (auto split: if_splits)
next
  case (AdmitAppend k)
  then show ?thesis using assms(3) admitAppend_acks [OF assms(1,2)] by simp
next
  case (HandleAppend k)
  then show ?thesis using assms(3) handleAppend_acks [OF assms(1,2)] by simp
next
  case (LoseAppend k)
  then show ?thesis using assms(3) loseAppend_acks [OF assms(1,2)] by simp
next
  case (FinishAppend k)
  then show ?thesis using assms(3) finishAppend_acks [OF assms(1,2)] by simp
next
  case (ClientStart i cmd)
  then show ?thesis using assms(1,3) clientStart_acks [OF _ assms(2)] by (auto split: if_splits)
next
  case (StopNode i)
  then show ?thesis using assms(1,3) stopNode_acks [OF _ assms(2)] by (auto split: if_splits)
next
  case (RestartNode i)
  then show ?thesis using assms(4) by simp
qed

text \<open>All three histories after \<open>n\<close> actions.\<close>

definition histories :: "(int \<times> string) list \<Rightarrow> nat \<Rightarrow> Ballots \<Rightarrow> LeaderLogs \<Rightarrow> Acks \<Rightarrow> Cluster \<Rightarrow> bool" where
  "histories ps n H G A c \<longleftrightarrow> votesInv ps H c \<and> logsInv ps H G n c \<and> termsBelow n c \<and> acksInv ps H G A c"

lemma histories_boot: "histories ps 0 (\<lambda>_ _. None) Map.empty {} (bootCluster ps)"
  using votesInv_boot [of ps] logsInv_boot [of ps] termsBelow_boot [of ps]
  by (simp add: histories_def acksInv_def promises_def termsLe_def leadAcks_def bootCluster_def bootNode_def
      NewRaftNode_def SetApplyFunc_def SetTransport_def SetPeers_def SetEventBus_def)

lemma histories_step:
  assumes "histories ps n H G A c" and "peersOk ps" and "perform a c = Some c'" and "\<not> isRestart a"
    and "n < 9223372036854775807"
  shows "\<exists>H' G' A'. grows G G' \<and> A \<subseteq> A' \<and> histories ps (Suc n) H' G' A' c'"
proof -
  have h: "votesInv ps H c" "logsInv ps H G n c" "termsBelow n c" "acksInv ps H G A c"
    using assms(1) by (simp_all add: histories_def)
  have t: "unat (termOf c i) < 18446744073709551615" for i
    using termsBelowD(1) [OF h(3), of i] assms(5) by simp
  obtain H' where H': "extends H H'" "votesInv ps H' c'" "\<forall>v t. t \<noteq> termOf c' v \<longrightarrow> H' v t = H v t"
    using perform_votes [OF h(1) assms(2,3,4) t] by (auto simp: votesNext_def)
  obtain G' where G': "logsInv ps H' G' (Suc n) c'" "logsGrow G G' c'"
    using perform_logs [OF h(2,1) H'(1,2) assms(2,3,4,5) t] by blast
  have "stepOk ps n H G c H' G' c'" using h H' G' assms(2,5) by (simp add: stepOk_def)
  from perform_acks [OF this h(4) assms(3,4) t] obtain A' where
    "grows G G'" "A \<subseteq> A'" "acksInv ps H' G' A' c'" by (auto simp: acksNext_def)
  moreover have "termsBelow (Suc n) c'" by (rule perform_terms [OF h(3) assms(3)])
  ultimately show ?thesis using H'(2) G'(1) unfolding histories_def by blast
qed

lemma grows_trans:
  assumes "grows G1 G2" and "grows G2 G3" shows "grows G1 G3"
  unfolding grows_def
proof (intro allI impI)
  fix t g assume "G1 t = Some g"
  then obtain x where x: "G2 t = Some (g @ x)" "\<forall>e \<in> set x. entryTerm e = t"
    using assms(1) by (elim growsD)
  obtain y where "G3 t = Some ((g @ x) @ y)" "\<forall>e \<in> set y. entryTerm e = t"
    using assms(2) x(1) by (elim growsD)
  with x(2) show "\<exists>x. G3 t = Some (g @ x) \<and> (\<forall>e \<in> set x. entryTerm e = t)"
    by (intro exI [of _ "x @ y"]) auto
qed

lemma run_histories:
  assumes "run c as c'" and "peersOk ps" and "histories ps n H G A c"
    and "n + length as < 9223372036854775808" and "\<forall>a \<in> set as. \<not> isRestart a"
  shows "\<exists>H' G' A'. grows G G' \<and> A \<subseteq> A' \<and> histories ps (n + length as) H' G' A' c'"
  using assms
proof (induction rule: run.induct)
  case (run_Nil c)
  then show ?case by (auto intro: grows_refl)
next
  case (run_snoc c as c' a c'')
  then obtain H1 G1 A1 where ih: "grows G G1" "A \<subseteq> A1" "histories ps (n + length as) H1 G1 A1 c'" by auto
  have "\<not> isRestart a" "n + length as < 9223372036854775807" using run_snoc.prems(3,4) by simp_all
  from histories_step [OF ih(3) assms(2) run_snoc.hyps(2) this] obtain H2 G2 A2 where
    g: "grows G1 G2" "A1 \<subseteq> A2" and h: "histories ps (Suc (n + length as)) H2 G2 A2 c''" by blast
  have "A \<subseteq> A2" using ih(2) g(2) by blast
  with grows_trans [OF ih(1) g(1)] h show ?case by auto
qed

section \<open>Leader completeness\<close>

text \<open>The replicas a leader counts have acknowledged what it counts.\<close>

lemma counted_acks:
  assumes "acksInv ps H G A c" and "votesInv ps H c" and "peersOk ps" and "i \<in> fst ` set ps"
    and "state (nodes c i) = Leader" and "0 < n" and "n \<le> length (logOf c i)" and "n < 18446744073709551616"
  shows "\<exists>Q \<subseteq> fst ` set ps. card Q = replicaCount (nodes c i) (word_of_nat n)
    \<and> (\<forall>q \<in> Q. (termOf c i, q, n) \<in> A)"
proof -
  let ?r = "nodes c i" and ?n = "word_of_nat n :: uint64"
  let ?xs = "filter (\<lambda>(p, _). p \<noteq> nodeId ?r \<and> mapRead (matchIndex ?r) p \<ge> ?n) ps"
  have id: "nodeId ?r = i" "peers ?r = ps"
    using votesInvD(3,4) [OF assms(2), of i] by (simp_all add: nodeOk_def)
  have lead: "\<forall>m \<in> {1..length (logOf c i)}. (termOf c i, i, m) \<in> A"
    "\<forall>p \<in> fst ` set ps. \<forall>m \<in> {1..unat (mapRead (matchIndex ?r) p)}. (termOf c i, p, m) \<in> A"
    using acksInvD(3) [OF assms(1), of i] assms(5) by (simp_all add: leadAcks_def)
  have u: "unat ?n = n" using assms(8) by (simp add: unat_of_nat)
  have "distinct (map fst ?xs)" using assms(3) by (auto simp: peersOk_def distinct_map intro: inj_on_subset)
  then have "card (fst ` set ?xs) = length ?xs" using distinct_card [of "map fst ?xs"] by simp
  moreover have "i \<notin> fst ` set ?xs" by (auto simp: id)
  ultimately have "card (insert i (fst ` set ?xs)) = replicaCount ?r ?n" by (simp add: replicaCount_def id)
  moreover have "(termOf c i, q, n) \<in> A" if "q \<in> insert i (fst ` set ?xs)" for q
  proof (cases "q = i")
    case True
    then show ?thesis using lead(1) assms(6,7) by simp
  next
    case False
    then have q: "q \<in> fst ` set ps" "?n \<le> mapRead (matchIndex ?r) q" using that by auto
    then have "n \<in> {1..unat (mapRead (matchIndex ?r) q)}" using assms(6) by (simp add: word_le_nat_alt u)
    with bspec [OF bspec [OF lead(2) q(1)]] show ?thesis .
  qed
  moreover have "insert i (fst ` set ?xs) \<subseteq> fst ` set ps" using assms(4) by auto
  ultimately show ?thesis by (intro exI [of _ "insert i (fst ` set ?xs)"]) blast
qed

text \<open>Every later leader log starts with what a majority has acknowledged.\<close>

lemma acknowledged_stays:
  assumes "promises ps H G A c" and "peersOk ps" and "peers r = ps" and "Q \<subseteq> fst ` set ps"
    and "commitQuorum r (card Q)" and "\<And>q. q \<in> Q \<Longrightarrow> (t, q, n) \<in> A" and "ownTerm G t n"
    and "G t = Some g" and "G w = Some h" and "t \<le> w"
  shows "take n h = take n g"
  using assms(9,10)
proof (induction "unat w" arbitrary: w h rule: less_induct)
  case less
  show ?case
  proof (cases "t = w")
    case True
    with less.prems(1) assms(8) show ?thesis by simp
  next
    case False
    then have tw: "t < w" using less.prems(2) by simp
    obtain Q' s where Q': "peers s = ps" "Q' \<subseteq> fst ` set ps" "wonElection s (card Q')"
      "\<And>q t m. q \<in> Q' \<Longrightarrow> (t, q, m) \<in> A \<Longrightarrow> ownTerm G t m \<Longrightarrow> t < w \<Longrightarrow> retains G t m {..<w} h"
      using promisesD(5) [OF assms(1) less.prems(1)] by (rule backedE) blast
    have "card (fst ` set ps) = length ps"
      using assms(2) distinct_card [of "map fst ps"] by (simp add: peersOk_def)
    then have "card (fst ` set ps) = clusterSize s" "card (fst ` set ps) = clusterSize r"
      using Q'(1) assms(3) by (simp_all add: clusterSize_def)
    from election_and_commit.quorums_meet [OF _ this Q'(2) assms(4) Q'(3) assms(5)]
    obtain q where "q \<in> Q'" "q \<in> Q" by auto
    then have "retains G t n {..<w} h" by (intro Q'(4) assms(6,7) tw)
    moreover have "\<not> lacks G t n v" if "v < w" for v
    proof
      assume "lacks G t n v"
      then obtain h' where "t < v" "G v = Some h'" "take n h' \<noteq> take n g"
        using assms(8) by (auto simp: lacks_def)
      moreover from this(1) have "t \<le> v" by simp
      ultimately show False using less.hyps [of v h'] that by (simp add: word_less_nat_alt)
    qed
    ultimately show ?thesis using assms(8) by (auto simp: retains_def)
  qed
qed

text \<open>C3. Leader completeness: in every run from the boot in which no node is restarted, once a
  leader's counting rule finds a majority behind the entry at position \<open>n\<close> of its log, and that
  entry is of its own term, every leader of that or a later term, at any later moment, has the same
  entries up to and including position \<open>n\<close>. What was committed this way is never replaced.\<close>

theorem leader_completeness:
  assumes "peersOk ps" and "run (bootCluster ps) as c" and "run c bs c'"
    and "\<forall>a \<in> set (as @ bs). \<not> isRestart a" and "length (as @ bs) < 2 ^ 63"
    and "i \<in> fst ` set ps" and "state (nodes c i) = Leader"
    and "0 < n" and "n \<le> length (Entries (raftLog (nodes c i)))"
    and "entryTerm (Entries (raftLog (nodes c i)) ! (n - 1)) = currentTerm (nodes c i)"
    and "commitQuorum (nodes c i) (replicaCount (nodes c i) (word_of_nat n))"
    and "state (nodes c' j) = Leader" and "currentTerm (nodes c i) \<le> currentTerm (nodes c' j)"
  shows "take n (Entries (raftLog (nodes c' j))) = take n (Entries (raftLog (nodes c i)))"
proof -
  let ?t = "termOf c i"
  obtain H G A where h: "histories ps (length as) H G A c"
    using run_histories [OF assms(2,1) histories_boot] assms(4,5) by auto
  obtain H' G' A' where h': "histories ps (length as + length bs) H' G' A' c'"
    and grow: "grows G G'" "A \<subseteq> A'"
    using run_histories [OF assms(3,1) h] assms(4,5) by auto
  have v: "votesInv ps H c" and l: "logsInv ps H G (length as) c" and a: "acksInv ps H G A c"
    using h by (simp_all add: histories_def)
  have l': "logsInv ps H' G' (length as + length bs) c'" and a': "acksInv ps H' G' A' c'"
    using h' by (simp_all add: histories_def)
  have g: "G ?t = Some (logOf c i)" using logsInvD(2) [OF l, of i] assms(7) by (simp add: leadOk_def)
  have "n \<le> length as" using logsInvD(1) [OF l, of i] assms(9) by (simp add: logOk_def)
  then obtain Q where Q: "Q \<subseteq> fst ` set ps" "card Q = replicaCount (nodes c i) (word_of_nat n)"
    "\<forall>q \<in> Q. (?t, q, n) \<in> A"
    using counted_acks [OF a v assms(1,6,7,8,9)] assms(5) by auto
  have cov: "covered G ?t n" using g assms(8,9) by (simp add: covered_def)
  have own: "ownTerm G' ?t n"
    using ownTerm_grows [OF cov grow(1)] g assms(8,9,10) by (simp add: ownTerm_def)
  obtain x where x: "G' ?t = Some (logOf c i @ x)" using growsD [OF grow(1) g] by blast
  have g': "G' (termOf c' j) = Some (logOf c' j)"
    using logsInvD(2) [OF l', of j] assms(12) by (simp add: leadOk_def)
  have quorum: "commitQuorum (nodes c i) (card Q)" using Q(2) assms(11) by simp
  have acks: "(?t, q, n) \<in> A'" if "q \<in> Q" for q using Q(3) grow(2) that by blast
  have "take n (logOf c' j) = take n (logOf c i @ x)"
    by (rule acknowledged_stays [OF acksInvD(1) [OF a'] assms(1) votesInvD(3) [OF v] Q(1) quorum acks own x g' assms(13)])
  with assms(9) show ?thesis by simp
qed

lemma leader_completeness_run:
  "Option.bind (exec oneEntryRun (bootCluster peers3)) (\<lambda>c. map_option (\<lambda>c'.
      (state (nodes c 0), currentTerm (nodes c 0), Entries (raftLog (nodes c 0)),
       commitQuorum (nodes c 0) (replicaCount (nodes c 0) 1), state (nodes c' 2), currentTerm (nodes c' 2)))
      (exec (electActions 2 1) c))
    = Some (Leader, 1, [\<lparr>entryIndex = 1, entryTerm = 1, entryCommand = setCmd ''k'' ''A''\<rparr>], True, Leader, 2)"
  by code_simp

lemma leader_completeness_witness:
  "\<exists>c c'. exec oneEntryRun (bootCluster peers3) = Some c \<and> exec (electActions 2 1) c = Some c'
    \<and> state (nodes c' 2) = Leader \<and> currentTerm (nodes c' 2) = 2
    \<and> take 1 (Entries (raftLog (nodes c' 2))) = [\<lparr>entryIndex = 1, entryTerm = 1, entryCommand = setCmd ''k'' ''A''\<rparr>]"
proof -
  obtain c c' where c: "exec oneEntryRun (bootCluster peers3) = Some c" "exec (electActions 2 1) c = Some c'"
    "state (nodes c 0) = Leader" "currentTerm (nodes c 0) = 1"
    "Entries (raftLog (nodes c 0)) = [\<lparr>entryIndex = 1, entryTerm = 1, entryCommand = setCmd ''k'' ''A''\<rparr>]"
    "commitQuorum (nodes c 0) (replicaCount (nodes c 0) 1)"
    "state (nodes c' 2) = Leader" "currentTerm (nodes c' 2) = 2"
    using leader_completeness_run by (auto simp: Option.bind_eq_Some_conv)
  have "take 1 (Entries (raftLog (nodes c' 2))) = take 1 (Entries (raftLog (nodes c 0)))"
    by (rule leader_completeness [OF peersOk_peers3 exec_run [OF c(1)] exec_run [OF c(2)]])
       (simp_all add: oneEntryRun_def electActions_def replicateActions_def peers3_def c(3-8))
  with c show ?thesis by (intro exI [of _ c] exI [of _ c']) simp
qed

end
