(* ===== verification/State_Machine_Safety.thy ===== *)
theory State_Machine_Safety
  imports Leader_Completeness Kv_Node "HOL-Library.Sublist"
begin

text \<open>
  State machine safety, for every run without restarts in which no leader moves its commit index to
  an entry of an older term: of the sequences of commands that two nodes hand to \<open>applyFunc\<close>, one
  begins with the other. The condition is the test that \<open>updateCommitIndex\<close> lacks; without it the
  statement is false (\<open>committed_entry_replaced\<close> in \<open>Log_Matching\<close>), so the missing test is the only
  obstacle. The invariant follows a commit index from the leader that counted replicas through
  the messages that carry it to the nodes that adopt it.
\<close>

section \<open>Commit indices and what stands behind them\<close>

text \<open>A majority has acknowledged the log of the leader of \<open>t\<close> up to an entry \<open>n\<close> of that term.\<close>

definition committedBy :: "(int \<times> string) list \<Rightarrow> LeaderLogs \<Rightarrow> Acks \<Rightarrow> uint64 \<Rightarrow> nat \<Rightarrow> bool" where
  "committedBy ps G A t n \<longleftrightarrow> ownTerm G t n \<and> (\<exists>Q r. peers r = ps \<and> Q \<subseteq> fst ` set ps
     \<and> commitQuorum r (card Q) \<and> (\<forall>q \<in> Q. (t, q, n) \<in> A))"

text \<open>The first \<open>k\<close> entries of \<open>l\<close> were committed by a leader of a term up to \<open>u\<close>.\<close>

definition prefixCommitted ::
  "(int \<times> string) list \<Rightarrow> LeaderLogs \<Rightarrow> Acks \<Rightarrow> uint64 \<Rightarrow> nat \<Rightarrow> LogEntry list \<Rightarrow> bool" where
  "prefixCommitted ps G A u k l \<longleftrightarrow> k = 0 \<or> (\<exists>t n g. committedBy ps G A t n \<and> t \<le> u \<and> k \<le> n
     \<and> G t = Some g \<and> take k l = take k g)"

definition nodeCommitOk ::
  "(int \<times> string) list \<Rightarrow> LeaderLogs \<Rightarrow> Acks \<Rightarrow> RaftNode \<Rightarrow> Command list \<Rightarrow> bool" where
  "nodeCommitOk ps G A r cmds \<longleftrightarrow> applyFunc r = Some ApplyToStore \<and> lastApplied r \<le> commitIndex r
     \<and> unat (commitIndex r) \<le> length (Entries (raftLog r))
     \<and> prefixCommitted ps G A (currentTerm r) (unat (commitIndex r)) (Entries (raftLog r))
     \<and> cmds = map entryCommand (take (unat (lastApplied r)) (Entries (raftLog r)))"

definition messageCommitOk ::
  "(int \<times> string) list \<Rightarrow> LeaderLogs \<Rightarrow> Acks \<Rightarrow> Replication \<Rightarrow> bool" where
  "messageCommitOk ps G A rp \<longleftrightarrow> rpLeader rp \<in> fst ` set ps
     \<and> unat (aeLeaderCommit (rpArgs rp)) \<le> unat (aePrevLogIndex (rpArgs rp)) + length (aeEntries (rpArgs rp))
     \<and> (\<exists>g. G (aeTerm (rpArgs rp)) = Some g
          \<and> prefixCommitted ps G A (aeTerm (rpArgs rp)) (unat (aeLeaderCommit (rpArgs rp))) g)"

definition commitInv :: "(int \<times> string) list \<Rightarrow> LeaderLogs \<Rightarrow> Acks \<Rightarrow> Cluster \<Rightarrow> bool" where
  "commitInv ps G A c \<longleftrightarrow> (\<forall>i. nodeCommitOk ps G A (nodes c i) (applied c i))
     \<and> (\<forall>rp \<in> set (replications c). messageCommitOk ps G A rp)"

lemma commitInvD:
  assumes "commitInv ps G A c"
  shows "nodeCommitOk ps G A (nodes c i) (applied c i)"
    and "rp \<in> set (replications c) \<Longrightarrow> messageCommitOk ps G A rp"
  using assms by (simp_all add: commitInv_def)

section \<open>The histories grow\<close>

lemma take_eq_length: "take k l = take k g \<Longrightarrow> k \<le> length g \<Longrightarrow> k \<le> length l"
proof -
  assume "take k l = take k g" "k \<le> length g"
  then have "length (take k l) = k" by simp
  then show ?thesis by (simp add: min_def split: if_splits)
qed

lemma ownTerm_covered: "ownTerm G t n \<Longrightarrow> covered G t n"
  by (auto simp: ownTerm_def covered_def)

lemma committedBy_mono:
  assumes "committedBy ps G A t n" and "grows G G'" and "A \<subseteq> A'"
  shows "committedBy ps G' A' t n"
proof -
  have own: "ownTerm G t n" using assms(1) by (simp add: committedBy_def)
  have "ownTerm G' t n" using ownTerm_grows [OF ownTerm_covered [OF own] assms(2)] own by simp
  with assms(1,3) show ?thesis unfolding committedBy_def by blast
qed

lemma prefixCommitted_mono:
  assumes "prefixCommitted ps G A u k l" and "grows G G'" and "A \<subseteq> A'" and "u \<le> u'"
  shows "prefixCommitted ps G' A' u' k l"
proof (cases "k = 0")
  case False
  then obtain t n g where c: "committedBy ps G A t n" "t \<le> u" "k \<le> n" "G t = Some g" "take k l = take k g"
    using assms(1) by (auto simp: prefixCommitted_def)
  have "n \<le> length g" using c(1,4) by (auto simp: committedBy_def ownTerm_def)
  obtain x where "G' t = Some (g @ x)" using growsD [OF assms(2) c(4)] by blast
  with c \<open>n \<le> length g\<close> committedBy_mono [OF c(1) assms(2,3)] assms(4) show ?thesis
    unfolding prefixCommitted_def by (intro disjI2 exI [of _ t] exI [of _ n] exI [of _ "g @ x"]) auto
qed (simp add: prefixCommitted_def)

lemma prefixCommitted_length: "prefixCommitted ps G A u k l \<Longrightarrow> k \<le> length l"
proof (cases "k = 0")
  case False
  assume "prefixCommitted ps G A u k l"
  with False obtain t n g where "committedBy ps G A t n" "k \<le> n" "G t = Some g" "take k l = take k g"
    by (auto simp: prefixCommitted_def)
  moreover from this have "k \<le> length g" by (auto simp: committedBy_def ownTerm_def)
  ultimately show ?thesis by (intro take_eq_length [of k l g])
qed simp

lemma prefixCommitted_same:
  "prefixCommitted ps G A u k l \<Longrightarrow> take k l' = take k l \<Longrightarrow> prefixCommitted ps G A u k l'"
  by (simp add: prefixCommitted_def)

lemma nodeCommitOk_mono:
  "nodeCommitOk ps G A r cmds \<Longrightarrow> grows G G' \<Longrightarrow> A \<subseteq> A' \<Longrightarrow> nodeCommitOk ps G' A' r cmds"
  by (auto simp: nodeCommitOk_def intro: prefixCommitted_mono)

lemma messageCommitOk_mono:
  assumes "messageCommitOk ps G A rp" and "grows G G'" and "A \<subseteq> A'"
  shows "messageCommitOk ps G' A' rp"
proof -
  let ?k = "unat (aeLeaderCommit (rpArgs rp))"
  obtain g where g: "G (aeTerm (rpArgs rp)) = Some g" "prefixCommitted ps G A (aeTerm (rpArgs rp)) ?k g"
    using assms(1) by (auto simp: messageCommitOk_def)
  obtain x where x: "G' (aeTerm (rpArgs rp)) = Some (g @ x)" using growsD [OF assms(2) g(1)] by blast
  have "prefixCommitted ps G' A' (aeTerm (rpArgs rp)) ?k (g @ x)"
    using prefixCommitted_mono [OF g(2) assms(2,3) order_refl] prefixCommitted_length [OF g(2)]
    by (elim prefixCommitted_same) simp
  with x assms(1) show ?thesis by (simp add: messageCommitOk_def)
qed

lemma commitInv_mono: "commitInv ps G A c \<Longrightarrow> grows G G' \<Longrightarrow> A \<subseteq> A' \<Longrightarrow> commitInv ps G' A' c"
  unfolding commitInv_def using nodeCommitOk_mono messageCommitOk_mono by blast

text \<open>What was committed is in the log of every later leader.\<close>

lemma committed_in_leader:
  assumes "promises ps H G A c" and "peersOk ps" and "prefixCommitted ps G A u k l"
    and "G w = Some h" and "u \<le> w"
  shows "take k l = take k h"
proof (cases "k = 0")
  case False
  then obtain t n g where c: "committedBy ps G A t n" "t \<le> u" "k \<le> n" "G t = Some g" "take k l = take k g"
    using assms(3) by (auto simp: prefixCommitted_def)
  then obtain Q r where Q: "peers r = ps" "Q \<subseteq> fst ` set ps" "commitQuorum r (card Q)"
    "\<forall>q \<in> Q. (t, q, n) \<in> A" "ownTerm G t n" by (auto simp: committedBy_def)
  have acks: "(t, q, n) \<in> A" if "q \<in> Q" for q using Q(4) that by blast
  have tw: "t \<le> w" using c(2) assms(5) by simp
  have "take n h = take n g"
    by (rule acknowledged_stays [OF assms(1,2) Q(1-3) acks Q(5) c(4) assms(4) tw])
  from arg_cong [OF this, of "take k"] c(3,5) show ?thesis by (simp add: min_def)
qed simp

section \<open>Nodes that commit nothing\<close>

definition commitStill :: "RaftNode \<Rightarrow> RaftNode \<Rightarrow> bool" where
  "commitStill r r' \<longleftrightarrow> currentTerm r \<le> currentTerm r' \<and> applyFunc r' = applyFunc r
     \<and> commitIndex r' = commitIndex r \<and> lastApplied r' = lastApplied r
     \<and> (\<exists>es. Entries (raftLog r') = Entries (raftLog r) @ es)"

lemma nodeCommitOk_still:
  assumes "nodeCommitOk ps G A r cmds" and "commitStill r r'"
  shows "nodeCommitOk ps G A r' cmds"
proof -
  obtain es where es: "Entries (raftLog r') = Entries (raftLog r) @ es" using assms(2) by (auto simp: commitStill_def)
  have k: "unat (commitIndex r) \<le> length (Entries (raftLog r))" "unat (lastApplied r) \<le> unat (commitIndex r)"
    using assms(1) by (simp_all add: nodeCommitOk_def word_le_nat_alt)
  have "prefixCommitted ps G A (currentTerm r') (unat (commitIndex r)) (Entries (raftLog r))"
    using assms prefixCommitted_mono [of ps G A "currentTerm r" _ _ G A "currentTerm r'"]
    by (simp add: nodeCommitOk_def commitStill_def)
  then have "prefixCommitted ps G A (currentTerm r') (unat (commitIndex r)) (Entries (raftLog r'))"
    using k(1) by (elim prefixCommitted_same) (simp add: es)
  with assms k show ?thesis by (simp add: nodeCommitOk_def commitStill_def es)
qed

lemma timerFired_commit: "commitStill r (fst (timerFired r))"
  by (simp add: commitStill_def timerFired_def)

lemma callsOf_sends: "callsOf (map (\<lambda>(p, a). GoRequestVote p a args) xs) = []"
  by (induction xs) auto

lemma startElection_commit:
  "unat (currentTerm r) < 18446744073709551615 \<Longrightarrow> commitStill r (fst (startElection r))"
  "callsOf (snd (startElection r)) = []"
  by (simp add: commitStill_def startElection_moved word_le_nat_alt unat_plus_one)
     (simp add: startElection_def becomeCandidate_def Let_def callsOf_sends)

lemma RequestVote_commit: "commitStill r (fst (RequestVote args r))"
  by (cases rule: RequestVote_cases [of args r]) (auto simp: commitStill_def resetElectionTimer_def)

lemma voteReply_commit:
  assumes "voteReply args p result votes r = (r', votes', es)"
  shows "commitStill r r' \<and> callsOf es = []"
  using assms
  by (auto simp: voteReply_def becomeLeader_def commitStill_def Let_def split: sum.splits if_splits)

lemma Start_commit: "commitStill r (fst (Start cmd r)) \<and> callsOf (fst (snd (Start cmd r))) = []"
  by (simp add: Start_def commitStill_def logAppend_def Let_def)

lemma Stop_commit: "commitStill r (fst (Stop r)) \<and> callsOf (snd (Stop r)) = []"
  by (simp add: Stop_def commitStill_def Let_def)

section \<open>Actions that commit nothing\<close>

lemma commitInv_node:
  assumes "commitInv ps G A c" and "nodes c' = (nodes c)(i := r)"
    and "applied c' = (applied c)(i := cmds)" and "nodeCommitOk ps G A r cmds"
    and "\<And>rp. rp \<in> set (replications c') \<Longrightarrow> messageCommitOk ps G A rp"
  shows "commitInv ps G A c'"
  using assms by (simp add: commitInv_def)

lemma commitInv_still:
  assumes "commitInv ps G A c" and "nodes c' = (nodes c)(i := r)" and "commitStill (nodes c i) r"
    and "applied c' = (applied c)(i := applied c i @ callsOf es)" and "callsOf es = []"
    and "replications c' = replications c"
  shows "commitInv ps G A c'"
  using commitInvD(2) [OF assms(1)] nodeCommitOk_still [OF commitInvD(1) [OF assms(1)] assms(3)] assms(5,6)
  by (intro commitInv_node [OF assms(1,2,4)]) simp_all

lemma commitInv_same:
  assumes "commitInv ps G A c" and "nodes c' = nodes c" and "applied c' = applied c"
    and "\<And>rp. rp \<in> set (replications c') \<Longrightarrow> messageCommitOk ps G A rp"
  shows "commitInv ps G A c'"
  using assms by (simp add: commitInv_def)

lemma applied_updateNode [simp]:
  "applied (updateNode i r es c) = (applied c)(i := applied c i @ callsOf es)"
  by (simp add: updateNode_def)

lemma applied_setCalls [simp]:
  "applied (setVoteCall e j s c) = applied c" "applied (setAppendCall k t c) = applied c"
  by (simp_all add: setVoteCall_def setAppendCall_def Let_def)

lemma setAppendCall_messages:
  assumes "\<And>rp. rp \<in> set (replications c) \<Longrightarrow> messageCommitOk ps G A rp"
    and "rp' \<in> set (replications (setAppendCall k s c))"
  shows "messageCommitOk ps G A rp'"
proof (cases "k < length (replications c)")
  case True
  then have "messageCommitOk ps G A (replications c ! k)" using assms(1) by simp
  then have "messageCommitOk ps G A ((replications c ! k)\<lparr>rpCall := s\<rparr>)" by (simp add: messageCommitOk_def)
  then show ?thesis
    using assms set_update_subset_insert [of "replications c" k] by (fastforce simp: setAppendCall_def)
next
  case False
  then show ?thesis using assms by (simp add: setAppendCall_def list_update_beyond)
qed

lemma setAppendCall_commit:
  "commitInv ps G A c \<Longrightarrow> commitInv ps G A (setAppendCall k s c)"
  by (rule commitInv_same) (auto intro: setAppendCall_messages dest: commitInvD(2))

lemma heartbeat_commit:
  assumes "commitInv ps G A c" and "logsInv ps H G n c" and "n < 9223372036854775807"
    and "peers (nodes c i) = ps" and "i \<in> fst ` set ps"
  shows "commitInv ps G A (heartbeat i c)"
proof -
  let ?r = "nodes c i"
  note node = commitInvD(1) [OF assms(1), of i]
  have "messageCommitOk ps G A rp" if rp: "rp \<in> set (appendCallsOf i (sendHeartbeats ?r))" for rp
  proof -
    obtain p a where l: "state ?r = Leader" and pa: "(p, a) \<in> set ps"
      and rp': "rp = \<lparr>rpLeader = i, rpPeer = p, rpAddress = a, rpArgs = heartbeatArgs ?r p, rpCall = Sent\<rparr>"
      using rp assms(4) by (auto simp: appendCallsOf_sendHeartbeats split: if_splits)
    have lead: "G (termOf c i) = Some (logOf c i)" "nextInLog ?r p"
      using logsInvD(2) [OF assms(2), of i] l pa by (force simp: leadOk_def nextOk_def)+
    have "logSmall (raftLog ?r)"
      using logsInvD(1) [OF assms(2), of i] assms(3) by (simp add: logOk_def logSmall_def)
    note f = heartbeatArgs_fields [OF lead(2) this]
    have "aeLeaderCommit (heartbeatArgs ?r p) = commitIndex ?r" by (simp add: heartbeatArgs_def Let_def)
    then show ?thesis
      using node lead(1) f assms(5) by (simp add: messageCommitOk_def rp' nodeCommitOk_def)
  qed
  then show ?thesis
    using commitInvD(2) [OF assms(1)] by (intro commitInv_same [OF assms(1)]) (auto simp: heartbeat_def)
qed

section \<open>Followers\<close>

text \<open>Adopting a commit index: no further than the message says, nor than the log goes.\<close>

lemma advanceCommit_value:
  "commitIndex (advanceCommit lc r) = commitIndex r
   \<or> unat (commitIndex (advanceCommit lc r)) \<le> unat lc"
  by (auto simp: advanceCommit_def word_less_nat_alt)

text \<open>Applying up to the commit index.\<close>

lemma apply_commit:
  assumes "applyFunc x = Some ApplyToStore" and "logSmall (raftLog x)" and "lastApplied x \<le> commitIndex x"
    and "unat (commitIndex x) \<le> length (Entries (raftLog x))"
    and "prefixCommitted ps G A (currentTerm x) (unat (commitIndex x)) (Entries (raftLog x))"
    and "cmds = map entryCommand (take (unat (lastApplied x)) (Entries (raftLog x)))"
  shows "nodeCommitOk ps G A (fst (applyCommitted x)) (cmds @ callsOf (snd (applyCommitted x)))"
proof -
  let ?l = "Entries (raftLog x)" and ?a = "unat (lastApplied x)" and ?k = "unat (commitIndex x)"
  have r: "callsOf (snd (applyCommitted x)) = map entryCommand (take (?k - ?a) (drop ?a ?l))"
    "fst (applyCommitted x) = x\<lparr>lastApplied := commitIndex x\<rparr>"
    using applyCommitted_range [OF assms(2,4,3)] assms(1) by simp_all
  have "?a \<le> ?k" using assms(3) by (simp add: word_le_nat_alt)
  then have "take ?k ?l = take ?a ?l @ take (?k - ?a) (drop ?a ?l)"
    by (metis le_add_diff_inverse take_add)
  then show ?thesis using assms by (simp add: nodeCommitOk_def r)
qed

lemma prefixCommitted_le: "prefixCommitted ps G A u k l \<Longrightarrow> j \<le> k \<Longrightarrow> prefixCommitted ps G A u j l"
proof (cases "j = 0")
  case False
  assume a: "prefixCommitted ps G A u k l" "j \<le> k"
  then obtain t n g where c: "committedBy ps G A t n" "t \<le> u" "k \<le> n" "G t = Some g" "take k l = take k g"
    using False by (auto simp: prefixCommitted_def)
  have "take j l = take j g" using arg_cong [OF c(5), of "take j"] a(2) by (simp add: min_def)
  with c a(2) show ?thesis
    unfolding prefixCommitted_def by (intro disjI2 exI [of _ t] exI [of _ n] exI [of _ g]) simp
qed (simp add: prefixCommitted_def)

lemma installed_commit:
  assumes "nodeCommitOk ps G A r cmds" and "messageCommitOk ps G A rp" and "args = rpArgs rp"
    and "promises ps H G A c" and "peersOk ps" and "logOk G n (Entries (raftLog r))"
    and "\<And>t g. G t = Some g \<Longrightarrow> logOk G n g" and "n < 9223372036854775807"
    and "messageOk G args" and "currentTerm r \<le> aeTerm args" and "prevMatches args r"
  shows "nodeCommitOk ps G A (fst (applyCommitted (installed args r)))
    (cmds @ callsOf (snd (applyCommitted (installed args r))))"
proof (rule message_merge [OF assms(6,9,7,8,11)])
  let ?i = "installed args r" and ?l = "Entries (raftLog r)" and ?p = "unat (aePrevLogIndex args)"
  let ?e = "Entries (raftLog ?i)" and ?k = "unat (commitIndex r)" and ?k' = "unat (commitIndex ?i)"
  fix g q
  assume g: "G (aeTerm args) = Some g" "?p \<le> q" "q \<le> length g" "aeEntries args = drop ?p (take q g)"
      "logsMatch ?l g" "take ?p ?l = take ?p g" "?e = mergeSpec ?p (drop ?p (take q g)) ?l"
  have node: "prefixCommitted ps G A (currentTerm r) ?k ?l" "?k \<le> length ?l" "applyFunc r = Some ApplyToStore"
    "lastApplied r \<le> commitIndex r" "cmds = map entryCommand (take (unat (lastApplied r)) ?l)"
    using assms(1) by (simp_all add: nodeCommitOk_def)
  have old: "take ?k ?l = take ?k g"
    by (rule committed_in_leader [OF assms(4,5) node(1) g(1) assms(10)])
  have "?k \<le> length g" by (rule take_eq_length [OF old [symmetric] node(2)])
  from merge_keeps [OF old this g(2,3)] have keep: "take ?k ?e = take ?k g" by (simp add: g(7))
  have has: "take q ?e = take q g" using merge_has [OF g(5,2,3,6)] by (simp add: g(7))
  have lc: "unat (aeLeaderCommit args) \<le> q"
    "prefixCommitted ps G A (aeTerm args) (unat (aeLeaderCommit args)) g"
    using assms(2,3) g(1-4) by (auto simp: messageCommitOk_def)
  have "logOk G n ?e"
    using merge_explained [OF g(5,2,3,6)] assms(6) logOk_take [OF assms(7) [OF g(1)], of q] by (auto simp: g(7))
  then have wf: "logWf (raftLog ?i)" "logSmall (raftLog ?i)"
    using assms(8) by (auto simp: logOk_def logWf_def logSmall_def)
  let ?j = "(adoptLeader args r)\<lparr>raftLog := fold mergeEntry (aeEntries args) (raftLog r)\<rparr>"
  have inst: "advanceCommit (aeLeaderCommit args) ?j = ?i" by (simp only: installed_def)
  have same: "raftLog ?j = raftLog ?i" "commitIndex ?j = commitIndex r" "applyFunc ?i = applyFunc r"
    "lastApplied ?i = lastApplied r" "currentTerm ?i = aeTerm args"
    by (simp_all add: installed_def adoptLeader_def)
  have "?k \<le> length ?e" by (rule take_eq_length [OF keep \<open>?k \<le> length g\<close>])
  then have adv: "commitIndex r \<le> commitIndex ?i" "?k' \<le> length ?e"
    using advanceCommit_bounds [of ?j "aeLeaderCommit args"] wf unfolding inst same by blast+
  have "prefixCommitted ps G A (aeTerm args) ?k' ?e"
  proof (cases "commitIndex ?i = commitIndex r")
    case True
    have "prefixCommitted ps G A (aeTerm args) ?k ?l"
      using prefixCommitted_mono [OF node(1) grows_refl order_refl assms(10)] .
    then show ?thesis using True keep old by (simp add: prefixCommitted_def)
  next
    case False
    then have "?k' \<le> unat (aeLeaderCommit args)"
      using advanceCommit_value [of "aeLeaderCommit args" ?j] unfolding inst same by blast
    moreover from this lc(1) have "take ?k' ?e = take ?k' g"
      using arg_cong [OF has, of "take ?k'"] by (simp add: min_def)
    ultimately show ?thesis by (blast intro: prefixCommitted_le [OF lc(2)] prefixCommitted_same)
  qed
  moreover have "take (unat (lastApplied r)) ?l = take (unat (lastApplied r)) ?e"
  proof -
    have "unat (lastApplied r) \<le> ?k" using node(4) by (simp add: word_le_nat_alt)
    then show ?thesis using arg_cong [OF trans [OF old keep [symmetric]], of "take (unat (lastApplied r))"]
      by (simp add: min_def)
  qed
  ultimately show ?thesis
    using node(3,4,5) adv wf(2) by (intro apply_commit) (simp_all add: same)
qed

lemma handleAppend_commit:
  assumes "commitInv ps G A c" and "promises ps H G A c" and "peersOk ps" and "logsInv ps H G n c"
    and "n < 9223372036854775807" and "handleAppend k c = Some c'"
  shows "commitInv ps G A c'"
  using assms(6)
proof (cases rule: handleAppend_cases)
  case (1 rp i r es reply)
  note rp = appendCall_SomeD(4) [OF 1(1)]
  note msg = commitInvD(2) [OF assms(1) rp]
  have le: "termOf c i \<le> currentTerm r"
    using AppendEntries_quiet [of "nodes c i" "rpArgs rp"] 1(2) by (simp add: move_defs)
  have "commitInv ps G A (updateNode i r es c)"
    using callsOf_AppendEntries [OF 1(2)]
  proof (elim disjE)
    assume "r = nodes c i \<and> callsOf es = []"
    then show ?thesis by (intro commitInv_still [OF assms(1), where i = i and r = r and es = es])
      (simp_all add: commitStill_def)
  next
    assume "r = adoptLeader (rpArgs rp) (nodes c i) \<and> callsOf es = []"
    then show ?thesis using le
      by (intro commitInv_still [OF assms(1), where i = i and r = r and es = es])
      (simp_all add: commitStill_def adoptLeader_def)
  next
    assume m: "termOf c i \<le> aeTerm (rpArgs rp) \<and> prevMatches (rpArgs rp) (nodes c i)
      \<and> r = fst (applyCommitted (installed (rpArgs rp) (nodes c i)))
      \<and> callsOf es = callsOf (snd (applyCommitted (installed (rpArgs rp) (nodes c i))))"
    have "nodeCommitOk ps G A r (applied c i @ callsOf es)"
      using installed_commit [OF commitInvD(1) [OF assms(1)] msg refl assms(2,3) logsInvD(1) [OF assms(4)]
        logsInvD(3) [OF assms(4)] assms(5) logsInvD(5) [OF assms(4) rp]] m by simp
    then show ?thesis
      using commitInvD(2) [OF assms(1)] by (intro commitInv_node [OF assms(1)]) simp_all
  qed
  then show ?thesis unfolding 1(3) by (rule setAppendCall_commit)
qed

section \<open>Leaders\<close>

text \<open>The test that the code does not make: a leader whose commit index moves lands on an entry of
  its own term.\<close>

definition commitsOwnTerm :: "Cluster \<Rightarrow> Cluster \<Rightarrow> bool" where
  "commitsOwnTerm c c' \<longleftrightarrow> list_all (\<lambda>i. state (nodes c' i) = Leader \<longrightarrow>
     commitIndex (nodes c' i) \<noteq> commitIndex (nodes c i) \<longrightarrow>
     entryTerm (Entries (raftLog (nodes c' i)) ! (unat (commitIndex (nodes c' i)) - 1))
       = currentTerm (nodes c' i)) (members c')"

lemma new_commit:
  assumes "histories ps k H G A c'" and "peersOk ps" and "i \<in> fst ` set ps" and "commitsOwnTerm c c'"
    and "state (nodes c' i) = Leader" and "commitIndex (nodes c' i) \<noteq> commitIndex (nodes c i)"
    and "commitIndex (nodes c' i) \<noteq> 0" and "hasQuorum (nodes c' i) (commitIndex (nodes c' i))"
    and "unat (commitIndex (nodes c' i)) \<le> length (logOf c' i)"
  shows "committedBy ps G A (termOf c' i) (unat (commitIndex (nodes c' i)))"
proof -
  let ?k = "unat (commitIndex (nodes c' i))"
  have votes: "votesInv ps H c'" and logs: "logsInv ps H G k c'" and acks: "acksInv ps H G A c'"
    using assms(1) by (simp_all add: histories_def)
  have k: "0 < ?k" using assms(7) by (simp add: unat_gt_0)
  have q: "commitQuorum (nodes c' i) (replicaCount (nodes c' i) (commitIndex (nodes c' i)))"
    using assms(8) by (simp add: hasQuorum_def)
  obtain Q where Q: "Q \<subseteq> fst ` set ps" "card Q = replicaCount (nodes c' i) (commitIndex (nodes c' i))"
    "\<forall>p \<in> Q. (termOf c' i, p, ?k) \<in> A"
    using counted_acks [OF acks votes assms(2,3,5) k] assms(9) unsigned_less [of "commitIndex (nodes c' i)"] by auto
  have g: "G (termOf c' i) = Some (logOf c' i)" using logsInvD(2) [OF logs, of i] assms(5) by (simp add: leadOk_def)
  have "i \<in> set (members c')" using assms(3) by (simp add: votesInvD(1) [OF votes])
  from bspec [OF assms(4) [unfolded commitsOwnTerm_def list_all_iff] this]
  have "entryTerm (logOf c' i ! (?k - 1)) = termOf c' i" using assms(5,6) by simp
  then have "ownTerm G (termOf c' i) ?k" using g k assms(9) by (simp add: ownTerm_def)
  with votesInvD(3) [OF votes, of i] Q q show ?thesis unfolding committedBy_def by metis
qed

lemma leader_commit:
  assumes "nodeCommitOk ps G A (nodes c i) cmds" and "logOk G0 n (logOf c i)" and "n < 9223372036854775807"
    and h: "histories ps k H G A c'" and "peersOk ps" and "i \<in> fst ` set ps" and "commitsOwnTerm c c'"
    and x: "x = (nodes c i)\<lparr>matchIndex := matchIndex x, nextIndex := nextIndex x\<rparr>"
    and lead: "state (nodes c i) = Leader"
    and r: "nodes c' i = fst (applyCommitted (fst (updateCommitIndex x)))"
  shows "nodeCommitOk ps G A (nodes c' i) (cmds @ callsOf (snd (applyCommitted (fst (updateCommitIndex x)))))"
proof -
  let ?u = "fst (updateCommitIndex x)" and ?l = "logOf c i" and ?t = "termOf c i"
  let ?k = "unat (commitIndex ?u)"
  have same: "raftLog x = raftLog (nodes c i)" "commitIndex x = commitIndex (nodes c i)" "currentTerm x = ?t"
    "applyFunc x = applyFunc (nodes c i)" "lastApplied x = lastApplied (nodes c i)" "state x = Leader"
    using lead by (subst x, simp)+
  note node = assms(1) [unfolded nodeCommitOk_def]
  have wf: "logWf (raftLog x)" "logSmall (raftLog x)"
    using assms(2,3) by (auto simp: same logOk_def logWf_def logSmall_def)
  have "unat (commitIndex x) \<le> length (Entries (raftLog x))" using node by (simp add: same)
  note u = updateCommitIndex_bounds [OF wf this]
  have fu: "applyFunc ?u = applyFunc x" "lastApplied ?u = lastApplied x" by (subst updateCommitIndex_only, simp)+
  have len: "?k \<le> length ?l" using u(2) by (simp add: same)
  have fr: "state (nodes c' i) = Leader" "termOf c' i = ?t" "logOf c' i = ?l"
    "commitIndex (nodes c' i) = commitIndex ?u" by (simp_all add: r same)
  have "hasQuorum (nodes c' i) j = hasQuorum x j" for j
    by (simp add: r hasQuorum_def commitQuorum_def replicaCount_def)
  note q = u(3) [folded this]
  have "prefixCommitted ps G A ?t ?k ?l"
  proof (cases "commitIndex ?u = commitIndex x")
    case True
    then show ?thesis using node by (simp add: same)
  next
    case False
    then have "commitIndex ?u \<noteq> 0" using u(1) by auto
    then have c: "committedBy ps G A ?t ?k"
      using new_commit [OF h assms(5,6,7) fr(1)] False q [OF False] len by (simp add: fr same)
    have "logsInv ps H G k c'" using h by (simp add: histories_def)
    from logsInvD(2) [OF this, of i] have "G ?t = Some ?l" by (simp add: leadOk_def fr)
    with c show ?thesis unfolding prefixCommitted_def by blast
  qed
  moreover have "lastApplied (nodes c i) \<le> commitIndex ?u"
    by (rule order_trans [OF _ u(1) [unfolded same]]) (simp add: node)
  ultimately show ?thesis
    unfolding r using node wf(2) len by (intro apply_commit) (simp_all add: same fu)
qed

lemma finishAppend_commit:
  assumes "commitInv ps G A c" and "logsInv ps H0 G0 n c" and "n < 9223372036854775807"
    and "histories ps m H G A c'" and "peersOk ps" and "commitsOwnTerm c c'" and "finishAppend k c = Some c'"
  shows "commitInv ps G A c'"
  using assms(7)
proof (cases rule: finishAppend_cases)
  case (1 rp result r es)
  let ?i = "rpLeader rp"
  have i: "?i \<in> fst ` set ps"
    using commitInvD(2) [OF assms(1) appendCall_SomeD(4) [OF 1(1)]] by (simp add: messageCommitOk_def)
  have le: "termOf c ?i \<le> currentTerm r"
    using appendReply_quiet [of "nodes c ?i" "rpArgs rp" "rpPeer rp" result] 1(2) by (simp add: move_defs)
  have "commitInv ps G A (updateNode ?i r es c)"
    using callsOf_appendReply [OF 1(2)]
  proof (elim disjE)
    assume "callsOf es = [] \<and> applyFunc r = applyFunc (nodes c ?i) \<and> raftLog r = raftLog (nodes c ?i)
      \<and> lastApplied r = lastApplied (nodes c ?i) \<and> commitIndex r = commitIndex (nodes c ?i)"
    then show ?thesis using le
      by (intro commitInv_still [OF assms(1), where i = ?i and r = r and es = es]) (simp_all add: commitStill_def)
  next
    assume "\<exists>x. applyFunc x = applyFunc (nodes c ?i) \<and> raftLog x = raftLog (nodes c ?i)
      \<and> lastApplied x = lastApplied (nodes c ?i) \<and> commitIndex x = commitIndex (nodes c ?i)
      \<and> x = (nodes c ?i)\<lparr>matchIndex := matchIndex x, nextIndex := nextIndex x\<rparr> \<and> state (nodes c ?i) = Leader
      \<and> r = fst (applyCommitted (fst (updateCommitIndex x)))
      \<and> callsOf es = callsOf (snd (applyCommitted (fst (updateCommitIndex x))))"
    then obtain x where x: "x = (nodes c ?i)\<lparr>matchIndex := matchIndex x, nextIndex := nextIndex x\<rparr>"
      "state (nodes c ?i) = Leader" "r = fst (applyCommitted (fst (updateCommitIndex x)))"
      "callsOf es = callsOf (snd (applyCommitted (fst (updateCommitIndex x))))" by blast
    have r: "nodes c' ?i = r" by (simp add: 1(3))
    have "nodeCommitOk ps G A r (applied c ?i @ callsOf es)"
      using leader_commit [OF commitInvD(1) [OF assms(1)] logsInvD(1) [OF assms(2)] assms(3-5) i assms(6) x(1,2)]
        r x(3,4) by simp
    then show ?thesis
      using commitInvD(2) [OF assms(1)] by (intro commitInv_node [OF assms(1)]) simp_all
  qed
  then show ?thesis unfolding 1(3) by (rule setAppendCall_commit)
qed

section \<open>Every action keeps it\<close>

lemma finishVote_commit:
  assumes "commitInv ps G A c" and "finishVote e j c = Some c'"
  shows "commitInv ps G A c'"
proof -
  obtain el p a result r votes es where "voteCall e j c = Some (el, p, a, Returned result)"
    and vr: "voteReply (elArgs el) p result (elVotes el) (nodes c (elCandidate el)) = (r, votes, es)"
    and c': "c' = (let c1 = setVoteCall e j Finished (updateNode (elCandidate el) r es c)
      in c1\<lparr>elections := (elections c1)[e := (elections c1 ! e)\<lparr>elVotes := votes\<rparr>]\<rparr>)"
    using assms(2)
    by (auto simp: finishVote_def Let_def split: option.splits prod.splits Call.splits)
  show ?thesis
    using voteReply_commit [OF vr]
    by (intro commitInv_still [OF assms(1), where i = "elCandidate el" and r = r and es = es]) (simp_all add: c' Let_def)
qed

lemma commit_step:
  assumes "histories ps n H G A c" and "commitInv ps G A c" and "peersOk ps" and "perform a c = Some c'"
    and "\<not> isRestart a" and "n < 9223372036854775807" and "commitsOwnTerm c c'"
  shows "\<exists>H' G' A'. grows G G' \<and> A \<subseteq> A' \<and> histories ps (Suc n) H' G' A' c' \<and> commitInv ps G' A' c'"
proof -
  have h: "votesInv ps H c" "logsInv ps H G n c" "termsBelow n c" "promises ps H G A c"
    using assms(1) by (simp_all add: histories_def acksInv_def)
  obtain H' G' A' where h': "grows G G'" "A \<subseteq> A'" "histories ps (Suc n) H' G' A' c'"
    using histories_step [OF assms(1,3,4,5,6)] by blast
  have t: "unat (termOf c i) < 18446744073709551615" for i
    using termsBelowD(1) [OF h(3), of i] assms(6) by simp
  have lift: "commitInv ps G' A' c'" if "commitInv ps G A c'"
    by (rule commitInv_mono [OF that h'(1,2)])
  have "commitInv ps G' A' c'"
  proof (cases a)
    case (TimerFires i)
    then have "timerFires i c = Some c'" using assms(4) by (simp split: if_splits)
    then show ?thesis
      by (intro lift commitInv_still [OF assms(2) _ timerFired_commit, where i = i and es = "[]"])
        (auto simp: timerFires_def split: if_splits prod.splits)
  next
    case (BeginElection i)
    then have "beginElection i c = Some c'" using assms(4) by simp
    then show ?thesis
      by (intro lift commitInv_still [OF assms(2) _ startElection_commit(1) [OF t] _
          startElection_commit(2) [of "nodes c i"], where i = i])
        (auto simp: beginElection_def split: if_splits prod.splits)
  next
    case (AdmitVote e j)
    then obtain s where "c' = setVoteCall e j s c"
      using assms(4) by (auto simp: admitVote_def split: option.splits prod.splits Call.splits)
    then show ?thesis using commitInvD(2) [OF assms(2)] by (intro lift commitInv_same [OF assms(2)]) simp_all
  next
    case (HandleVote e j)
    then obtain s i args where "c' = setVoteCall e j s (updateNode i (fst (RequestVote args (nodes c i))) [] c)"
      using assms(4) by (auto simp: handleVote_def split: option.splits prod.splits Call.splits) (metis fst_conv)
    then show ?thesis
      by (intro lift commitInv_still [OF assms(2) _ RequestVote_commit [of _ args], where i = i and es = "[]"]) simp_all
  next
    case (LoseVote e j)
    then obtain s where "c' = setVoteCall e j s c"
      using assms(4) by (auto simp: loseVote_def split: option.splits prod.splits if_splits)
    then show ?thesis using commitInvD(2) [OF assms(2)] by (intro lift commitInv_same [OF assms(2)]) simp_all
  next
    case (FinishVote e j)
    then show ?thesis using assms(4) finishVote_commit [OF assms(2)] by (intro lift) simp
  next
    case (Heartbeat i)
    then have "c' = heartbeat i c" "i \<in> fst ` set ps"
      using assms(4) votesInvD(1) [OF h(1)] by (auto split: if_splits)
    then show ?thesis
      using heartbeat_commit [OF assms(2) h(2) assms(6) votesInvD(3) [OF h(1)]] by (intro lift) simp
  next
    case (AdmitAppend k)
    then obtain s where "c' = setAppendCall k s c"
      using assms(4) by (auto simp: admitAppend_def split: option.splits prod.splits Call.splits)
    then show ?thesis using setAppendCall_commit [OF assms(2)] by (intro lift) simp
  next
    case (HandleAppend k)
    then show ?thesis using assms(4) handleAppend_commit [OF assms(2) h(4) assms(3) h(2) assms(6)]
      by (intro lift) simp
  next
    case (LoseAppend k)
    then obtain s where "c' = setAppendCall k s c"
      using assms(4) by (auto simp: loseAppend_def split: option.splits prod.splits if_splits)
    then show ?thesis using setAppendCall_commit [OF assms(2)] by (intro lift) simp
  next
    case (FinishAppend k)
    then have "finishAppend k c = Some c'" using assms(4) by simp
    then show ?thesis
      by (rule finishAppend_commit [OF commitInv_mono [OF assms(2) h'(1,2)] h(2) assms(6) h'(3) assms(3,7)])
  next
    case (ClientStart i cmd)
    then have c': "c' = clientStart i cmd c" using assms(4) by (simp split: if_splits)
    show ?thesis
      using Start_commit [of "nodes c i" cmd]
      by (intro lift commitInv_still [OF assms(2),
          where i = i and r = "fst (Start cmd (nodes c i))" and es = "fst (snd (Start cmd (nodes c i)))"])
        (simp_all add: c' clientStart_def case_prod_unfold)
  next
    case (StopNode i)
    then have c': "c' = stopNode i c" using assms(4) by (simp split: if_splits)
    show ?thesis
      using Stop_commit [of "nodes c i"]
      by (intro lift commitInv_still [OF assms(2),
          where i = i and r = "fst (Stop (nodes c i))" and es = "snd (Stop (nodes c i))"])
        (simp_all add: c' stopNode_def case_prod_unfold)
  next
    case (RestartNode i)
    then show ?thesis using assms(5) by simp
  qed
  with h' show ?thesis by blast
qed

section \<open>State machine safety\<close>

text \<open>A run whose commits all pass the test.\<close>

fun ownTermCommits :: "Action list \<Rightarrow> Cluster \<Rightarrow> bool" where
  "ownTermCommits [] c = True"
| "ownTermCommits (a # as) c =
    (case perform a c of None \<Rightarrow> False | Some c' \<Rightarrow> commitsOwnTerm c c' \<and> ownTermCommits as c')"

lemma exec_commits:
  assumes "exec as c = Some c'" and "ownTermCommits as c" and "histories ps n H G A c"
    and "commitInv ps G A c" and "peersOk ps" and "n + length as < 9223372036854775808"
    and "\<forall>a \<in> set as. \<not> isRestart a"
  shows "\<exists>H' G' A'. grows G G' \<and> A \<subseteq> A' \<and> histories ps (n + length as) H' G' A' c' \<and> commitInv ps G' A' c'"
  using assms
proof (induction as arbitrary: c n H G A)
  case Nil
  then show ?case by (intro exI [of _ H] exI [of _ G] exI [of _ A]) simp
next
  case (Cons a as)
  obtain c1 where c1: "perform a c = Some c1" "exec as c1 = Some c'" "commitsOwnTerm c c1" "ownTermCommits as c1"
    using Cons.prems(1,2) by (auto split: option.splits)
  have "\<not> isRestart a" "n < 9223372036854775807" using Cons.prems(6,7) by simp_all
  from commit_step [OF Cons.prems(3,4,5) c1(1) this c1(3)] obtain H1 G1 A1 where
    s: "grows G G1" "A \<subseteq> A1" "histories ps (Suc n) H1 G1 A1 c1" "commitInv ps G1 A1 c1" by blast
  obtain H2 G2 A2 where
    t: "grows G1 G2" "A1 \<subseteq> A2" "histories ps (Suc n + length as) H2 G2 A2 c'" "commitInv ps G2 A2 c'"
    using Cons.IH [OF c1(2,4) s(3,4) Cons.prems(5)] Cons.prems(6,7) by auto
  have "A \<subseteq> A2" using s(2) t(2) by blast
  with grows_trans [OF s(1) t(1)] t(3,4) show ?case by auto
qed

lemma commitInv_boot: "commitInv ps Map.empty {} (bootCluster ps)"
  by (simp add: commitInv_def nodeCommitOk_def prefixCommitted_def bootCluster_def bootNode_def
      NewRaftNode_def SetApplyFunc_def SetTransport_def SetPeers_def SetEventBus_def)

text \<open>Two committed prefixes agree as far as both go.\<close>

lemma prefixCommitted_agree:
  assumes "promises ps H G A c" and "peersOk ps"
    and "prefixCommitted ps G A u k l" and "prefixCommitted ps G A v j m" and "k \<le> j"
  shows "take k l = take k m"
proof (cases "k = 0")
  case False
  then obtain t n g where t: "committedBy ps G A t n" "t \<le> u" "k \<le> n" "G t = Some g" "take k l = take k g"
    using assms(3) by (auto simp: prefixCommitted_def)
  obtain t' n' g' where t': "committedBy ps G A t' n'" "t' \<le> v" "j \<le> n'" "G t' = Some g'" "take j m = take j g'"
    using assms(4,5) False by (auto simp: prefixCommitted_def)
  have m: "take k m = take k g'" using arg_cong [OF t'(5), of "take k"] assms(5) by (simp add: min_def)
  have "take k g = take k g'"
  proof (cases "t \<le> t'")
    case True
    have "prefixCommitted ps G A t k g" using t unfolding prefixCommitted_def by blast
    from committed_in_leader [OF assms(1,2) this t'(4) True] show ?thesis .
  next
    case False
    have "k \<le> n'" using t'(3) assms(5) by simp
    then have "prefixCommitted ps G A t' k g'" using t'(1,4) unfolding prefixCommitted_def by blast
    from committed_in_leader [OF assms(1,2) this t(4)] False show ?thesis by simp
  qed
  with t(5) m show ?thesis by simp
qed simp

lemma applied_agree:
  assumes "promises ps H G A c" and "peersOk ps"
    and "nodeCommitOk ps G A r cmds" and "nodeCommitOk ps G A r' cmds'"
    and "unat (lastApplied r) \<le> unat (lastApplied r')"
  shows "prefix cmds cmds'"
proof -
  let ?a = "unat (lastApplied r)" and ?b = "unat (lastApplied r')"
  have "?a \<le> unat (commitIndex r)" "?b \<le> unat (commitIndex r')"
    using assms(3,4) by (simp_all add: nodeCommitOk_def word_le_nat_alt)
  then have "prefixCommitted ps G A (currentTerm r) ?a (Entries (raftLog r))"
    "prefixCommitted ps G A (currentTerm r') ?b (Entries (raftLog r'))"
    using assms(3,4) by (auto simp: nodeCommitOk_def intro: prefixCommitted_le)
  from prefixCommitted_agree [OF assms(1,2) this assms(5)]
  have "take ?a (Entries (raftLog r)) = take ?a (take ?b (Entries (raftLog r')))" using assms(5) by (simp add: min_def)
  then have "cmds = take ?a cmds'" using assms(3,4) by (simp add: nodeCommitOk_def take_map)
  then show ?thesis by (simp add: take_is_prefix)
qed

text \<open>What two nodes have applied, at one moment and a later one.\<close>

lemma applied_prefix:
  assumes "peersOk ps" and "run (bootCluster ps) as c" and "run c bs c'"
    and "\<forall>a \<in> set (as @ bs). \<not> isRestart a" and "length (as @ bs) < 2 ^ 63"
    and "ownTermCommits (as @ bs) (bootCluster ps)"
  shows "prefix (applied c i) (applied c' j) \<or> prefix (applied c' j) (applied c i)"
proof -
  have own: "ownTermCommits xs x \<and> ownTermCommits ys y"
    if "ownTermCommits (xs @ ys) x" "exec xs x = Some y" for xs ys x y
    using that by (induction xs arbitrary: x) (auto split: option.splits)
  have e: "exec as (bootCluster ps) = Some c" "exec bs c = Some c'" using assms(2,3) by (simp_all add: run_exec)
  note o = own [OF assms(6) e(1)]
  obtain H G A where h: "histories ps (0 + length as) H G A c" "commitInv ps G A c"
    using exec_commits [OF e(1) _ histories_boot commitInv_boot assms(1)] o assms(4,5) by auto
  obtain H' G' A' where h': "grows G G'" "A \<subseteq> A'" "histories ps (0 + length as + length bs) H' G' A' c'" "commitInv ps G' A' c'"
    using exec_commits [OF e(2) _ h assms(1)] o assms(4,5) by auto
  have p: "promises ps H' G' A' c'" using h'(3) by (simp add: histories_def acksInv_def)
  note i = nodeCommitOk_mono [OF commitInvD(1) [OF h(2), of i] h'(1,2)] and j = commitInvD(1) [OF h'(4), of j]
  show ?thesis
    using applied_agree [OF p assms(1) i j] applied_agree [OF p assms(1) j i] by linarith
qed

text \<open>C1. State machine safety: in every run from the boot without restarts in which each move of a
  leader's commit index ends at an entry of that leader's own term, what any node has handed to its
  state machine at one moment and what any node has handed to its own at a later moment do not
  contradict each other: one sequence of commands begins with the other. (Over HTTP, for commands
  that are texts: \<open>Http_Cluster\<close>.)\<close>

theorem state_machine_safety:
  assumes "peersOk ps" and "run (bootCluster ps) as c" and "run c bs c'"
    and "\<forall>a \<in> set (as @ bs). \<not> isRestart a" and "length (as @ bs) < 2 ^ 63"
    and "ownTermCommits (as @ bs) (bootCluster ps)"
  shows "prefix (applied c i) (applied c' j) \<or> prefix (applied c' j) (applied c i)"
  by (rule applied_prefix [OF assms])

definition twoAppliedRun :: "Action list" where
  "twoAppliedRun = oneEntryRun @ [Heartbeat 0] @ replicateActions 3"

lemma two_applied_run:
  "map_option (\<lambda>c. (applied c 0, applied c 2)) (exec twoAppliedRun (bootCluster peers3))
    = Some ([setCmd ''k'' ''A''], [setCmd ''k'' ''A''])"
  "ownTermCommits twoAppliedRun (bootCluster peers3)"
  by code_simp+

lemma state_machine_safety_witness:
  "\<exists>c. exec twoAppliedRun (bootCluster peers3) = Some c \<and> applied c 0 = [setCmd ''k'' ''A'']
    \<and> (prefix (applied c 0) (applied c 2) \<or> prefix (applied c 2) (applied c 0))"
proof -
  obtain c where c: "exec twoAppliedRun (bootCluster peers3) = Some c" "applied c 0 = [setCmd ''k'' ''A'']"
    using two_applied_run(1) by auto
  have "prefix (applied c 0) (applied c 2) \<or> prefix (applied c 2) (applied c 0)"
    using two_applied_run(2)
    by (intro state_machine_safety [OF peersOk_peers3 exec_run [OF c(1)] run_Nil])
      (simp_all add: twoAppliedRun_def oneEntryRun_def electActions_def replicateActions_def)
  with c show ?thesis by blast
qed

section \<open>Replicated stores\<close>

text \<open>The store of a node, opened as \<open>s\<close> before the boot, after the commands that the node has
  handed to \<open>applyFunc\<close>.\<close>

definition replicaStore :: "Cluster \<Rightarrow> int \<Rightarrow> Store \<Rightarrow> Store option" where
  "replicaStore c i s = runApply (map (CallApply ApplyToStore) (applied c i)) s"

lemma callsOf_calls [simp]: "callsOf (map (CallApply f) cmds) = cmds"
  by (induction cmds) simp_all

lemma replicaStore_eq: "replicaStore c i s = kv.apply_all (applied c i) s"
  by (simp add: replicaStore_def runApply_eq)

text \<open>Stores agree: under the hypotheses of state machine safety, for commands that fit a log record,
  take a node at some moment and any node, the same or another, at that moment or later, that has applied at
  least as many commands, both with stores that started from the same map. Both stores have
  applied all their commands, and the second map is the first one with the additional
  commands applied; so nodes that have applied equally many commands answer every Get alike.\<close>

lemma stores_agree_local:
  assumes "peersOk ps" and "run (bootCluster ps) as c" and "run c bs c'"
    and "\<forall>a \<in> set (as @ bs). \<not> isRestart a" and "length (as @ bs) < 2 ^ 63"
    and "ownTermCommits (as @ bs) (bootCluster ps)"
    and "storeReady s0" and "storeReady t0" and "data s0 = data t0"
    and "\<forall>cmd \<in> set (applied c' j). commandFits cmd"
    and "length (applied c i) \<le> length (applied c' j)"
  shows "\<exists>s t. replicaStore c i s0 = Some s \<and> replicaStore c' j t0 = Some t
    \<and> data t = fold specCommand (drop (length (applied c i)) (applied c' j)) (data s)
    \<and> (length (applied c i) = length (applied c' j) \<longrightarrow> (\<forall>key. storeGet key s = storeGet key t))"
proof -
  obtain more where m: "applied c' j = applied c i @ more"
    using applied_prefix [OF assms(1-6), of i j] assms(11) by (auto simp: prefix_def)
  have "\<forall>cmd \<in> set (applied c i @ more). commandFits cmd" using assms(10) by (simp add: m)
  from kv.replica_ahead [OF assms(7-9) this] obtain s t where
    st: "replicaStore c i s0 = Some s" "replicaStore c' j t0 = Some t" "data t = fold specCommand more (data s)"
    unfolding replicaStore_eq m by blast
  then have "length (applied c i) = length (applied c' j) \<longrightarrow> (\<forall>key. storeGet key s = storeGet key t)"
    using m by (simp add: storeGet_def)
  with st m show ?thesis by auto
qed

end
