(* ===== verification/Http_Cluster.thy ===== *)
theory Http_Cluster
  imports Http_Transport State_Machine_Safety
begin

text \<open>
  The cluster over HTTP, as cmd/server/main.go boots it: every node is given a
  \<open>NewHTTPTransport\<close>, so an AppendEntries message passes through encoding/json before the
  handler sees it (internal/raft/http_transport.go, http_handler.go). \<open>performHTTP\<close> is
  \<open>perform\<close> with that one difference; lost requests and lost answers are actions of both. Where
  all commands of the clients are texts, the two clusters have the same runs, state by state,
  restarts and faults included. The properties of \<open>Cluster\<close>'s runs are then properties of the
  deployed cluster. For other commands they are not: \<open>http_rewrites_invalid_keys\<close>.
\<close>

section \<open>The steps over HTTP\<close>

text \<open>The handler's part of an AppendEntries call: the message arrives as JSON. The caller keeps the
  message it sent.\<close>

definition handleAppendHTTP :: "nat \<Rightarrow> Cluster \<Rightarrow> Cluster option" where
  "handleAppendHTTP k c =
    (case appendCall k c of
       Some (rp, Admitted i) \<Rightarrow>
         (case AppendEntries (jsonArgs (rpArgs rp)) (nodes c i) of (r, es, reply) \<Rightarrow>
            Some (setAppendCall k (Returned (Inr reply)) (updateNode i r es c)))
     | _ \<Rightarrow> None)"

fun performHTTP :: "Action \<Rightarrow> Cluster \<Rightarrow> Cluster option" where
  "performHTTP (HandleAppend k) c = handleAppendHTTP k c"
| "performHTTP a c = perform a c"

fun execHTTP :: "Action list \<Rightarrow> Cluster \<Rightarrow> Cluster option" where
  "execHTTP [] c = Some c"
| "execHTTP (a # as) c = (case performHTTP a c of None \<Rightarrow> None | Some c' \<Rightarrow> execHTTP as c')"

text \<open>The handler step is the one of a whole call over HTTP.\<close>

lemma handleAppendHTTP_call:
  assumes "appendCall k c = Some (rp, Admitted i)" and "servers (rpAddress rp) = Some i"
    and "\<not> IsStopped (nodes c i)" and "handleAppendHTTP k c = Some c'"
    and "HTTPAppendEntries NoFault id servers (rpAddress rp) (rpArgs rp) (nodes c) = (ns, es, got)"
  shows "nodes c' = ns \<and> applied c' i = applied c i @ callsOf es
    \<and> appendCall k c' = Some (rp\<lparr>rpCall := Returned got\<rparr>, Returned got)"
  using assms
  by (auto simp: handleAppendHTTP_def HTTPAppendEntries_def appendEntriesHandler_def answered_def appendCall_def
      setAppendCall_def updateNode_def split: prod.splits if_splits)

section \<open>Where the commands in logs and messages come from\<close>

text \<open>Every command in a log or in a message belongs to \<open>C\<close>.\<close>

definition entriesIn :: "Command set \<Rightarrow> LogEntry list \<Rightarrow> bool" where
  "entriesIn C es \<longleftrightarrow> entryCommand ` set es \<subseteq> C"

definition commandsIn :: "Command set \<Rightarrow> Cluster \<Rightarrow> bool" where
  "commandsIn C c \<longleftrightarrow> (\<forall>i. entriesIn C (Entries (raftLog (nodes c i))))
     \<and> (\<forall>rp \<in> set (replications c). entriesIn C (aeEntries (rpArgs rp)))"

fun submitted :: "Action \<Rightarrow> Command set" where
  "submitted (ClientStart i cmd) = {cmd}"
| "submitted _ = {}"

lemma mergeEntry_in:
  "entriesIn C (Entries l) \<Longrightarrow> entryCommand e \<in> C \<Longrightarrow> entriesIn C (Entries (mergeEntry e l))"
  by (auto simp: entriesIn_def mergeEntry_def TruncateFrom_def Let_def dest: in_set_takeD split: prod.splits)

lemma merge_in:
  "entriesIn C (Entries l) \<Longrightarrow> entriesIn C es \<Longrightarrow> entriesIn C (Entries (fold mergeEntry es l))"
  by (induction es arbitrary: l) (simp_all add: entriesIn_def mergeEntry_in [unfolded entriesIn_def])

lemma AppendEntries_in:
  "entriesIn C (Entries (raftLog r)) \<Longrightarrow> entriesIn C (aeEntries args) \<Longrightarrow>
    entriesIn C (Entries (raftLog (fst (AppendEntries args r))))"
  by (cases rule: AppendEntries_cases [of args r]) (auto simp: installed_def merge_in)

lemma heartbeatArgs_in: "entriesIn C (Entries (raftLog r)) \<Longrightarrow> entriesIn C (aeEntries (heartbeatArgs r p))"
  by (auto simp: entriesIn_def heartbeatArgs_def EntriesFrom_def Let_def dest: in_set_dropD)

lemma Start_in:
  "entriesIn C (Entries (raftLog r)) \<Longrightarrow> cmd \<in> C \<Longrightarrow> entriesIn C (Entries (raftLog (fst (Start cmd r))))"
  by (auto simp: entriesIn_def Start_def logAppend_def Let_def split: prod.splits)

lemma voteReply_raftLog: "raftLog (fst (voteReply args p result votes r)) = raftLog r"
  by (cases rule: voteReply_cases [of args p result votes r]) auto

lemma commandsIn_updateNode:
  "commandsIn C c \<Longrightarrow> entriesIn C (Entries (raftLog r)) \<Longrightarrow> commandsIn C (updateNode i r es c)"
  by (simp add: commandsIn_def updateNode_def)

lemma commandsIn_still:
  "commandsIn C c \<Longrightarrow> raftLog r = raftLog (nodes c i) \<Longrightarrow> commandsIn C (updateNode i r es c)"
  by (simp add: commandsIn_def updateNode_def)

lemma commandsIn_same:
  "commandsIn C c \<Longrightarrow> nodes c' = nodes c \<Longrightarrow> replications c' = replications c \<Longrightarrow> commandsIn C c'"
  by (simp add: commandsIn_def)

lemma commandsIn_setVoteCall: "commandsIn C c \<Longrightarrow> commandsIn C (setVoteCall e j s c)"
  by (rule commandsIn_same) (simp_all add: setVoteCall_def Let_def)

lemma commandsIn_setAppendCall: "commandsIn C c \<Longrightarrow> commandsIn C (setAppendCall k s c)"
proof (cases "k < length (replications c)")
  case True
  assume "commandsIn C c"
  with True show ?thesis
    by (auto simp: commandsIn_def setAppendCall_def dest!: subsetD [OF set_update_subset_insert])
qed (simp add: setAppendCall_def commandsIn_def list_update_beyond not_less)

text \<open>What an action brings in is what a client submits with it.\<close>

lemma perform_commandsIn:
  assumes "commandsIn C c" and "perform a c = Some c'" and "submitted a \<subseteq> C"
  shows "commandsIn C c'"
proof -
  have node: "entriesIn C (Entries (raftLog (nodes c i)))" for i using assms(1) by (simp add: commandsIn_def)
  show ?thesis
  proof (cases a)
    case (TimerFires i)
    have "commandsIn C (updateNode i (fst (timerFired (nodes c i))) [] c)"
      by (rule commandsIn_still [OF assms(1)]) (simp add: timerFired_def)
    then show ?thesis using assms(2) TimerFires
      by (auto simp: timerFires_def elim!: commandsIn_same split: if_splits prod.splits)
  next
    case (BeginElection i)
    have "commandsIn C (updateNode i (fst (startElection (nodes c i))) (snd (startElection (nodes c i))) c)"
      by (rule commandsIn_still [OF assms(1)]) (simp add: startElection_moved)
    then show ?thesis using assms(2) BeginElection
      by (auto simp: beginElection_def elim!: commandsIn_same split: if_splits prod.splits)
  next
    case (AdmitVote e j)
    then show ?thesis using assms(2) commandsIn_setVoteCall [OF assms(1)]
      by (auto simp: admitVote_def split: option.splits prod.splits Call.splits)
  next
    case (HandleVote e j)
    then obtain el p x i r reply where "voteCall e j c = Some (el, p, x, Admitted i)" and rv: "RequestVote (elArgs el) (nodes c i) = (r, reply)"
      and c': "c' = setVoteCall e j (Returned (Inr reply)) (updateNode i r [] c)"
      using assms(2) by (auto simp: handleVote_def split: option.splits prod.splits Call.splits)
    have "raftLog r = raftLog (nodes c i)"
      using RequestVote_still [of "nodes c i" "elArgs el"] rv by (simp add: logStill_def)
    then show ?thesis unfolding c' by (intro commandsIn_setVoteCall commandsIn_still [OF assms(1)])
  next
    case (LoseVote e j)
    then show ?thesis using assms(2) commandsIn_setVoteCall [OF assms(1)]
      by (auto simp: loseVote_def split: option.splits prod.splits if_splits)
  next
    case (FinishVote e j)
    obtain el p x result r votes es where "voteCall e j c = Some (el, p, x, Returned result)"
      and v: "voteReply (elArgs el) p result (elVotes el) (nodes c (elCandidate el)) = (r, votes, es)"
      and c': "nodes c' = nodes (setVoteCall e j Finished (updateNode (elCandidate el) r es c))"
        "replications c' = replications (setVoteCall e j Finished (updateNode (elCandidate el) r es c))"
      using assms(2) FinishVote by (auto simp: finishVote_def Let_def split: option.splits prod.splits Call.splits)
    have "raftLog r = raftLog (nodes c (elCandidate el))" using voteReply_raftLog [of "elArgs el" p result "elVotes el" "nodes c (elCandidate el)"] v by simp
    then show ?thesis
      by (intro commandsIn_same [OF commandsIn_setVoteCall [OF commandsIn_still [OF assms(1)]] c'])
  next
    case (Heartbeat i)
    have "entriesIn C (aeEntries (rpArgs rp))" if "rp \<in> set (appendCallsOf i (sendHeartbeats (nodes c i)))" for rp
      using that heartbeatArgs_in [OF node] by (auto simp: appendCallsOf_sendHeartbeats split: if_splits)
    then show ?thesis using assms(1,2) Heartbeat by (auto simp: commandsIn_def heartbeat_def split: if_splits)
  next
    case (AdmitAppend k)
    then show ?thesis using assms(2) commandsIn_setAppendCall [OF assms(1)]
      by (auto simp: admitAppend_def split: option.splits prod.splits Call.splits)
  next
    case (HandleAppend k)
    then have "handleAppend k c = Some c'" using assms(2) by simp
    then show ?thesis
    proof (cases rule: handleAppend_cases)
      case (1 rp i r es reply)
      have "entriesIn C (aeEntries (rpArgs rp))"
        using assms(1) appendCall_SomeD(4) [OF 1(1)] by (simp add: commandsIn_def)
      then have "entriesIn C (Entries (raftLog r))"
        using AppendEntries_in [OF node, of "rpArgs rp" i] 1(2) by simp
      then show ?thesis
        unfolding 1(3) by (intro commandsIn_setAppendCall commandsIn_updateNode [OF assms(1)])
    qed
  next
    case (LoseAppend k)
    then show ?thesis using assms(2) commandsIn_setAppendCall [OF assms(1)]
      by (auto simp: loseAppend_def split: option.splits prod.splits if_splits)
  next
    case (FinishAppend k)
    then have "finishAppend k c = Some c'" using assms(2) by simp
    then show ?thesis
    proof (cases rule: finishAppend_cases)
      case (1 rp result r es)
      have "raftLog r = raftLog (nodes c (rpLeader rp))"
        using appendReply_log [of "rpArgs rp" "rpPeer rp" result "nodes c (rpLeader rp)"] 1(2) by simp
      then show ?thesis
        unfolding 1(3) by (intro commandsIn_setAppendCall commandsIn_still [OF assms(1)])
    qed
  next
    case (ClientStart i cmd)
    then have "entriesIn C (Entries (raftLog (fst (Start cmd (nodes c i)))))"
      using assms(3) Start_in [OF node] by simp
    then show ?thesis using assms(2) ClientStart commandsIn_updateNode [OF assms(1)]
      by (auto simp: clientStart_def split: if_splits prod.splits)
  next
    case (StopNode i)
    then show ?thesis using assms(2) commandsIn_still [OF assms(1)]
      by (auto simp: stopNode_def Stop_def Let_def split: if_splits prod.splits)
  next
    case (RestartNode i)
    then show ?thesis using assms(2) commandsIn_still [OF assms(1)]
      by (auto simp: restartNode_def Restart_def Let_def split: if_splits prod.splits)
  qed
qed

section \<open>The same runs\<close>

abbreviation texts :: "Command set" where
  "texts \<equiv> {cmd. commandText cmd}"

lemma performHTTP_texts: "commandsIn texts c \<Longrightarrow> performHTTP a c = perform a c"
proof (cases a)
  case (HandleAppend k)
  assume "commandsIn texts c"
  then have "jsonArgs (rpArgs rp) = rpArgs rp" if "appendCall k c = Some (rp, s)" for rp s
    using appendCall_SomeD(4) [OF that]
    by (intro jsonArgs_text) (auto simp: commandsIn_def entriesIn_def image_subset_iff)
  then show ?thesis using HandleAppend
    by (auto simp: handleAppendHTTP_def handleAppend_def split: option.splits prod.splits Call.splits)
qed simp_all

lemma execHTTP_texts:
  "commandsIn texts c \<Longrightarrow> (\<Union>a \<in> set as. submitted a) \<subseteq> texts \<Longrightarrow>
    execHTTP as c = exec as c \<and> (\<forall>c'. exec as c = Some c' \<longrightarrow> commandsIn texts c')"
proof (induction as arbitrary: c)
  case (Cons a as)
  have "commandsIn texts c1" if "perform a c = Some c1" for c1
    by (rule perform_commandsIn [OF Cons.prems(1) that]) (use Cons.prems(2) in auto)
  with Cons show ?case by (auto simp: performHTTP_texts [OF Cons.prems(1)] split: option.splits)
qed simp

lemma commandsIn_boot: "commandsIn C (bootCluster ps)"
  by (simp add: commandsIn_def entriesIn_def bootCluster_def bootNode_def NewRaftNode_def SetApplyFunc_def
      SetTransport_def SetPeers_def SetEventBus_def)

text \<open>The deployed cluster and the cluster of \<open>Cluster\<close> do the same, action by action, when the
  clients submit texts only.\<close>

lemma http_exec_texts:
  "(\<Union>a \<in> set as. submitted a) \<subseteq> texts \<Longrightarrow> execHTTP as (bootCluster ps) = exec as (bootCluster ps)"
  by (rule conjunct1 [OF execHTTP_texts [OF commandsIn_boot]])

text \<open>The test of state machine safety, on the steps over HTTP.\<close>

fun ownTermCommitsHTTP :: "Action list \<Rightarrow> Cluster \<Rightarrow> bool" where
  "ownTermCommitsHTTP [] c = True"
| "ownTermCommitsHTTP (a # as) c =
    (case performHTTP a c of None \<Rightarrow> False | Some c' \<Rightarrow> commitsOwnTerm c c' \<and> ownTermCommitsHTTP as c')"

lemma ownTermCommitsHTTP_texts:
  "commandsIn texts c \<Longrightarrow> (\<Union>a \<in> set as. submitted a) \<subseteq> texts \<Longrightarrow>
    ownTermCommitsHTTP as c = ownTermCommits as c"
proof (induction as arbitrary: c)
  case (Cons a as)
  have "commandsIn texts c1" if "perform a c = Some c1" for c1
    by (rule perform_commandsIn [OF Cons.prems(1) that]) (use Cons.prems(2) in auto)
  with Cons show ?case by (auto simp: performHTTP_texts [OF Cons.prems(1)] split: option.splits)
qed simp

section \<open>Replicated stores\<close>

text \<open>C2. Stores agree, in the cluster as it is deployed, over HTTP. Take a run from the boot without
  restarts in which the clients submit texts only and each move of a leader's commit index ends
  at an entry of that leader's own term; a node at some moment, and any node, the same or
  another, at that moment or later, that has applied at least as many commands; and stores that
  were ready and held the same map at the boot, the commands fitting a log record. Both stores
  have applied all their commands, and the second map is the first one with the additional
  commands applied; so nodes that have applied equally many commands answer every Get alike.\<close>

theorem stores_agree:
  assumes "peersOk ps" and "execHTTP as (bootCluster ps) = Some c" and "execHTTP bs c = Some c'"
    and "\<forall>a \<in> set (as @ bs). \<not> isRestart a" and "length (as @ bs) < 2 ^ 63"
    and "\<forall>i cmd. ClientStart i cmd \<in> set (as @ bs) \<longrightarrow> commandText cmd"
    and "ownTermCommitsHTTP (as @ bs) (bootCluster ps)"
    and "storeReady s0" and "storeReady t0" and "data s0 = data t0"
    and "\<forall>cmd \<in> set (applied c' j). commandFits cmd"
    and "length (applied c i) \<le> length (applied c' j)"
  shows "\<exists>s t. replicaStore c i s0 = Some s \<and> replicaStore c' j t0 = Some t
    \<and> data t = fold specCommand (drop (length (applied c i)) (applied c' j)) (data s)
    \<and> (length (applied c i) = length (applied c' j) \<longrightarrow> (\<forall>key. storeGet key s = storeGet key t))"
proof -
  have sub: "cmd \<in> texts" if "a \<in> set (as @ bs)" "cmd \<in> submitted a" for a cmd
    using assms(6) that by (cases a) auto
  then have t: "(\<Union>a \<in> set as. submitted a) \<subseteq> texts" "(\<Union>a \<in> set bs. submitted a) \<subseteq> texts"
    "(\<Union>a \<in> set (as @ bs). submitted a) \<subseteq> texts" by auto
  note e = execHTTP_texts [OF commandsIn_boot t(1), of ps]
  have c: "exec as (bootCluster ps) = Some c" "commandsIn texts c" using e assms(2) by auto
  have c': "exec bs c = Some c'" using execHTTP_texts [OF c(2) t(2)] assms(3) by simp
  have own: "ownTermCommits (as @ bs) (bootCluster ps)"
    using assms(7) by (simp only: ownTermCommitsHTTP_texts [OF commandsIn_boot t(3)])
  show ?thesis
    by (rule stores_agree_local [OF assms(1) exec_run [OF c(1)] exec_run [OF c'] assms(4,5) own assms(8-12)])
qed

lemma two_applied_run_HTTP:
  "map_option (\<lambda>c. (applied c 0, applied c 2)) (execHTTP twoAppliedRun (bootCluster peers3))
    = Some ([setCmd ''k'' ''A''], [setCmd ''k'' ''A''])"
  "ownTermCommitsHTTP twoAppliedRun (bootCluster peers3)"
  by code_simp+

lemma stores_agree_witness:
  "\<exists>c s t. execHTTP twoAppliedRun (bootCluster peers3) = Some c \<and> replicaStore c 0 emptyStore = Some s
    \<and> replicaStore c 2 emptyStore = Some t \<and> storeGet ''k'' s = storeGet ''k'' t"
proof -
  obtain c where c: "execHTTP twoAppliedRun (bootCluster peers3) = Some c" "applied c 0 = [setCmd ''k'' ''A'']"
    "applied c 2 = [setCmd ''k'' ''A'']" using two_applied_run_HTTP(1) by auto
  have valid: "commandText (setCmd ''k'' ''A'')" by code_simp
  have "\<exists>s t. replicaStore c 0 emptyStore = Some s \<and> replicaStore c 2 emptyStore = Some t
    \<and> data t = fold specCommand (drop (length (applied c 0)) (applied c 2)) (data s)
    \<and> (length (applied c 0) = length (applied c 2) \<longrightarrow> (\<forall>key. storeGet key s = storeGet key t))"
    using two_applied_run_HTTP(2) c(2,3) valid
    by (intro stores_agree [where bs = "[]", OF peersOk_peers3 c(1)])
      (auto simp: twoAppliedRun_def oneEntryRun_def electActions_def replicateActions_def commandFits_def setCmd_def)
  with c show ?thesis by auto
qed

end
