(* ===== verification/Leaderless.thy ===== *)
theory Leaderless
  imports Election_Safety
begin

text \<open>
  A cluster that stays without a leader although a majority runs and every message may arrive. The
  election timer of a leader that fires is not armed again (\<open>runElectionTimer\<close>, the \<open>continue\<close>
  in append_entries.go), and neither stepping down nor refusing a vote arms it. With one of three
  nodes stopped, the old leader that has stepped down never stands again, and the third node,
  whose log is shorter, never gets its vote.
\<close>

section \<open>The stuck states\<close>

text \<open>Elections that nobody can win: by node 0, which is no candidate any more, and by node 2, which
  only node 0 answers. Node 1 is stopped, so no call reaches it.\<close>

fun callLost :: "int \<Rightarrow> int \<times> string \<times> RequestVoteReply Call \<Rightarrow> bool" where
  "callLost cand (p, a, Admitted i) \<longleftrightarrow> (p, a) \<in> set peers3 \<and> p \<noteq> cand \<and> i = p \<and> p \<noteq> 1"
| "callLost cand (p, a, Returned (Inr reply)) \<longleftrightarrow>
    (p, a) \<in> set peers3 \<and> p \<noteq> cand \<and> (cand = 2 \<longrightarrow> \<not> rvrVoteGranted reply)"
| "callLost cand (p, a, s) \<longleftrightarrow> (p, a) \<in> set peers3 \<and> p \<noteq> cand"

definition electionLost :: "Election \<Rightarrow> bool" where
  "electionLost el \<longleftrightarrow> list_all (callLost (elCandidate el)) (elCalls el)
     \<and> (elCandidate el = 0 \<or> elCandidate el = 2 \<and> rvLastLogIndex (elArgs el) = 0 \<and> rvLastLogTerm (elArgs el) = 0)"

definition leaderless :: "Cluster \<Rightarrow> bool" where
  "leaderless c \<longleftrightarrow> members c = [0, 1, 2] \<and> replications c = [] \<and> list_all (\<lambda>i. i = 2) (firing c)
     \<and> list_all (\<lambda>(p, a). endpoints (localTransport c) a = Some p) peers3
     \<and> state (nodes c 0) = Follower \<and> \<not> timerArmed (nodes c 0) \<and> \<not> isCandidateLogUpToDate 0 0 (nodes c 0)
     \<and> state (nodes c 1) = Follower \<and> \<not> timerArmed (nodes c 1) \<and> IsStopped (nodes c 1)
     \<and> state (nodes c 2) \<noteq> Leader \<and> Entries (raftLog (nodes c 2)) = []
     \<and> nodeId (nodes c 2) = 2 \<and> peers (nodes c 2) = peers3
     \<and> list_all electionLost (elections c)"

lemma leaderlessD:
  assumes "leaderless c"
  shows "members c = [0, 1, 2]" and "replications c = []" and "i \<in> set (firing c) \<Longrightarrow> i = 2"
    and "(p, a) \<in> set peers3 \<Longrightarrow> endpoints (localTransport c) a = Some p"
    and "state (nodes c 0) = Follower" and "\<not> timerArmed (nodes c 0)"
    and "\<not> isCandidateLogUpToDate 0 0 (nodes c 0)"
    and "state (nodes c 1) = Follower" and "\<not> timerArmed (nodes c 1)" and "IsStopped (nodes c 1)"
    and "state (nodes c 2) \<noteq> Leader" and "Entries (raftLog (nodes c 2)) = []"
    and "nodeId (nodes c 2) = 2" and "peers (nodes c 2) = peers3"
    and "el \<in> set (elections c) \<Longrightarrow> electionLost el"
  using assms by (auto simp: leaderless_def list_all_iff)

lemma leaderless_no_leader: "leaderless c \<Longrightarrow> i \<in> set (members c) \<Longrightarrow> state (nodes c i) \<noteq> Leader"
  by (auto simp: leaderless_def)

section \<open>They are never left\<close>

text \<open>What may happen to a node of such a state, by its number.\<close>

definition stuckMove :: "int \<Rightarrow> RaftNode \<Rightarrow> RaftNode \<Rightarrow> bool" where
  "stuckMove i r r' \<longleftrightarrow> raftLog r' = raftLog r \<and> nodeId r' = nodeId r \<and> peers r' = peers r
     \<and> (if i = 2 then state r' \<noteq> Leader
        else state r' = Follower \<and> \<not> timerArmed r' \<and> (stopClosed r \<longrightarrow> stopClosed r'))"

lemma leaderless_move:
  assumes "leaderless c" and "i = 0 \<or> i = 2" and "stuckMove i (nodes c i) r"
  shows "leaderless (updateNode i r es c)"
  using assms isCandidateLogUpToDate_log [of r "nodes c 0"]
  by (auto simp: leaderless_def stuckMove_def)

lemma leaderless_setVoteCall:
  assumes "leaderless c" and "voteCall e j c = Some (el, p, a, s0)" and "callLost (elCandidate el) (p, a, s)"
  shows "leaderless (setVoteCall e j s c)"
proof -
  note v = voteCall_SomeD [OF assms(2)]
  have el: "electionLost el" by (rule leaderlessD(15) [OF assms(1) v(1)])
  have "electionLost (el\<lparr>elCalls := (elCalls el)[j := (p, a, s)]\<rparr>)"
    using el assms(3) set_update_subset_insert [of "elCalls el" j "(p, a, s)"]
    by (auto simp: electionLost_def list_all_iff)
  then have "\<forall>x \<in> set ((elections c)[e := el\<lparr>elCalls := (elCalls el)[j := (p, a, s)]\<rparr>]). electionLost x"
    using leaderlessD(15) [OF assms(1)] set_update_subset_insert by fastforce
  with assms(1) v show ?thesis by (simp add: leaderless_def setVoteCall_def Let_def list_all_iff)
qed

lemma leaderless_call:
  assumes "leaderless c" and "i = 0 \<or> i = 2" and "stuckMove i (nodes c i) r"
    and "voteCall e j c = Some (el, p, a, s0)" and "callLost (elCandidate el) (p, a, s)"
  shows "leaderless (setVoteCall e j s (updateNode i r es c))"
  by (rule leaderless_setVoteCall [OF leaderless_move [OF assms(1-3)] _ assms(5)]) (simp add: assms(4))

lemma leaderless_votes:
  assumes "leaderless c"
  shows "leaderless (c\<lparr>elections := (elections c)[e := (elections c ! e)\<lparr>elVotes := n\<rparr>]\<rparr>)"
proof (cases "e < length (elections c)")
  case True
  then have "electionLost ((elections c ! e)\<lparr>elVotes := n\<rparr>)"
    using leaderlessD(15) [OF assms nth_mem [OF True]] by (simp add: electionLost_def)
  then have "\<forall>x \<in> set ((elections c)[e := (elections c ! e)\<lparr>elVotes := n\<rparr>]). electionLost x"
    using leaderlessD(15) [OF assms] set_update_subset_insert by fastforce
  with assms show ?thesis by (simp add: leaderless_def list_all_iff)
next
  case False
  then show ?thesis using assms by (simp add: list_update_beyond)
qed

lemma callLost_voteCall:
  assumes "leaderless c" and "voteCall e j c = Some (el, p, a, s)"
  shows "callLost (elCandidate el) (p, a, s)" and "electionLost el" and "elCandidate el = 0 \<or> elCandidate el = 2"
    and "(p, a) \<in> set peers3" and "p \<noteq> elCandidate el"
proof -
  note v = voteCall_SomeD [OF assms(2)]
  show el: "electionLost el" by (rule leaderlessD(15) [OF assms(1) v(1)])
  then show c: "callLost (elCandidate el) (p, a, s)" "elCandidate el = 0 \<or> elCandidate el = 2"
    using v(6) by (auto simp: electionLost_def list_all_iff)
  show "(p, a) \<in> set peers3" "p \<noteq> elCandidate el"
    using c(1) by (cases "(elCandidate el, p, a, s)" rule: callLost.cases; simp)+
qed

lemma admitVote_leaderless:
  assumes "leaderless c" and "admitVote e j c = Some c'"
  shows "leaderless c'"
proof -
  obtain el p a where v: "voteCall e j c = Some (el, p, a, Sent)"
    and c': "c' = setVoteCall e j (admitCall (localTransport c) (nodes c) a) c"
    using assms(2) by (auto simp: admitVote_def split: option.splits prod.splits Call.splits)
  note call = callLost_voteCall [OF assms(1) v]
  have "callLost (elCandidate el) (p, a, admitCall (localTransport c) (nodes c) a)"
    using call(4,5) leaderlessD(4) [OF assms(1) call(4)] leaderlessD(10) [OF assms(1)]
    by (auto simp: admitCall_def admit_def)
  then show ?thesis unfolding c' by (rule leaderless_setVoteCall [OF assms(1) v])
qed

lemma handleVote_leaderless:
  assumes "leaderless c" and "handleVote e j c = Some c'"
  shows "leaderless c'"
proof -
  obtain el p a i where v: "voteCall e j c = Some (el, p, a, Admitted i)"
    and c': "c' = setVoteCall e j (Returned (Inr (snd (RequestVote (elArgs el) (nodes c i)))))
      (updateNode i (fst (RequestVote (elArgs el) (nodes c i))) [] c)"
    using assms(2) by (auto simp: handleVote_def split: option.splits prod.splits Call.splits)
  note call = callLost_voteCall [OF assms(1) v]
  let ?rv = "RequestVote (elArgs el) (nodes c i)"
  have i: "i = p" "i = 0 \<or> i = 2" using call(1,4) by (auto simp: peers3_def)
  have "stuckMove i (nodes c i) (fst ?rv) \<and> (elCandidate el = 2 \<longrightarrow> \<not> rvrVoteGranted (snd ?rv))"
  proof (cases "i = 0")
    case True
    then have "rvLastLogIndex (elArgs el) = 0" "rvLastLogTerm (elArgs el) = 0" "elCandidate el = 2"
      using call(2,3,5) i(1) by (auto simp: electionLost_def)
    then have no: "\<not> isCandidateLogUpToDate (rvLastLogIndex (elArgs el)) (rvLastLogTerm (elArgs el)) (nodes c 0)"
      using leaderlessD(7) [OF assms(1)] by simp
    show ?thesis
    proof (cases rule: RequestVote_cases [of "elArgs el" "nodes c i"])
      case old
      then show ?thesis using True leaderlessD(5,6) [OF assms(1)] by (simp add: stuckMove_def)
    next
      case (seen r1)
      have "isCandidateLogUpToDate x y r1 = isCandidateLogUpToDate x y (nodes c 0)" for x y
        using seen(2) True by (intro isCandidateLogUpToDate_log) simp
      then have "?rv = (r1, \<lparr>rvrTerm = currentTerm r1, rvrVoteGranted = False\<rparr>)" using seen(3) no by simp
      then show ?thesis using seen(2) True leaderlessD(5,6) [OF assms(1)] by (simp add: stuckMove_def)
    qed
  next
    case False
    then have "i = 2" "elCandidate el = 0" using i call(3,5) by auto
    then show ?thesis using leaderlessD(11) [OF assms(1)]
      by (cases rule: RequestVote_cases [of "elArgs el" "nodes c i"]) (auto simp: stuckMove_def resetElectionTimer_def)
  qed
  then have mv: "stuckMove i (nodes c i) (fst ?rv)" and no: "elCandidate el = 2 \<longrightarrow> \<not> rvrVoteGranted (snd ?rv)"
    by blast+
  show ?thesis
    unfolding c' by (rule leaderless_call [OF assms(1) i(2) mv v]) (simp add: call(4,5) no)
qed

lemma finishVote_leaderless:
  assumes "leaderless c" and "finishVote e j c = Some c'"
  shows "leaderless c'"
proof -
  obtain el p a result r votes es where v: "voteCall e j c = Some (el, p, a, Returned result)"
    and vr: "voteReply (elArgs el) p result (elVotes el) (nodes c (elCandidate el)) = (r, votes, es)"
    and c': "c' = (let c1 = setVoteCall e j Finished (updateNode (elCandidate el) r es c)
      in c1\<lparr>elections := (elections c1)[e := (elections c1 ! e)\<lparr>elVotes := votes\<rparr>]\<rparr>)"
    using assms(2)
    by (auto simp: finishVote_def Let_def split: option.splits prod.splits Call.splits)
  note call = callLost_voteCall [OF assms(1) v]
  have "stuckMove (elCandidate el) (nodes c (elCandidate el)) r"
  proof (cases "elCandidate el = 0")
    case True
    then have "r = nodes c 0" using vr leaderlessD(5) [OF assms(1)] by (auto simp: voteReply_def split: sum.splits)
    then show ?thesis using True leaderlessD(5,6) [OF assms(1)] by (simp add: stuckMove_def)
  next
    case False
    then have two: "elCandidate el = 2" using call(3) by simp
    then have no: "\<not> rvrVoteGranted reply" if "result = Inr reply" for reply using call(1) that by simp
    show ?thesis
    proof (cases rule: voteReply_cases [of "elArgs el" p result "elVotes el" "nodes c (elCandidate el)"])
      case stay
      then show ?thesis using vr two leaderlessD(11) [OF assms(1)] by (simp add: stuckMove_def)
    next
      case (down reply es)
      then show ?thesis using vr two by (auto simp: stuckMove_def)
    qed (use no in auto)
  qed
  note mv = this
  have "leaderless (setVoteCall e j Finished (updateNode (elCandidate el) r es c))"
    by (rule leaderless_call [OF assms(1) call(3) mv v]) (simp add: call(4,5))
  then show ?thesis unfolding c' Let_def by (rule leaderless_votes)
qed

lemma perform_leaderless:
  assumes "leaderless c" and "perform a c = Some c'" and "\<not> isRestart a"
  shows "leaderless c'"
proof (cases a)
  case (TimerFires i)
  then have t: "timerFires i c = Some c'" and "i \<in> {0, 1, 2}"
    using assms(2) leaderlessD(1) [OF assms(1)] by (auto split: if_splits)
  moreover from t have "timerArmed (nodes c i)" by (simp add: timerFires_def split: if_splits)
  moreover define fs where "fs = (if snd (timerFired (nodes c i)) then firing c @ [i] else firing c)"
  with t have fs: "c' = (updateNode i (fst (timerFired (nodes c i))) [] c)\<lparr>firing := fs\<rparr>"
      "set fs \<subseteq> insert i (set (firing c))"
    by (auto simp: timerFires_def case_prod_unfold split: if_splits)
  ultimately have two: "i = 2" using leaderlessD(6,9) [OF assms(1)] by auto
  then have "leaderless (updateNode i (fst (timerFired (nodes c i))) [] c)"
    using leaderlessD(11) [OF assms(1)] by (intro leaderless_move [OF assms(1)]) (auto simp: stuckMove_def timerFired_def)
  with fs two leaderlessD(3) [OF assms(1)] show ?thesis by (auto simp: leaderless_def list_all_iff)
next
  case (BeginElection i)
  let ?se = "startElection (nodes c 2)"
  have i: "i = 2" and c': "c' = (updateNode 2 (fst ?se) (snd ?se) c)\<lparr>firing := remove1 2 (firing c),
      elections := elections c @ [\<lparr>elCandidate = 2, elArgs = electionArgs (fst ?se),
        elVotes = initialVotes, elCalls = voteCallsOf (snd ?se)\<rparr>]\<rparr>"
    using assms(2) BeginElection leaderlessD(3) [OF assms(1)]
    by (auto simp: beginElection_def split: if_splits prod.splits)
  note two = leaderlessD(12-14) [OF assms(1)]
  have "leaderless (updateNode 2 (fst ?se) (snd ?se) c)"
    by (rule leaderless_move [OF assms(1)]) (simp_all add: stuckMove_def startElection_moved)
  moreover have "electionLost \<lparr>elCandidate = 2, elArgs = electionArgs (fst ?se),
      elVotes = initialVotes, elCalls = voteCallsOf (snd ?se)\<rparr>"
    using two by (simp add: electionLost_def voteCallsOf_startElection electionArgs_def startElection_moved
        LastIndex_def peers3_def)
  ultimately show ?thesis
    using notin_set_remove1 by (auto simp: leaderless_def c' list_all_iff dest: in_set_remove1 [THEN iffD1, rotated])
next
  case (AdmitVote e j)
  then show ?thesis using assms admitVote_leaderless by simp
next
  case (HandleVote e j)
  then show ?thesis using assms handleVote_leaderless by simp
next
  case (LoseVote e j)
  then obtain el p a s where v: "voteCall e j c = Some (el, p, a, s)"
    and c': "c' = setVoteCall e j (Returned (Inl (Errorf ''no answer''))) c"
    using assms(2) by (auto simp: loseVote_def split: option.splits prod.splits if_splits)
  show ?thesis
    unfolding c' using callLost_voteCall(4,5) [OF assms(1) v] by (intro leaderless_setVoteCall [OF assms(1) v]) simp
next
  case (FinishVote e j)
  then show ?thesis using assms finishVote_leaderless by simp
next
  case (Heartbeat i)
  then have "c' = heartbeat i c" "i \<in> set (members c)" using assms(2) by (auto split: if_splits)
  then show ?thesis
    using leaderless_no_leader [OF assms(1)] assms(1)
    by (simp add: heartbeat_def sendHeartbeats_def leaderless_def)
next
  case (ClientStart i cmd)
  then have "c' = clientStart i cmd c" "i \<in> set (members c)" using assms(2) by (auto split: if_splits)
  moreover from this have "nodes (clientStart i cmd c) = nodes c"
    using leaderless_no_leader [OF assms(1)] by (simp add: clientStart_def Start_def)
  ultimately show ?thesis
    using assms(1) by (simp add: leaderless_def clientStart_def case_prod_unfold)
next
  case (StopNode i)
  then have c': "c' = stopNode i c" "i \<in> {0, 1, 2}"
    using assms(2) leaderlessD(1) [OF assms(1)] by (auto split: if_splits)
  then show ?thesis using assms(1) isCandidateLogUpToDate_log [of "fst (Stop (nodes c i))" "nodes c 0"]
    by (auto simp: leaderless_def stopNode_def Stop_def IsStopped_def Let_def case_prod_unfold)
next
  case (RestartNode i)
  then show ?thesis using assms(3) by simp
qed (use assms(2) leaderlessD(2) [OF assms(1)] in
    \<open>simp_all add: admitAppend_def handleAppend_def loseAppend_def finishAppend_def appendCall_def\<close>)

lemma run_leaderless:
  "run c as c' \<Longrightarrow> leaderless c \<Longrightarrow> \<forall>a \<in> set as. \<not> isRestart a \<Longrightarrow> leaderless c'"
  by (induction rule: run.induct) (auto intro: perform_leaderless)

section \<open>One is reachable\<close>

text \<open>Node 0 leads and takes a command; its timer fires while it leads; node 1 is stopped; node 2
  times out before a heartbeat reaches it and asks node 0, which steps down and refuses.\<close>

definition leaderlessRun :: "Action list" where
  "leaderlessRun = electActions 0 0 @ [ClientStart 0 (setCmd ''k'' ''A''), TimerFires 0, StopNode 1,
     TimerFires 2, BeginElection 2, AdmitVote 1 0, HandleVote 1 0]"

lemma leaderless_run:
  "map_option (\<lambda>c. (leaderless c, IsStopped (nodes c 0), IsStopped (nodes c 2))) (exec leaderlessRun (bootCluster peers3))
    = Some (True, False, False)"
  by code_simp

text \<open>C38. A cluster can lose its leader for good with a majority running and nothing lost: there is
  a run of three nodes, with one stop and no restart, after which no run whatever without a restart
  (every message delivered, every timer firing) makes any node leader, although two of the
  three nodes are not stopped. No write is accepted any more.\<close>

theorem leaderless_for_good:
  "\<exists>as c. run (bootCluster peers3) as c \<and> filter isRestart as = []
     \<and> \<not> IsStopped (nodes c 0) \<and> \<not> IsStopped (nodes c 2)
     \<and> \<not> (\<exists>bs c' i. run c bs c' \<and> filter isRestart bs = [] \<and> i \<in> set (members c')
          \<and> state (nodes c' i) = Leader)"
proof -
  obtain c where c: "exec leaderlessRun (bootCluster peers3) = Some c" "leaderless c"
    "\<not> IsStopped (nodes c 0)" "\<not> IsStopped (nodes c 2)"
    using leaderless_run by auto
  then have "\<not> (\<exists>bs c' i. run c bs c' \<and> filter isRestart bs = [] \<and> i \<in> set (members c')
      \<and> state (nodes c' i) = Leader)"
    using run_leaderless leaderless_no_leader by (fastforce simp: filter_empty_conv)
  then show ?thesis
    using exec_run [OF c(1)] c(3,4)
    by (intro exI [of _ leaderlessRun] exI [of _ c]) (simp add: leaderlessRun_def electActions_def)
qed

end
