(* ===== verification/Raft_Transport.thy ===== *)
theory Raft_Transport
  imports Http_Transport
begin

text \<open>
  The interface \<open>Transport\<close> (internal/raft/transport.go) as a locale: what a call of AppendEntries
  does to the nodes and answers, with and without a fault. The client is the goroutine of
  \<open>sendHeartbeats\<close> that calls the transport and takes the answer; its lemma is that the leader's
  log gets through under any faults, once enough calls are clean. The locale is interpreted on
  both transports of the code.
\<close>

section \<open>One call and its answer\<close>

type_synonym AppendCall =
  "string \<Rightarrow> AppendEntriesArgs \<Rightarrow> (int \<Rightarrow> RaftNode) \<Rightarrow> (int \<Rightarrow> RaftNode) \<times> Effect list \<times> (error + AppendEntriesReply)"

text \<open>The goroutine of node \<open>i\<close> for its peer \<open>p\<close> at \<open>a\<close>, with nothing else in between.\<close>

definition exchange :: "AppendCall \<Rightarrow> int \<Rightarrow> int \<Rightarrow> string \<Rightarrow> (int \<Rightarrow> RaftNode) \<Rightarrow> int \<Rightarrow> RaftNode" where
  "exchange call i p a ns =
    (let args = heartbeatArgs (ns i) p
     in case call a args ns of (ns1, es, result) \<Rightarrow> ns1(i := fst (appendReply args p result (ns1 i))))"

locale transport_laws =
  fixes call :: "'f \<Rightarrow> AppendCall"
    and clean :: "'f \<Rightarrow> bool"
    and peer_at :: "string \<Rightarrow> int option"
    and sendable :: "AppendEntriesArgs \<Rightarrow> bool"
  assumes stopped: "peer_at a = Some p \<Longrightarrow> stopClosed (ns p) \<Longrightarrow> \<exists>e. call f a args ns = (ns, [], Inl e)"
    and delivered: "peer_at a = Some p \<Longrightarrow> \<not> stopClosed (ns p) \<Longrightarrow> sendable args \<Longrightarrow> clean f \<Longrightarrow>
      call f a args ns = (case AppendEntries args (ns p) of (r, es, reply) \<Rightarrow> (ns(p := r), es, Inr reply))"
    and faulty: "peer_at a = Some p \<Longrightarrow> \<not> stopClosed (ns p) \<Longrightarrow> sendable args \<Longrightarrow> \<not> clean f \<Longrightarrow>
      \<exists>e. call f a args ns = (ns, [], Inl e)
        \<or> call f a args ns = (case AppendEntries args (ns p) of (r, es, reply) \<Rightarrow> (ns(p := r), es, Inl e))"
begin

lemma exchange_stopped:
  "peer_at a = Some p \<Longrightarrow> stopClosed (ns p) \<Longrightarrow> exchange (call f) i p a ns = ns"
  using stopped [of a p ns f "heartbeatArgs (ns i) p"] by (auto simp: exchange_def appendReply_def)

lemma exchange_delivered:
  assumes "peer_at a = Some p" and "\<not> stopClosed (ns p)" and "sendable (heartbeatArgs (ns i) p)" and "clean f" and "p \<noteq> i"
  shows "syncRound p (ns i, ns p) = (exchange (call f) i p a ns i, exchange (call f) i p a ns p)"
  using delivered [where ns = ns, OF assms(1-4)] assms(5)
  by (simp add: exchange_def syncRound_def case_prod_unfold Let_def)

lemma exchange_faulty:
  assumes "peer_at a = Some p" and "\<not> stopClosed (ns p)" and "sendable (heartbeatArgs (ns i) p)" and "\<not> clean f" and "p \<noteq> i"
  shows "exchange (call f) i p a ns = ns \<or>
    exchange (call f) i p a ns = ns(p := fst (AppendEntries (heartbeatArgs (ns i) p) (ns p)))"
  using faulty [where ns = ns, OF assms(1-4)] assms(5)
  by (auto simp: exchange_def appendReply_def case_prod_unfold Let_def)

end

section \<open>What a delivered message does, answered or not\<close>

lemma synced_matches:
  assumes "syncReady p L F" and "synced p L F"
  shows "prevMatches (heartbeatArgs L p) F"
proof -
  let ?n = "unat (mapRead (nextIndex L) p) - 1" and ?l = "Entries (raftLog L)" and ?f = "Entries (raftLog F)"
  have ready: "nextInLog L p" "logSmall (raftLog L)" "logWf (raftLog L)" "logWf (raftLog F)" "logSmall (raftLog F)"
    using assms(1) by (simp_all add: syncReady_def)
  note f = heartbeatArgs_fields [OF ready(1,2)] and wf = heartbeatArgs_wf [OF ready(1-3)]
  have pre: "take (length ?l) ?f = ?l" using assms(2) by (simp add: synced_def)
  then have "length ?l \<le> length ?f" by (metis length_take min.cobounded1)
  have "prevAgrees ?n (aePrevLogTerm (heartbeatArgs L p)) ?f"
  proof (cases "?n = 0")
    case False
    then have "?f ! (?n - 1) = ?l ! (?n - 1)" using f(5) arg_cong [OF pre, of "\<lambda>x. x ! (?n - 1)"] by simp
    with False f(4,5) \<open>length ?l \<le> length ?f\<close> show ?thesis unfolding prevAgrees_def by (metis le_trans neq0_conv)
  qed (simp add: prevAgrees_def)
  then show ?thesis using prevMatches_iff [OF ready(4,5)] wf by (simp add: argsWf_def f(2))
qed

lemma delivered_ready:
  assumes "syncReady p L F"
  shows "syncReady p L (fst (AppendEntries (heartbeatArgs L p) F))"
    and "synced p L F \<Longrightarrow> synced p L (fst (AppendEntries (heartbeatArgs L p) F))"
proof -
  let ?args = "heartbeatArgs L p" and ?F = "fst (AppendEntries (heartbeatArgs L p) F)"
  have t: "aeTerm ?args = currentTerm L" by (simp add: heartbeatArgs_def Let_def)
  have hit: "raftLog ?F = raftLog (installed ?args F) \<and> currentTerm ?F = currentTerm L" if "prevMatches ?args F"
    using accepted_log(1) [OF assms that] by (auto simp: installed_def adoptLeader_def t)
  show "syncReady p L ?F"
  proof (cases "prevMatches ?args F")
    case True
    with hit [OF True] accepted_log(2-4) [OF assms True] assms show ?thesis by (simp add: syncReady_def logsMatch_prefix)
  next
    case False
    then have "raftLog ?F = raftLog F \<and> currentTerm ?F = currentTerm L"
      using assms by (cases rule: AppendEntries_cases [of ?args F]) (auto simp: syncReady_def t adoptLeader_def)
    with assms show ?thesis by (simp add: syncReady_def)
  qed
  assume s: "synced p L F"
  note m = synced_matches [OF assms s]
  with hit [OF m] accepted_log(2) [OF assms m] s show "synced p L ?F" by (simp add: synced_def)
qed

section \<open>Under any faults\<close>

text \<open>How far a leader is from having a peer up to date: at most this many clean rounds.\<close>

definition roundsLeft :: "int \<Rightarrow> RaftNode \<Rightarrow> RaftNode \<Rightarrow> nat" where
  "roundsLeft p L F = (if synced p L F then 0 else unat (mapRead (nextIndex L) p))"

lemma syncRound_rounds:
  assumes "syncReady p L F" and "syncRound p (L, F) = (L', F')"
  shows "syncReady p L' F' \<and> raftLog L' = raftLog L \<and> roundsLeft p L' F' \<le> roundsLeft p L F - 1"
proof (cases "prevMatches (heartbeatArgs L p) F")
  case True
  with syncRound_hit [OF assms(1) True] assms(2) show ?thesis by (auto simp: roundsLeft_def)
next
  case False
  then have "\<not> synced p L F" using synced_matches [OF assms(1)] by blast
  with syncRound_miss [OF assms(1) False] assms(2) show ?thesis by (auto simp: roundsLeft_def)
qed

context transport_laws
begin

lemma exchange_progress:
  assumes "peer_at a = Some p" and "p \<noteq> i" and "\<not> stopClosed (ns p)" and "syncReady p (ns i) (ns p)"
    and "sendable (heartbeatArgs (ns i) p)"
  shows "syncReady p (exchange (call f) i p a ns i) (exchange (call f) i p a ns p)
    \<and> raftLog (exchange (call f) i p a ns i) = raftLog (ns i) \<and> \<not> stopClosed (exchange (call f) i p a ns p)
    \<and> roundsLeft p (exchange (call f) i p a ns i) (exchange (call f) i p a ns p)
        \<le> roundsLeft p (ns i) (ns p) - (if clean f then 1 else 0)"
proof (cases "clean f")
  case True
  have "exchange (call f) i p a ns p = fst (AppendEntries (heartbeatArgs (ns i) p) (ns p))"
    using delivered [where ns = ns, OF assms(1,3,5) True] assms(2) by (simp add: exchange_def case_prod_unfold Let_def)
  with syncRound_rounds [OF assms(4) exchange_delivered [OF assms(1,3,5) True assms(2)]] assms(3) True
  show ?thesis by simp
next
  case False
  from exchange_faulty [OF assms(1,3,5) False assms(2)] show ?thesis
    using assms(2-4) False delivered_ready [OF assms(4)] by (auto simp: roundsLeft_def)
qed

lemma exchanges_sync:
  assumes "peer_at a = Some p" and "p \<noteq> i" and "\<not> stopClosed (ns p)" and "syncReady p (ns i) (ns p)"
    and "\<And>L. raftLog L = raftLog (ns i) \<Longrightarrow> nextInLog L p \<Longrightarrow> sendable (heartbeatArgs L p)"
    and "roundsLeft p (ns i) (ns p) \<le> length (filter clean fs)"
  shows "synced p (fold (\<lambda>f. exchange (call f) i p a) fs ns i) (fold (\<lambda>f. exchange (call f) i p a) fs ns p)
    \<and> raftLog (fold (\<lambda>f. exchange (call f) i p a) fs ns i) = raftLog (ns i)"
  using assms(3-6)
proof (induction fs arbitrary: ns)
  case Nil
  then have "roundsLeft p (ns i) (ns p) = 0" by simp
  moreover have "0 < unat (mapRead (nextIndex (ns i)) p)" using Nil.prems(2) by (simp add: syncReady_def nextInLog_def)
  ultimately show ?case by (simp add: roundsLeft_def split: if_splits)
next
  case (Cons f fs)
  let ?ns = "exchange (call f) i p a ns"
  have "nextInLog (ns i) p" using Cons.prems(2) by (simp add: syncReady_def)
  note e = exchange_progress [OF assms(1,2) Cons.prems(1,2) Cons.prems(3) [OF refl this], of f]
  then have r: "raftLog (?ns i) = raftLog (ns i)" by blast
  have "synced p (fold (\<lambda>f. exchange (call f) i p a) fs ?ns i) (fold (\<lambda>f. exchange (call f) i p a) fs ?ns p)
      \<and> raftLog (fold (\<lambda>f. exchange (call f) i p a) fs ?ns i) = raftLog (?ns i)"
  proof (rule Cons.IH)
    show "roundsLeft p (?ns i) (?ns p) \<le> length (filter clean fs)" using e Cons.prems(4) by (cases "clean f") auto
  qed (use e r Cons.prems(3) in auto)
  with r show ?case by simp
qed

end

section \<open>The two transports\<close>

interpretation local_transport: transport_laws "\<lambda>_ :: unit. LocalAppendEntries id (NewLocalTransport servers)"
  "\<lambda>_. True" servers "\<lambda>_. True" for servers
  by unfold_locales
    (auto simp: LocalAppendEntries_def admit_def NewLocalTransport_def IsStopped_def split: prod.splits)

text \<open>Over HTTP the commands have to be texts, or they are changed on the way.\<close>

interpretation http_transport: transport_laws "\<lambda>f. HTTPAppendEntries f id servers" "\<lambda>f. f = NoFault" servers
  "\<lambda>args. \<forall>e \<in> set (aeEntries args). commandText (entryCommand e)" for servers
proof (unfold_locales, goal_cases)
  case (1 a p ns f args)
  then show ?case
    by (cases f) (auto simp: HTTPAppendEntries_def appendEntriesHandler_def answered_def IsStopped_def clientReply_def answerStatus_def)
next
  case (2 a p ns args f)
  then show ?case
    by (simp add: HTTPAppendEntries_def appendEntriesHandler_def answered_def IsStopped_def jsonArgs_text split: prod.splits)
next
  case (3 a p ns args f)
  then show ?case
    by (cases f) (auto simp: HTTPAppendEntries_def appendEntriesHandler_def answered_def IsStopped_def jsonArgs_text split: prod.splits)
qed

text \<open>C17. Replication over HTTP survives faults: a leader whose log holds only texts, and a running
  follower with which it can synchronise (\<open>syncReady\<close>), exchange AppendEntries calls one after the
  other; any of them may lose its request or its answer. Once \<open>nextIndex\<close> of them have had no
  fault, in whatever order, the leader's whole log is a prefix of the follower's, \<open>matchIndex\<close>
  says so, and the leader's log is unchanged; later calls, lost or not, do not undo it.\<close>

theorem http_replication_survives_faults:
  assumes "servers a = Some p" and "p \<noteq> i" and "\<not> stopClosed (ns p)" and "syncReady p (ns i) (ns p)"
    and "\<forall>e \<in> set (Entries (raftLog (ns i))). commandText (entryCommand e)"
    and "unat (mapRead (nextIndex (ns i)) p) \<le> length (filter (\<lambda>f. f = NoFault) fs)"
    and "ns' = fold (\<lambda>f. exchange (HTTPAppendEntries f id servers) i p a) fs ns"
  shows "synced p (ns' i) (ns' p) \<and> raftLog (ns' i) = raftLog (ns i)"
  unfolding assms(7)
proof (rule http_transport.exchanges_sync [where ns = ns and servers = servers and a = a, OF assms(1-4)])
  fix L assume L: "raftLog L = raftLog (ns i)" "nextInLog L p"
  have "logSmall (raftLog L)" using assms(4) L(1) by (simp add: syncReady_def)
  with heartbeatArgs_fields(3) [OF L(2)] assms(5) L(1)
  show "\<forall>e \<in> set (aeEntries (heartbeatArgs L p)). commandText (entryCommand e)" by (auto dest: in_set_dropD)
next
  show "roundsLeft p (ns i) (ns p) \<le> length (filter (\<lambda>f. f = NoFault) fs)"
    using assms(6) by (simp add: roundsLeft_def)
qed

lemma http_replication_survives_faults_witness:
  "\<exists>ns'. ns' = fold (\<lambda>f. exchange (HTTPAppendEntries f id [''a'' \<mapsto> 2]) 0 2 ''a'')
      [RequestLost, NoFault, AnswerLost, NoFault, RequestLost, NoFault]
      ((\<lambda>_. nodeWithLog 2 2 [entryAt 1 1 ''x'', entryAt 2 2 ''x'', entryAt 3 2 ''x''])
        (0 := (nodeWithLog 0 3 [entryAt 1 1 ''x'', entryAt 2 3 ''x''])\<lparr>state := Leader, nextIndex := [2 \<mapsto> 3]\<rparr>))
    \<and> synced 2 (ns' 0) (ns' 2) \<and> length (Entries (raftLog (ns' 0))) = 2"
proof -
  let ?L = "(nodeWithLog 0 3 [entryAt 1 1 ''x'', entryAt 2 3 ''x''])\<lparr>state := Leader, nextIndex := [2 \<mapsto> 3]\<rparr>"
  let ?F = "nodeWithLog 2 2 [entryAt 1 1 ''x'', entryAt 2 2 ''x'', entryAt 3 2 ''x'']"
  let ?ns = "(\<lambda>_ :: int. ?F)(0 := ?L)" and ?fs = "[RequestLost, NoFault, AnswerLost, NoFault, RequestLost, NoFault]"
  have "logsMatch (Entries (raftLog ?F)) (Entries (raftLog ?L))"
    by (simp add: logsMatch_def All_less_Suc numeral_eq_Suc)
  then have ready: "syncReady 2 (?ns 0) (?ns 2)"
    by (simp add: syncReady_def nextInLog_def mapRead_def logWf_def logSmall_def numberedFrom_Cons)
  have "\<forall>e \<in> set (Entries (raftLog (?ns 0))). commandText (entryCommand e)" using commandText_ascii by simp
  from http_replication_survives_faults [where ns = ?ns and servers = "[''a'' \<mapsto> 2]" and a = "''a''" and fs = ?fs, OF _ _ _ ready this]
  show ?thesis by (simp add: mapRead_def nodeWithLog_def NewRaftNode_def)
qed

end
