(* ===== verification/Go_Strings.thy ===== *)
theory Go_Strings
  imports Prelude
begin

text \<open>
  The standard library's string functions that the HTTP API uses: strings.TrimPrefix,
  strings.Split with a one-byte separator, and strconv.Atoi.
\<close>

definition TrimPrefix :: "gostring \<Rightarrow> gostring \<Rightarrow> gostring" where
  "TrimPrefix s p = (if take (length p) s = p then drop (length p) s else s)"

fun splitOn :: "char \<Rightarrow> gostring \<Rightarrow> gostring list" where
  "splitOn c [] = [[]]"
| "splitOn c (x # xs) =
    (if x = c then [] # splitOn c xs
     else (case splitOn c xs of [] \<Rightarrow> [[x]] | y # ys \<Rightarrow> (x # y) # ys))"

text \<open>The digits of a decimal number, most significant first; \<open>None\<close> at any other byte.\<close>

fun parseDigits :: "nat \<Rightarrow> gostring \<Rightarrow> nat option" where
  "parseDigits n [] = Some n"
| "parseDigits n (x # xs) =
    (if 48 \<le> (of_char x :: nat) \<and> (of_char x :: nat) \<le> 57
     then parseDigits (10 * n + (of_char x - 48)) xs else None)"

text \<open>Atoi: an optional sign, then one or more digits, of a value that fits 64 bits.\<close>

definition Atoi :: "gostring \<Rightarrow> int option" where
  "Atoi s =
    (let signed = (take 1 s = ''-'' \<or> take 1 s = ''+'');
         digits = (if signed then drop 1 s else s)
     in if digits = [] then None
        else (case parseDigits 0 digits of
                None \<Rightarrow> None
              | Some n \<Rightarrow>
                  let i = (if take 1 s = ''-'' then - int n else int n)
                  in if - 9223372036854775808 \<le> i \<and> i \<le> 9223372036854775807 then Some i else None))"

lemma TrimPrefix_append [simp]: "TrimPrefix (p @ s) p = s"
  by (simp add: TrimPrefix_def)

lemma splitOn_not_Nil [simp]: "splitOn c s \<noteq> []"
  by (induction s) (auto split: list.splits)

lemma splitOn_plain: "c \<notin> set s \<Longrightarrow> splitOn c s = [s]"
  by (induction s) auto

lemma splitOn_append: "c \<notin> set s \<Longrightarrow> splitOn c (s @ c # t) = s # splitOn c t"
  by (induction s) auto

lemma parseDigits_append:
  "parseDigits n (s @ t) = (case parseDigits n s of None \<Rightarrow> None | Some m \<Rightarrow> parseDigits m t)"
  by (induction n s rule: parseDigits.induct) auto

lemma parseDigits_showNat: "parseDigits 0 (showNat n) = Some n"
proof (induction n rule: showNat.induct)
  case (1 n)
  show ?case
  proof (cases "n < 10")
    case True
    then show ?thesis by (subst showNat.simps) simp
  next
    case False
    with 1 show ?thesis by (subst showNat.simps) (simp add: parseDigits_append)
  qed
qed

lemma showNat_digits: "x \<in> set (showNat n) \<Longrightarrow> 48 \<le> (of_char x :: nat) \<and> (of_char x :: nat) \<le> 57"
proof (induction n rule: showNat.induct)
  case (1 n)
  then show ?case by (subst (asm) showNat.simps) (auto split: if_splits)
qed

lemma showNat_not_Nil [simp]: "showNat n \<noteq> []"
  by (subst showNat.simps) simp

lemma showNat_no_slash: "CHR ''/'' \<notin> set (showNat n)"
  using showNat_digits [of "CHR ''/''" n] by auto

lemma Atoi_showNat: "n < 2 ^ 63 \<Longrightarrow> Atoi (showNat n) = Some (int n)"
proof -
  assume n: "n < 2 ^ 63"
  obtain x xs where x: "showNat n = x # xs" by (cases "showNat n") simp_all
  then have "48 \<le> (of_char x :: nat)" using showNat_digits [of x n] by simp
  then have "x \<noteq> CHR ''-''" "x \<noteq> CHR ''+''" by auto
  with x n show ?thesis using parseDigits_showNat [of n] by (simp add: Atoi_def)
qed

end
