(* ===== verification/Http_Api.thy ===== *)
theory Http_Api
  imports Go_Strings Http_Transport
begin

text \<open>
  The HTTP API (internal/httpapi/handler.go): routes, the key-value, cluster and node handlers,
  and the event stream, over the KV nodes and the event bus that cmd/server/main.go hands it.
  A handler takes the mutex of one node at a time, so what other goroutines do between two
  critical sections is an argument (\<open>Others\<close>). The body of a request is given decoded; an
  answer is the JSON value the client decodes, in which invalid UTF-8 is replaced.
\<close>

section \<open>Answers\<close>

datatype Json =
    JString gostring
  | JNumber int
  | JBool bool
  | JObject "(string \<times> Json) list"
  | JArray "Json list"

primrec jsonText :: "Json \<Rightarrow> Json" where
  "jsonText (JString s) = JString (jsonString s)"
| "jsonText (JNumber i) = JNumber i"
| "jsonText (JBool b) = JBool b"
| "jsonText (JObject fs) = JObject (map (map_prod id jsonText) fs)"
| "jsonText (JArray xs) = JArray (map jsonText xs)"

datatype Body = NoBody | TextBody string | JsonBody Json | EventStream SubPtr "Event list"

record Response =
  respStatus :: int
  respHeaders :: "(string \<times> string) list"
  respBody :: Body

definition writeJSON :: "int \<Rightarrow> Json \<Rightarrow> Response" where
  "writeJSON status v =
    \<lparr>respStatus = status, respHeaders = [(''Content-Type'', ''application/json'')],
     respBody = JsonBody (jsonText v)\<rparr>"

definition httpError :: "int \<Rightarrow> string \<Rightarrow> Response" where
  "httpError status msg = writeJSON status (JObject [(''error'', JString msg)])"

section \<open>Requests and state\<close>

text \<open>\<open>rqBody\<close> is the field "value" of a decoded body, or the decoder's message; \<open>rqNode\<close> and
  \<open>rqCategory\<close> are query parameters, empty when missing.\<close>

record Request =
  rqMethod :: string
  rqPath :: gostring
  rqBody :: "string + gostring"
  rqNode :: gostring
  rqCategory :: gostring

text \<open>The struct Cluster of the package. main.go fills RaftNodes with the Raft nodes of the KV
  nodes, the same pointers, so there is one list.\<close>

record ApiCluster =
  kvNodes :: "KVNode list"
  apiBus :: Bus

definition raftNodes :: "ApiCluster \<Rightarrow> RaftNode list" where
  "raftNodes c = map kvRaft (kvNodes c)"

definition setKvNode :: "nat \<Rightarrow> KVNode \<Rightarrow> ApiCluster \<Rightarrow> ApiCluster" where
  "setKvNode i n c = c\<lparr>kvNodes := (kvNodes c)[i := n]\<rparr>"

definition setRaftNode :: "nat \<Rightarrow> RaftNode \<Rightarrow> ApiCluster \<Rightarrow> ApiCluster" where
  "setRaftNode i r c = setKvNode i ((kvNodes c ! i)\<lparr>kvRaft := r\<rparr>) c"

text \<open>What other goroutines do: after the search for a leader, before the operation on the node
  found, and to a node between two of an operation's own critical sections.\<close>

record Others =
  afterSearch :: "ApiCluster \<Rightarrow> ApiCluster"
  beforeOperation :: "ApiCluster \<Rightarrow> ApiCluster"
  withinOperation :: "RaftNode \<Rightarrow> RaftNode"

definition nobody :: Others where
  "nobody = \<lparr>afterSearch = id, beforeOperation = id, withinOperation = id\<rparr>"

section \<open>Finding a node\<close>

text \<open>The index of the first node that a search takes.\<close>

fun findNode :: "(KVNode \<Rightarrow> bool) \<Rightarrow> KVNode list \<Rightarrow> nat option" where
  "findNode P [] = None"
| "findNode P (kv # kvs) = (if P kv then Some 0 else map_option Suc (findNode P kvs))"

definition findLeaderKVNode :: "ApiCluster \<Rightarrow> nat option" where
  "findLeaderKVNode c =
    findNode (\<lambda>kv. \<not> IsStopped (kvRaft kv) \<and> GetState (kvRaft kv) = Leader) (kvNodes c)"

definition findAnyAliveKVNode :: "ApiCluster \<Rightarrow> nat option" where
  "findAnyAliveKVNode c = findNode (\<lambda>kv. \<not> IsStopped (kvRaft kv)) (kvNodes c)"

section \<open>Keys and values\<close>

fun handleGet :: "KVNode list \<Rightarrow> gostring \<Rightarrow> Response" where
  "handleGet [] key = httpError 503 ''no alive nodes''"
| "handleGet (kv # kvs) key =
    (if \<not> IsStopped (kvRaft kv)
     then (case kvGet key kv of (val, ok) \<Rightarrow>
             if \<not> ok then httpError 404 ''key not found''
             else writeJSON 200 (JObject [(''key'', JString key), (''value'', JString val)]))
     else handleGet kvs key)"

definition notLeader :: "int \<Rightarrow> Response" where
  "notLeader leader =
    writeJSON 307 (JObject [(''error'', JString ''not leader''), (''leader_id'', JNumber leader)])"

definition handlePut ::
  "Others \<Rightarrow> nat \<Rightarrow> gostring \<Rightarrow> Request \<Rightarrow> ApiCluster \<Rightarrow> ApiCluster \<times> Effect list \<times> Response" where
  "handlePut oth i key rq c =
    (case rqBody rq of
       Inl msg \<Rightarrow> (c, [], httpError 400 (''invalid body: '' @ msg))
     | Inr val \<Rightarrow>
         (case kvSet key val (withinOperation oth) (kvNodes c ! i) of
            (n', es, ok, leader, index) \<Rightarrow>
              (setKvNode i n' c, es,
               if \<not> ok then notLeader leader
               else writeJSON 200 (JObject [(''key'', JString key), (''value'', JString val),
                      (''accepted'', JBool True), (''leader_id'', JNumber leader),
                      (''log_index'', JNumber (uint index))]))))"

definition handleDelete ::
  "Others \<Rightarrow> nat \<Rightarrow> gostring \<Rightarrow> ApiCluster \<Rightarrow> ApiCluster \<times> Effect list \<times> Response" where
  "handleDelete oth i key c =
    (case kvDelete key (withinOperation oth) (kvNodes c ! i) of
       (n', es, ok, leader, index) \<Rightarrow>
         (setKvNode i n' c, es,
          if \<not> ok then notLeader leader
          else writeJSON 200 (JObject [(''key'', JString key), (''deleted'', JBool True),
                 (''leader_id'', JNumber leader), (''log_index'', JNumber (uint index))])))"

definition kvHandler ::
  "Others \<Rightarrow> Request \<Rightarrow> ApiCluster \<Rightarrow> ApiCluster \<times> Effect list \<times> Response" where
  "kvHandler oth rq c =
    (let key = TrimPrefix (rqPath rq) ''/kv/''
     in if key = [] then (c, [], httpError 400 ''missing key'')
        else
          case (case findLeaderKVNode c of
                  Some i \<Rightarrow> (Some i, c)
                | None \<Rightarrow> let c1 = afterSearch oth c in (findAnyAliveKVNode c1, c1)) of
            (None, c1) \<Rightarrow> (c1, [], httpError 503 ''no alive nodes'')
          | (Some i, c1) \<Rightarrow>
              let c2 = beforeOperation oth c1
              in if rqMethod rq = ''GET'' then (c2, [], handleGet (kvNodes c2) key)
                 else if rqMethod rq = ''PUT'' then handlePut oth i key rq c2
                 else if rqMethod rq = ''DELETE'' then handleDelete oth i key c2
                 else (c2, [], httpError 405 ''method not allowed''))"

section \<open>Cluster status and node control\<close>

definition jsonStatus :: "NodeStatus \<Rightarrow> Json" where
  "jsonStatus s = JObject
    [(''id'', JNumber (statusID s)), (''state'', JString (statusState s)),
     (''term'', JNumber (uint (statusTerm s))), (''leader_id'', JNumber (statusLeaderID s)),
     (''last_log_index'', JNumber (uint (statusLastLogIndex s))),
     (''commit_index'', JNumber (uint (statusCommitIndex s))),
     (''last_applied'', JNumber (uint (statusLastApplied s))), (''alive'', JBool (statusAlive s))]"

definition clusterHandler ::
  "Request \<Rightarrow> ApiCluster \<Rightarrow> ApiCluster \<times> Effect list \<times> Response" where
  "clusterHandler rq c =
    (if rqMethod rq \<noteq> ''GET'' then (c, [], httpError 405 ''method not allowed'')
     else (c, [], writeJSON 200
             (JObject [(''nodes'', JArray (map (jsonStatus \<circ> Status) (raftNodes c)))])))"

definition nodeAction :: "int \<Rightarrow> string \<Rightarrow> bool \<Rightarrow> Response" where
  "nodeAction i action success =
    writeJSON 200 (JObject [(''node_id'', JNumber i), (''action'', JString action),
      (''success'', JBool success)])"

text \<open>The requests for node \<open>k\<close>, which is in range: \<open>parts\<close> is the path from the node on.\<close>

definition nodeRequest ::
  "Others \<Rightarrow> string \<Rightarrow> gostring list \<Rightarrow> int \<Rightarrow> ApiCluster \<Rightarrow> ApiCluster \<times> Effect list \<times> Response" where
  "nodeRequest oth verb parts k c =
    (let i = nat k; node = raftNodes c ! i; node' = withinOperation oth node
     in if length parts = 1 then
          if verb \<noteq> ''GET'' then (c, [], httpError 405 ''method not allowed'')
          else (c, [], writeJSON 200 (jsonStatus (Status node)))
        else if length parts = 2 \<and> parts ! 1 = ''kill'' \<and> verb = ''POST'' then
          if IsStopped node then (c, [], nodeAction k ''already_stopped'' False)
          else (setRaftNode i (fst (Stop node')) c, snd (Stop node'), nodeAction k ''killed'' True)
        else if length parts = 2 \<and> parts ! 1 = ''restart'' \<and> verb = ''POST'' then
          if \<not> IsStopped node then (c, [], nodeAction k ''already_running'' False)
          else (setRaftNode i (fst (Restart node')) c, snd (Restart node'), nodeAction k ''restarted'' True)
        else (c, [], httpError 404 ''not found''))"

definition nodesHandler ::
  "Others \<Rightarrow> Request \<Rightarrow> ApiCluster \<Rightarrow> ApiCluster \<times> Effect list \<times> Response" where
  "nodesHandler oth rq c =
    (let parts = splitOn CHR ''/'' (TrimPrefix (rqPath rq) ''/nodes/'')
     in if parts = [] \<or> parts ! 0 = [] then (c, [], httpError 400 ''missing node id'')
        else case Atoi (parts ! 0) of
          None \<Rightarrow> (c, [], httpError 400 ''invalid node id'')
        | Some k \<Rightarrow>
            if k < 0 \<or> int (length (raftNodes c)) \<le> k then (c, [], httpError 400 ''invalid node id'')
            else nodeRequest oth (rqMethod rq) parts k c)"

section \<open>The event stream\<close>

definition matchesFilter :: "gostring \<Rightarrow> gostring \<Rightarrow> Event \<Rightarrow> bool" where
  "matchesFilter nodeFilter category e =
    (if nodeFilter \<noteq> [] \<and> nodeFilter \<noteq> ''all''
        \<and> showInt (NodeID e) \<noteq> nodeFilter \<and> showInt (PeerID e) \<noteq> nodeFilter then False
     else if category = ''heartbeats'' then
       EventTypeOf e \<in> {HeartbeatSent, HeartbeatReceived, LogReplicated, AppendEntriesSent,
         AppendEntriesSuccess, AppendEntriesFailed}
     else if category = ''elections'' then
       EventTypeOf e \<in> {ElectionStarted, VoteGrantedEv, VoteRejected, BecameCandidate, BecameLeader,
         BecameFollower, LeaderChanged, NodeStopped, NodeRestarted}
     else True)"

text \<open>The handler up to its loop: subscribe, then write the recent events that match. The body
  holds what has been written so far and the subscription.\<close>

definition sseHandler ::
  "bool \<Rightarrow> Others \<Rightarrow> Request \<Rightarrow> ApiCluster \<Rightarrow> ApiCluster \<times> Effect list \<times> Response" where
  "sseHandler canFlush oth rq c =
    (if \<not> canFlush then (c, [], httpError 500 ''streaming not supported'')
     else case Subscribe (apiBus c) of
       (sub, b) \<Rightarrow>
         let c1 = beforeOperation oth (c\<lparr>apiBus := b\<rparr>)
         in (c1, [],
             \<lparr>respStatus = 200,
              respHeaders = [(''Content-Type'', ''text/event-stream''), (''Cache-Control'', ''no-cache''),
                (''Connection'', ''keep-alive''), (''Access-Control-Allow-Origin'', ''*'')],
              respBody = EventStream sub
                (filter (matchesFilter (rqNode rq) (rqCategory rq)) (Recent (apiBus c1)))\<rparr>))"

text \<open>One turn of the loop: the client has gone (and the deferred Unsubscribe runs), the channel
  is closed, an event is received and written if it matches, or there is nothing to receive.\<close>

datatype SseTurn = SseDone | SseWait | SseGoOn "Event list"

definition sseTurn :: "bool \<Rightarrow> gostring \<Rightarrow> gostring \<Rightarrow> SubPtr \<Rightarrow> Bus \<Rightarrow> SseTurn \<times> Bus" where
  "sseTurn clientGone nodeFilter category sub b =
    (if clientGone then (SseDone, Unsubscribe sub b)
     else case receive sub b of
       Some (e, b') \<Rightarrow> (SseGoOn (if matchesFilter nodeFilter category e then [e] else []), b')
     | None \<Rightarrow>
         (case chans b sub of
            Some (es, True) \<Rightarrow> (SseDone, Unsubscribe sub b)
          | _ \<Rightarrow> (SseWait, b)))"

text \<open>The loop, interleaved with what others do to the bus: publish, subscribe, unsubscribe,
  receive from a channel. A turn of the loop says whether the client has gone by then; a turn
  that finds nothing to receive has no effect (the \<open>select\<close> waits). The result is what the turns
  write, and the bus; \<open>None\<close> is the panic of a publication.\<close>

datatype SseStep =
    LoopTurn bool
  | OtherPublishes nat Event
  | OtherJoins
  | OtherLeaves SubPtr
  | OtherReceives SubPtr

fun sseRun :: "gostring \<Rightarrow> gostring \<Rightarrow> SubPtr \<Rightarrow> SseStep list \<Rightarrow> Bus \<Rightarrow> (Event list \<times> Bus) option" where
  "sseRun nodeFilter category sub [] b = Some ([], b)"
| "sseRun nodeFilter category sub (LoopTurn clientGone # steps) b =
    (case sseTurn clientGone nodeFilter category sub b of
       (SseDone, b1) \<Rightarrow> Some ([], b1)
     | (SseWait, b1) \<Rightarrow> sseRun nodeFilter category sub steps b1
     | (SseGoOn es, b1) \<Rightarrow>
         map_option (\<lambda>(es', b2). (es @ es', b2)) (sseRun nodeFilter category sub steps b1))"
| "sseRun nodeFilter category sub (OtherPublishes now e # steps) b =
    (case Publish now e b of None \<Rightarrow> None | Some b1 \<Rightarrow> sseRun nodeFilter category sub steps b1)"
| "sseRun nodeFilter category sub (OtherJoins # steps) b =
    sseRun nodeFilter category sub steps (snd (Subscribe b))"
| "sseRun nodeFilter category sub (OtherLeaves s # steps) b =
    sseRun nodeFilter category sub steps (Unsubscribe s b)"
| "sseRun nodeFilter category sub (OtherReceives s # steps) b =
    sseRun nodeFilter category sub steps (case receive s b of None \<Rightarrow> b | Some (e, b1) \<Rightarrow> b1)"

section \<open>Routes\<close>

text \<open>The patterns that NewHandler registers. Paths that ServeMux answers itself (it redirects
  those that are not clean) do not get here; any other path is not found.\<close>

datatype Route = ToKv | ToCluster | ToNodes | ToEvents

definition route :: "gostring \<Rightarrow> Route option" where
  "route p =
    (if take 4 p = ''/kv/'' then Some ToKv
     else if p = ''/cluster'' then Some ToCluster
     else if take 7 p = ''/nodes/'' then Some ToNodes
     else if p = ''/events'' then Some ToEvents
     else None)"

definition muxServe ::
  "bool \<Rightarrow> Others \<Rightarrow> Request \<Rightarrow> ApiCluster \<Rightarrow> ApiCluster \<times> Effect list \<times> Response" where
  "muxServe canFlush oth rq c =
    (case route (rqPath rq) of
       Some ToKv \<Rightarrow> kvHandler oth rq c
     | Some ToCluster \<Rightarrow> clusterHandler rq c
     | Some ToNodes \<Rightarrow> nodesHandler oth rq c
     | Some ToEvents \<Rightarrow> sseHandler canFlush oth rq c
     | None \<Rightarrow> (c, [], \<lparr>respStatus = 404,
         respHeaders = [(''Content-Type'', ''text/plain; charset=utf-8''), (''X-Content-Type-Options'', ''nosniff'')],
         respBody = TextBody (''404 page not found'' @ [CHR 0x0A])\<rparr>))"

definition corsHeaders :: "(string \<times> string) list" where
  "corsHeaders =
    [(''Access-Control-Allow-Origin'', ''*''),
     (''Access-Control-Allow-Methods'', ''GET, PUT, DELETE, POST, OPTIONS''),
     (''Access-Control-Allow-Headers'', ''Content-Type'')]"

definition CorsWrap ::
  "(Request \<Rightarrow> ApiCluster \<Rightarrow> ApiCluster \<times> Effect list \<times> Response) \<Rightarrow>
    Request \<Rightarrow> ApiCluster \<Rightarrow> ApiCluster \<times> Effect list \<times> Response" where
  "CorsWrap handler rq c =
    (if rqMethod rq = ''OPTIONS''
     then (c, [], \<lparr>respStatus = 200, respHeaders = corsHeaders, respBody = NoBody\<rparr>)
     else case handler rq c of
       (c', es, a) \<Rightarrow> (c', es, a\<lparr>respHeaders := AList.merge corsHeaders (respHeaders a)\<rparr>))"

definition NewHandler ::
  "bool \<Rightarrow> Others \<Rightarrow> Request \<Rightarrow> ApiCluster \<Rightarrow> ApiCluster \<times> Effect list \<times> Response" where
  "NewHandler canFlush oth = CorsWrap (muxServe canFlush oth)"

text \<open>The events among the effects of a handler reach the bus; \<open>None\<close> is the panic of a send on
  a closed channel.\<close>

fun runEvents :: "nat \<Rightarrow> Effect list \<Rightarrow> Bus \<Rightarrow> Bus option" where
  "runEvents now [] b = Some b"
| "runEvents now (EmitEvent bus i t trm msg peer index # es) b =
    (case Publish now \<lparr>Timestamp = now, NodeID = i, EventTypeOf = t, EventTerm = trm, Message = msg,
            PeerID = peer, LogIndex = index\<rparr> b of
       None \<Rightarrow> None | Some b' \<Rightarrow> runEvents now es b')"
| "runEvents now (_ # es) b = runEvents now es b"

definition serve ::
  "nat \<Rightarrow> bool \<Rightarrow> Others \<Rightarrow> Request \<Rightarrow> ApiCluster \<Rightarrow> (ApiCluster \<times> Effect list \<times> Response) option" where
  "serve now canFlush oth rq c =
    (case NewHandler canFlush oth rq c of
       (c', es, a) \<Rightarrow> map_option (\<lambda>b. (c'\<lparr>apiBus := b\<rparr>, es, a)) (runEvents now es (apiBus c')))"

end
