(* ===== verification/Http_Proofs.thy ===== *)
theory Http_Proofs
  imports Http_Api
begin

text \<open>
  What the HTTP API promises its clients: which node a request acts on, what kill and restart
  do, what a PUT answers and changes, and which events a stream carries.
\<close>

section \<open>Searches\<close>

lemma findNode_Some:
  "findNode P kvs = Some i \<longleftrightarrow> i < length kvs \<and> P (kvs ! i) \<and> (\<forall>j < i. \<not> P (kvs ! j))"
proof (induction kvs arbitrary: i)
  case (Cons kv kvs)
  show ?case
  proof (cases i)
    case 0
    then show ?thesis by simp
  next
    case (Suc k)
    then show ?thesis using Cons.IH [of k] by (auto simp: less_Suc_eq_0_disj)
  qed
qed simp

lemma findNode_None: "findNode P kvs = None \<longleftrightarrow> (\<forall>kv \<in> set kvs. \<not> P kv)"
  by (induction kvs) auto

lemma setRaftNode_nodes [simp]:
  "kvNodes (setRaftNode i r c) = (kvNodes c)[i := (kvNodes c ! i)\<lparr>kvRaft := r\<rparr>]"
  "apiBus (setRaftNode i r c) = apiBus c"
  by (simp_all add: setRaftNode_def setKvNode_def)

lemma setRaftNode_stores: "map kvStore (kvNodes (setRaftNode i r c)) = map kvStore (kvNodes c)"
  by (cases "i < length (kvNodes c)") (simp_all add: map_update list_update_same_conv list_update_beyond)

lemma length_raftNodes [simp]: "length (raftNodes c) = length (kvNodes c)"
  by (simp add: raftNodes_def)

lemma nth_raftNodes [simp]: "i < length (kvNodes c) \<Longrightarrow> raftNodes c ! i = kvRaft (kvNodes c ! i)"
  by (simp add: raftNodes_def)

lemma respStatus_simps [simp]:
  "respStatus (writeJSON status v) = status" "respStatus (httpError status msg) = status"
  "respStatus (nodeAction k action ok) = 200" "respStatus (notLeader k) = 307"
  by (simp_all add: writeJSON_def httpError_def nodeAction_def notLeader_def)

section \<open>Node control\<close>

text \<open>The node that a path names.\<close>

definition namedNode :: "gostring \<Rightarrow> nat \<Rightarrow> nat option" where
  "namedNode seg n =
    (case Atoi seg of None \<Rightarrow> None | Some k \<Rightarrow> if 0 \<le> k \<and> k < int n then Some (nat k) else None)"

lemma namedNode_less: "namedNode seg n = Some i \<Longrightarrow> i < n"
  by (auto simp: namedNode_def split: option.splits if_splits)

lemma Atoi_Nil [simp]: "Atoi [] = None"
  by (simp add: Atoi_def)

lemma namedNode_Some_iff:
  "namedNode seg n = Some i \<longleftrightarrow> (\<exists>k. Atoi seg = Some k \<and> 0 \<le> k \<and> k < int n \<and> i = nat k)"
  by (auto simp: namedNode_def split: option.splits)

lemma namedNode_None_iff:
  "namedNode seg n = None \<longleftrightarrow> (\<forall>k. Atoi seg = Some k \<longrightarrow> k < 0 \<or> int n \<le> k)"
  by (auto simp: namedNode_def not_le not_less split: option.splits)

lemma nodesHandler_unnamed:
  assumes "parts = splitOn CHR ''/'' (TrimPrefix (rqPath rq) ''/nodes/'')"
    and "namedNode (parts ! 0) (length (kvNodes c)) = None"
  shows "\<exists>msg. nodesHandler oth rq c = (c, [], httpError 400 msg)"
  using assms(2) unfolding nodesHandler_def assms(1) [symmetric] namedNode_None_iff Let_def
  by (cases "Atoi (parts ! 0)") auto

lemma nodesHandler_named:
  assumes "parts = splitOn CHR ''/'' (TrimPrefix (rqPath rq) ''/nodes/'')"
    and "namedNode (parts ! 0) (length (kvNodes c)) = Some i"
  shows "nodesHandler oth rq c = nodeRequest oth (rqMethod rq) parts (int i) c"
proof -
  obtain k where "Atoi (parts ! 0) = Some k" "0 \<le> k" "k < int (length (kvNodes c))" "i = nat k"
    using assms(2) by (auto simp: namedNode_Some_iff)
  moreover from this(1) have "parts ! 0 \<noteq> []" by auto
  moreover from this have "parts \<noteq> []" by (simp add: assms(1))
  ultimately show ?thesis
    unfolding nodesHandler_def assms(1) [symmetric] Let_def by simp
qed

lemma nodeRequest_cases:
  "\<exists>r es a. nodeRequest oth verb parts k c \<in> {(c, [], a), (setRaftNode (nat k) r c, es, a)}
    \<and> respStatus a \<in> {200, 404, 405}"
proof -
  let ?r = "\<lambda>p a. respStatus a \<in> {200, 404, 405} \<and>
    (fst p = c \<and> fst (snd p) = [] \<or> (\<exists>r. fst p = setRaftNode (nat k) r c)) \<and> snd (snd p) = a"
  have "\<exists>a. ?r (nodeRequest oth verb parts k c) a"
    unfolding nodeRequest_def Let_def
    by (simp only: split: if_split) (simp del: setRaftNode_nodes; blast)
  then show ?thesis by (cases "nodeRequest oth verb parts k c") auto
qed

text \<open>C32. A node request never reaches outside the list of nodes: it is refused with 400, and
  changes nothing, exactly when the path segment is not a decimal number of a node (empty, not a
  number, negative, too large, beyond 64 bits); otherwise only the node it names can change,
  and no store and no event bus does.\<close>

theorem node_request_in_range:
  assumes "rqPath rq = ''/nodes/'' @ seg @ rest" and "CHR ''/'' \<notin> set seg"
    and "rest = [] \<or> hd rest = CHR ''/''" and "nodesHandler oth rq c = (c', es, a)"
  shows "(respStatus a = 400 \<longleftrightarrow> namedNode seg (length (kvNodes c)) = None)
    \<and> (respStatus a = 400 \<longrightarrow> c' = c \<and> es = [])
    \<and> (\<forall>j. namedNode seg (length (kvNodes c)) \<noteq> Some j \<longrightarrow> kvNodes c' ! j = kvNodes c ! j)
    \<and> length (kvNodes c') = length (kvNodes c)
    \<and> map kvStore (kvNodes c') = map kvStore (kvNodes c) \<and> apiBus c' = apiBus c"
proof -
  have "splitOn CHR ''/'' (seg @ rest) ! 0 = seg"
    using assms(2,3) splitOn_append [of _ seg "tl rest"] by (cases rest) (simp_all add: splitOn_plain)
  then have parts: "splitOn CHR ''/'' (TrimPrefix (rqPath rq) ''/nodes/'') ! 0 = seg"
    by (simp only: assms(1) TrimPrefix_append)
  show ?thesis
  proof (cases "namedNode seg (length (kvNodes c))")
    case None
    with nodesHandler_unnamed [OF refl, of rq c oth] parts assms(4) show ?thesis by auto
  next
    case (Some i)
    from nodesHandler_named [OF refl, of rq c i oth] parts Some assms(4)
    have "nodeRequest oth (rqMethod rq) (splitOn CHR ''/'' (TrimPrefix (rqPath rq) ''/nodes/'')) (int i) c = (c', es, a)"
      by simp
    with nodeRequest_cases [of oth "rqMethod rq" "splitOn CHR ''/'' (TrimPrefix (rqPath rq) ''/nodes/'')" "int i" c]
    have "respStatus a \<in> {200, 404, 405} \<and> (c' = c \<or> (\<exists>r. c' = setRaftNode i r c))" by auto
    with Some setRaftNode_stores [of i _ c] show ?thesis by auto
  qed
qed

lemma namedNode_showNat: "i < n \<Longrightarrow> n < 2 ^ 63 \<Longrightarrow> namedNode (showNat i) n = Some i"
  by (simp add: namedNode_def Atoi_showNat)

text \<open>Three fresh nodes and a request for one of them.\<close>

definition threeNodes :: ApiCluster where
  "threeNodes = \<lparr>kvNodes = map (\<lambda>i. kvNodeWithLog i 0 []) [0, 1, 2], apiBus = NewBus\<rparr>"

definition request :: "string \<Rightarrow> gostring \<Rightarrow> string + gostring \<Rightarrow> Request" where
  "request verb path body =
    \<lparr>rqMethod = verb, rqPath = path, rqBody = body, rqNode = [], rqCategory = []\<rparr>"

lemma request_simps [simp]:
  "rqMethod (request verb path body) = verb" "rqPath (request verb path body) = path"
  "rqBody (request verb path body) = body"
  by (simp_all add: request_def)

lemma length_threeNodes [simp]: "length (kvNodes threeNodes) = 3"
  by (simp add: threeNodes_def)

lemma node_request_in_range_witness:
  "\<exists>c' es a. nodesHandler nobody (request ''POST'' ''/nodes/3/kill'' (Inr [])) threeNodes = (c', es, a)
    \<and> respStatus a = 400 \<and> c' = threeNodes"
proof -
  let ?rq = "request ''POST'' ''/nodes/3/kill'' (Inr [])"
  have "namedNode ''3'' 3 = None" by (simp add: namedNode_def Atoi_def Let_def)
  moreover obtain c' es a where h: "nodesHandler nobody ?rq threeNodes = (c', es, a)" by (metis prod_cases3)
  ultimately show ?thesis
    using node_request_in_range [of ?rq "''3''" "''/kill''", OF _ _ _ h] by simp
qed

text \<open>A path as the dashboard builds it.\<close>

definition nodePath :: "nat \<Rightarrow> string \<Rightarrow> gostring" where
  "nodePath i action = ''/nodes/'' @ showNat i @ CHR ''/'' # action"

lemma nodesHandler_path:
  assumes "rqPath rq = nodePath i action" and "CHR ''/'' \<notin> set action"
    and "i < length (kvNodes c)" and "length (kvNodes c) < 2 ^ 63"
  shows "nodesHandler oth rq c = nodeRequest oth (rqMethod rq) [showNat i, action] (int i) c"
proof -
  have parts: "splitOn CHR ''/'' (TrimPrefix (rqPath rq) ''/nodes/'') = [showNat i, action]"
    using assms(2) by (simp only: assms(1) nodePath_def TrimPrefix_append)
      (simp add: splitOn_append showNat_no_slash splitOn_plain)
  have "namedNode ([showNat i, action] ! 0) (length (kvNodes c)) = Some i"
    using namedNode_showNat [OF assms(3,4)] by simp
  from nodesHandler_named [OF parts [symmetric], OF this] show ?thesis .
qed

lemma nodesHandler_kill:
  assumes "i < length (kvNodes c)" and "length (kvNodes c) < 2 ^ 63"
  shows "nodesHandler nobody (request ''POST'' (nodePath i ''kill'') body) c =
    (if IsStopped (raftNodes c ! i) then (c, [], nodeAction (int i) ''already_stopped'' False)
     else (setRaftNode i (fst (Stop (raftNodes c ! i))) c, snd (Stop (raftNodes c ! i)),
           nodeAction (int i) ''killed'' True))"
proof -
  have "CHR ''/'' \<notin> set ''kill''" by simp
  from nodesHandler_path [OF request_simps(2) this assms] show ?thesis
    by (simp add: nodeRequest_def nobody_def Let_def)
qed

lemma nodesHandler_restart:
  assumes "i < length (kvNodes c)" and "length (kvNodes c) < 2 ^ 63"
  shows "nodesHandler nobody (request ''POST'' (nodePath i ''restart'') body) c =
    (if \<not> IsStopped (raftNodes c ! i) then (c, [], nodeAction (int i) ''already_running'' False)
     else (setRaftNode i (fst (Restart (raftNodes c ! i))) c, snd (Restart (raftNodes c ! i)),
           nodeAction (int i) ''restarted'' True))"
proof -
  have "CHR ''/'' \<notin> set ''restart''" by simp
  from nodesHandler_path [OF request_simps(2) this assms] show ?thesis
    by (simp add: nodeRequest_def nobody_def Let_def)
qed

text \<open>C33. Kill, kill again and restart through the API, on the paths the dashboard builds: the
  first kill stops the node it names, the second says so and changes nothing, and the restart
  brings the node back with its term, log and indices, as a follower with its timer running, but
  without the vote it had cast. No other node and no store changes.\<close>

theorem kill_restart_roundtrip:
  assumes "i < length (kvNodes c)" and "length (kvNodes c) < 2 ^ 63" and "\<not> IsStopped (raftNodes c ! i)"
    and "nodesHandler nobody (request ''POST'' (nodePath i ''kill'') b1) c = (c1, es1, a1)"
    and "nodesHandler nobody (request ''POST'' (nodePath i ''kill'') b2) c1 = (c2, es2, a2)"
    and "nodesHandler nobody (request ''POST'' (nodePath i ''restart'') b3) c2 = (c3, es3, a3)"
  shows "a1 = nodeAction (int i) ''killed'' True \<and> IsStopped (raftNodes c1 ! i)
    \<and> c2 = c1 \<and> es2 = [] \<and> a2 = nodeAction (int i) ''already_stopped'' False
    \<and> a3 = nodeAction (int i) ''restarted'' True
    \<and> GoElectionTimer \<in> set es3
    \<and> c3 = setRaftNode i ((raftNodes c ! i)\<lparr>state := Follower, votedFor := -1, timerArmed := True\<rparr>) c"
proof -
  have len: "i < length (kvNodes c1)" "length (kvNodes c1) < 2 ^ 63"
    using assms(1-4) by (auto simp: nodesHandler_kill)
  have c1: "c1 = setRaftNode i (fst (Stop (raftNodes c ! i))) c" "a1 = nodeAction (int i) ''killed'' True"
    using assms(3,4) by (simp_all add: nodesHandler_kill [OF assms(1,2)])
  have stopped: "IsStopped (raftNodes c1 ! i)"
    using assms(1,3) by (simp add: c1 Stop_def IsStopped_def Let_def)
  then have c2: "c2 = c1" "es2 = []" "a2 = nodeAction (int i) ''already_stopped'' False"
    using assms(5) by (simp_all add: nodesHandler_kill [OF len])
  with assms(6) stopped
  have c3: "c3 = setRaftNode i (fst (Restart (raftNodes c1 ! i))) c1" "es3 = snd (Restart (raftNodes c1 ! i))"
    "a3 = nodeAction (int i) ''restarted'' True"
    by (simp_all add: nodesHandler_restart [OF len])
  have "fst (Restart (fst (Stop r))) = r\<lparr>state := Follower, votedFor := -1, timerArmed := True\<rparr>"
    if "\<not> stopClosed r" for r :: RaftNode
    using that by (cases r) (simp add: Stop_def Restart_def Let_def)
  then have "c3 = setRaftNode i ((raftNodes c ! i)\<lparr>state := Follower, votedFor := -1, timerArmed := True\<rparr>) c"
    using assms(1,3) by (simp add: c3 c1 setRaftNode_def setKvNode_def IsStopped_def)
  moreover have "GoElectionTimer \<in> set es3"
    using stopped by (simp add: c3 Restart_def IsStopped_def Let_def)
  ultimately show ?thesis using stopped c1 c2 c3 by blast
qed

lemma kill_restart_roundtrip_witness:
  "\<exists>c1 es1 a1 c3 es3 a3.
     nodesHandler nobody (request ''POST'' (nodePath 1 ''kill'') (Inr [])) threeNodes = (c1, es1, a1)
   \<and> nodesHandler nobody (request ''POST'' (nodePath 1 ''restart'') (Inr [])) c1 = (c3, es3, a3)
   \<and> IsStopped (raftNodes c1 ! 1) \<and> \<not> IsStopped (raftNodes c3 ! 1)"
proof -
  have run: "\<not> IsStopped (raftNodes threeNodes ! 1)"
    by (simp add: threeNodes_def IsStopped_def nodeWithLog_def NewRaftNode_def)
  obtain c1 es1 a1 c2 es2 a2 c3 es3 a3 where h:
    "nodesHandler nobody (request ''POST'' (nodePath 1 ''kill'') (Inr [])) threeNodes = (c1, es1, a1)"
    "nodesHandler nobody (request ''POST'' (nodePath 1 ''kill'') (Inr [])) c1 = (c2, es2, a2)"
    "nodesHandler nobody (request ''POST'' (nodePath 1 ''restart'') (Inr [])) c2 = (c3, es3, a3)"
    by (metis prod_cases3)
  have "IsStopped (raftNodes c1 ! 1)" "c2 = c1"
    "c3 = setRaftNode 1 ((raftNodes threeNodes ! 1)\<lparr>state := Follower, votedFor := -1, timerArmed := True\<rparr>) threeNodes"
    using kill_restart_roundtrip [OF _ _ run h] by simp_all
  moreover from this(3) run have "\<not> IsStopped (raftNodes c3 ! 1)" by (simp add: IsStopped_def)
  ultimately show ?thesis using h(1,3) by blast
qed

section \<open>Writes\<close>

text \<open>A node that a PUT may be handed to: alive and, as far as it knows, the leader.\<close>

definition liveLeader :: "KVNode \<Rightarrow> bool" where
  "liveLeader kv \<longleftrightarrow> \<not> IsStopped (kvRaft kv) \<and> GetState (kvRaft kv) = Leader"

definition putAnswer :: "gostring \<Rightarrow> gostring \<Rightarrow> int \<Rightarrow> uint64 \<Rightarrow> Response" where
  "putAnswer key val leader index =
    writeJSON 200 (JObject [(''key'', JString key), (''value'', JString val),
      (''accepted'', JBool True), (''leader_id'', JNumber leader), (''log_index'', JNumber (uint index))])"

lemma handleGet_same:
  "map (\<lambda>kv. (IsStopped (kvRaft kv), data (kvStore kv))) kvs = map (\<lambda>kv. (IsStopped (kvRaft kv), data (kvStore kv))) kvs'
    \<Longrightarrow> handleGet kvs key = handleGet kvs' key"
proof (induction kvs arbitrary: kvs')
  case (Cons kv kvs)
  then obtain kv' ks where kvs': "kvs' = kv' # ks" by auto
  with Cons.prems have "kvGet key kv = kvGet key kv'" "handleGet kvs key = handleGet ks key"
    "IsStopped (kvRaft kv) = IsStopped (kvRaft kv')"
    by (auto simp: kvGet_def storeGet_def intro!: Cons.IH)
  then show ?case by (simp add: kvs')
qed simp

lemma handleGet_setRaftNode:
  assumes "i < length (kvNodes c)" and "stopClosed r = stopClosed (kvRaft (kvNodes c ! i))"
  shows "handleGet (kvNodes (setRaftNode i r c)) key = handleGet (kvNodes c) key"
  using assms by (intro handleGet_same) (auto simp: map_update IsStopped_def intro: list_update_same_conv [THEN iffD2])

text \<open>A node with one more entry in its log.\<close>

definition withEntry :: "Command \<Rightarrow> RaftNode \<Rightarrow> RaftNode" where
  "withEntry cmd r = r\<lparr>raftLog := (raftLog r)\<lparr>Entries := Entries (raftLog r) @
     [\<lparr>entryIndex = word_of_nat (Suc (length (Entries (raftLog r)))), entryTerm = currentTerm r,
       entryCommand = cmd\<rparr>]\<rparr>\<rparr>"

lemma kvSet_leader:
  assumes "GetState (kvRaft n) = Leader" and "logWf (raftLog (kvRaft n))"
  shows "\<exists>es. kvSet k v id n = (n\<lparr>kvRaft := withEntry (setCmd k v) (kvRaft n)\<rparr>, es, True,
      leaderID (kvRaft n), word_of_nat (Suc (length (Entries (raftLog (kvRaft n)))))) \<and> callsOf es = []"
  using assms
  by (auto simp: kvSet_def kvSubmit_def Start_def logAppend_def LastIndex_wf Let_def LeaderID_def
      GetState_def withEntry_def setCmd_def add.commute)

lemma kvSet_not_leader:
  "GetState (kvRaft n) \<noteq> Leader \<Longrightarrow> kvSet k v id n = (n, [], False, leaderID (kvRaft n), 0)"
  by (simp add: kvSet_def kvSubmit_def Start_def LeaderID_def GetState_def)

lemma kvHandler_put:
  assumes "rqPath rq = ''/kv/'' @ key" and "key \<noteq> []" and "rqMethod rq = ''PUT''" and "rqBody rq = Inr val"
  shows "kvHandler nobody rq c =
    (case findNode liveLeader (kvNodes c) of
       Some i \<Rightarrow> handlePut nobody i key rq c
     | None \<Rightarrow>
         (case findNode (\<lambda>kv. \<not> IsStopped (kvRaft kv)) (kvNodes c) of
            Some i \<Rightarrow> handlePut nobody i key rq c
          | None \<Rightarrow> (c, [], httpError 503 ''no alive nodes'')))"
proof -
  have "liveLeader = (\<lambda>kv. \<not> IsStopped (kvRaft kv) \<and> GetState (kvRaft kv) = Leader)"
    by (simp add: fun_eq_iff liveLeader_def)
  moreover have "TrimPrefix (rqPath rq) ''/kv/'' = key" by (simp only: assms(1) TrimPrefix_append)
  ultimately show ?thesis
    using assms(2,3)
    by (simp add: kvHandler_def findLeaderKVNode_def findAnyAliveKVNode_def nobody_def split: option.splits)
qed

text \<open>A PUT with and without a leader that runs.\<close>

lemma put_with_leader:
  assumes "rqPath rq = ''/kv/'' @ key" and "key \<noteq> []" and "rqMethod rq = ''PUT''" and "rqBody rq = Inr val"
    and "kvHandler nobody rq c = (c', es, a)" and "findNode liveLeader (kvNodes c) = Some i"
    and "logWf (raftLog (kvRaft (kvNodes c ! i)))"
  shows "c' = setRaftNode i (withEntry (setCmd key val) (kvRaft (kvNodes c ! i))) c"
    and "a = putAnswer key val (leaderID (kvRaft (kvNodes c ! i)))
      (word_of_nat (Suc (length (Entries (raftLog (kvRaft (kvNodes c ! i)))))))"
    and "callsOf es = []"
proof -
  let ?n = "kvNodes c ! i"
  have "GetState (kvRaft ?n) = Leader" using assms(6) by (simp add: findNode_Some liveLeader_def)
  from kvSet_leader [OF this assms(7)] obtain es0 where
    set: "kvSet key val id ?n = (?n\<lparr>kvRaft := withEntry (setCmd key val) (kvRaft ?n)\<rparr>, es0, True,
      leaderID (kvRaft ?n), word_of_nat (Suc (length (Entries (raftLog (kvRaft ?n))))))" "callsOf es0 = []" by blast
  have "c' = setRaftNode i (withEntry (setCmd key val) (kvRaft ?n)) c \<and> es = es0
      \<and> a = putAnswer key val (leaderID (kvRaft ?n)) (word_of_nat (Suc (length (Entries (raftLog (kvRaft ?n))))))"
    using assms(5) unfolding kvHandler_put [OF assms(1-4)] assms(6) handlePut_def assms(4)
    by (simp add: nobody_def set(1) setRaftNode_def putAnswer_def)
  with set(2) show "c' = setRaftNode i (withEntry (setCmd key val) (kvRaft ?n)) c" "callsOf es = []"
    "a = putAnswer key val (leaderID (kvRaft ?n)) (word_of_nat (Suc (length (Entries (raftLog (kvRaft ?n))))))"
    by blast+
qed

lemma put_without_leader:
  assumes "rqPath rq = ''/kv/'' @ key" and "key \<noteq> []" and "rqMethod rq = ''PUT''" and "rqBody rq = Inr val"
    and "kvHandler nobody rq c = (c', es, a)" and "findNode liveLeader (kvNodes c) = None"
  shows "c' = c \<and> es = [] \<and> (if \<forall>kv \<in> set (kvNodes c). IsStopped (kvRaft kv) then a = httpError 503 ''no alive nodes''
    else \<exists>i < length (kvNodes c). (\<forall>j < i. IsStopped (kvRaft (kvNodes c ! j)))
      \<and> \<not> IsStopped (kvRaft (kvNodes c ! i)) \<and> a = notLeader (leaderID (kvRaft (kvNodes c ! i))))"
proof (cases "findNode (\<lambda>kv. \<not> IsStopped (kvRaft kv)) (kvNodes c)")
  case (Some i)
  let ?n = "kvNodes c ! i"
  from Some have i: "i < length (kvNodes c)" "\<not> IsStopped (kvRaft ?n)"
    "\<forall>j < i. IsStopped (kvRaft (kvNodes c ! j))" by (simp_all add: findNode_Some)
  then have "GetState (kvRaft ?n) \<noteq> Leader" using assms(6) nth_mem [OF i(1)] by (auto simp: findNode_None liveLeader_def)
  from kvSet_not_leader [OF this] have "c' = setKvNode i ?n c" "es = []" "a = notLeader (leaderID (kvRaft ?n))"
    using assms(5) unfolding kvHandler_put [OF assms(1-4)] assms(6) Some handlePut_def assms(4)
    by (simp_all add: nobody_def)
  moreover have "setKvNode i ?n c = c" by (simp add: setKvNode_def)
  ultimately show ?thesis using i nth_mem [OF i(1)] by auto
next
  case none: None
  then have "\<forall>kv \<in> set (kvNodes c). IsStopped (kvRaft kv)" by (simp add: findNode_None)
  moreover have "c' = c" "es = []" "a = httpError 503 ''no alive nodes''"
    using assms(5) unfolding kvHandler_put [OF assms(1-4)] assms(6) none by simp_all
  ultimately show ?thesis by simp
qed

text \<open>C14. What a PUT is answered. With a live node that takes itself for the leader, the first one
  in the list gets exactly one more log entry, of its term, uncommitted, and the answer is
  "accepted" with that entry's index; no other node and no store changes, so a GET right after
  the accepted PUT answers as before it. Without such a node nothing changes, and the answer
  is a redirect to the leader that the first live node knows, or 503 when none is alive.\<close>

theorem put_answered_before_commit:
  assumes "rqPath rq = ''/kv/'' @ key" and "key \<noteq> []" and "rqMethod rq = ''PUT''" and "rqBody rq = Inr val"
    and "\<forall>kv \<in> set (kvNodes c). logWf (raftLog (kvRaft kv))"
    and "kvHandler nobody rq c = (c', es, a)"
  shows "((\<exists>i < length (kvNodes c). liveLeader (kvNodes c ! i) \<and> (\<forall>j < i. \<not> liveLeader (kvNodes c ! j))
        \<and> c' = setRaftNode i (withEntry (setCmd key val) (kvRaft (kvNodes c ! i))) c
        \<and> a = putAnswer key val (leaderID (kvRaft (kvNodes c ! i)))
            (word_of_nat (Suc (length (Entries (raftLog (kvRaft (kvNodes c ! i))))))))
      \<or> ((\<forall>kv \<in> set (kvNodes c). \<not> liveLeader kv) \<and> c' = c
        \<and> (if \<forall>kv \<in> set (kvNodes c). IsStopped (kvRaft kv) then a = httpError 503 ''no alive nodes''
           else \<exists>i < length (kvNodes c). (\<forall>j < i. IsStopped (kvRaft (kvNodes c ! j)))
             \<and> \<not> IsStopped (kvRaft (kvNodes c ! i)) \<and> a = notLeader (leaderID (kvRaft (kvNodes c ! i))))))
    \<and> handleGet (kvNodes c') k = handleGet (kvNodes c) k \<and> callsOf es = []"
proof (cases "findNode liveLeader (kvNodes c)")
  case (Some i)
  then have i: "i < length (kvNodes c)" "liveLeader (kvNodes c ! i)" "\<forall>j < i. \<not> liveLeader (kvNodes c ! j)"
    by (simp_all add: findNode_Some)
  have "logWf (raftLog (kvRaft (kvNodes c ! i)))" using i(1) assms(5) by simp
  note put = put_with_leader [OF assms(1-4,6) Some this]
  have "handleGet (kvNodes c') k = handleGet (kvNodes c) k"
    unfolding put(1) by (rule handleGet_setRaftNode [OF i(1)]) (simp add: withEntry_def)
  with i put show ?thesis by blast
next
  case None
  then have "\<forall>kv \<in> set (kvNodes c). \<not> liveLeader kv" by (simp add: findNode_None)
  with put_without_leader [OF assms(1-4,6) None] show ?thesis by simp
qed

text \<open>Three nodes, the second of which leads.\<close>

definition secondLeads :: ApiCluster where
  "secondLeads = setRaftNode 1 ((nodeWithLog 1 1 [])\<lparr>state := Leader, leaderID := 1\<rparr>) threeNodes"

lemma put_answered_before_commit_witness:
  "\<exists>c' es. kvHandler nobody (request ''PUT'' ''/kv/k'' (Inr ''v'')) secondLeads = (c', es, putAnswer ''k'' ''v'' 1 1)
    \<and> handleGet (kvNodes c') ''k'' = httpError 404 ''key not found''"
proof -
  let ?rq = "request ''PUT'' ''/kv/k'' (Inr ''v'')"
  obtain c' es a where h: "kvHandler nobody ?rq secondLeads = (c', es, a)" by (metis prod_cases3)
  have wf: "\<forall>kv \<in> set (kvNodes secondLeads). logWf (raftLog (kvRaft kv))"
    by (simp add: secondLeads_def threeNodes_def logWf_def)
  have "kvNodes secondLeads = [kvNodeWithLog 0 0 [],
      (kvNodeWithLog 1 0 [])\<lparr>kvRaft := (nodeWithLog 1 1 [])\<lparr>state := Leader, leaderID := 1\<rparr>\<rparr>, kvNodeWithLog 2 0 []]"
    by (simp add: secondLeads_def threeNodes_def)
  then have led: "\<not> liveLeader (kvNodes secondLeads ! 0)" "liveLeader (kvNodes secondLeads ! 1)"
      "\<not> liveLeader (kvNodes secondLeads ! 2)" "length (kvNodes secondLeads) = 3"
    and n1: "leaderID (kvRaft (kvNodes secondLeads ! 1)) = 1" "Entries (raftLog (kvRaft (kvNodes secondLeads ! 1))) = []"
    and get: "handleGet (kvNodes secondLeads) ''k'' = httpError 404 ''key not found''"
    by (simp_all add: liveLeader_def GetState_def IsStopped_def nodeWithLog_def NewRaftNode_def kvGet_def storeGet_def)
  from led(2,4) have "\<not> (\<forall>kv \<in> set (kvNodes secondLeads). \<not> liveLeader kv)" by (metis nth_mem one_less_numeral_iff semiring_norm(77))
  with put_answered_before_commit [OF _ _ _ _ wf h, of "''k''" "''v''" "''k''"] obtain i where
    i: "i < 3" "liveLeader (kvNodes secondLeads ! i)"
      "a = putAnswer ''k'' ''v'' (leaderID (kvRaft (kvNodes secondLeads ! i)))
            (word_of_nat (Suc (length (Entries (raftLog (kvRaft (kvNodes secondLeads ! i)))))))"
    and same: "handleGet (kvNodes c') ''k'' = handleGet (kvNodes secondLeads) ''k''"
    using led(4) by auto
  from i(1) consider "i = 0" | "i = 1" | "i = 2" by linarith
  then have "i = 1" using i(2) led(1,3) by cases simp_all
  with i(3) n1 have "a = putAnswer ''k'' ''v'' 1 1" by simp
  with h same get show ?thesis by simp
qed

section \<open>The event stream\<close>

lemma Subscribe_simps:
  "subscribers (snd (Subscribe b)) = subscribers b @ [nextPtr b]"
  "chans (snd (Subscribe b)) (nextPtr b) = Some ([], False)"
  "recent (snd (Subscribe b)) = recent b" "maxRecent (snd (Subscribe b)) = maxRecent b"
  by (simp_all add: Subscribe_def Let_def)

text \<open>The stream against a counter: of what is published while the client stays, the events that
  found fewer than 256 waiting, and how many wait at the end, when each turn takes one.\<close>

fun accepted :: "nat \<Rightarrow> SseStep list \<Rightarrow> Event list" where
  "accepted n [] = []"
| "accepted n (OtherPublishes now e # steps) =
    (if n < 256 then stamped now e # accepted (Suc n) steps else accepted n steps)"
| "accepted n (LoopTurn clientGone # steps) = accepted (n - 1) steps"
| "accepted n (_ # steps) = accepted n steps"

fun backlog :: "nat \<Rightarrow> SseStep list \<Rightarrow> nat" where
  "backlog n [] = n"
| "backlog n (OtherPublishes now e # steps) = backlog (if n < 256 then Suc n else n) steps"
| "backlog n (LoopTurn clientGone # steps) = backlog (n - 1) steps"
| "backlog n (_ # steps) = backlog n steps"

fun publishedIn :: "SseStep list \<Rightarrow> Event list" where
  "publishedIn [] = []"
| "publishedIn (OtherPublishes now e # steps) = stamped now e # publishedIn steps"
| "publishedIn (_ # steps) = publishedIn steps"

text \<open>The reader keeps up: never are 256 events waiting when one is published.\<close>

fun keepsUp :: "nat \<Rightarrow> SseStep list \<Rightarrow> bool" where
  "keepsUp n [] \<longleftrightarrow> True"
| "keepsUp n (OtherPublishes now e # steps) \<longleftrightarrow> n < 256 \<and> keepsUp (Suc n) steps"
| "keepsUp n (LoopTurn clientGone # steps) \<longleftrightarrow> keepsUp (n - 1) steps"
| "keepsUp n (_ # steps) \<longleftrightarrow> keepsUp n steps"

lemma accepted_keepsUp: "keepsUp n steps \<Longrightarrow> accepted n steps = publishedIn steps"
  by (induction n steps rule: keepsUp.induct) simp_all

text \<open>The client stays, and nobody else uses its channel.\<close>

fun leavesAlone :: "SubPtr \<Rightarrow> SseStep \<Rightarrow> bool" where
  "leavesAlone sub (LoopTurn clientGone) \<longleftrightarrow> \<not> clientGone"
| "leavesAlone sub (OtherLeaves s) \<longleftrightarrow> s \<noteq> sub"
| "leavesAlone sub (OtherReceives s) \<longleftrightarrow> s \<noteq> sub"
| "leavesAlone sub _ \<longleftrightarrow> True"

text \<open>The channel of one subscriber, open, with \<open>buf\<close> waiting.\<close>

definition holds :: "SubPtr \<Rightarrow> Event list \<Rightarrow> Bus \<Rightarrow> bool" where
  "holds sub buf b \<longleftrightarrow> busWf b \<and> sub \<in> set (subscribers b) \<and> chans b sub = Some (buf, False)"

lemma holds_publish:
  assumes "holds sub buf b"
  shows "\<exists>b'. Publish now e b = Some b' \<and> holds sub (offered (stamped now e) buf) b'"
  using Publish_wf [of b now e] assms by (auto simp: holds_def)

lemma holds_subscribe: "holds sub buf b \<Longrightarrow> holds sub buf (snd (Subscribe b))"
  using busWf_subscribe [of b] by (auto simp: holds_def busWf_def Subscribe_def Let_def)

lemma holds_unsubscribe: "holds sub buf b \<Longrightarrow> s \<noteq> sub \<Longrightarrow> holds sub buf (Unsubscribe s b)"
  using busWf_unsubscribe [of b s] by (auto simp: holds_def Unsubscribe_def)

lemma holds_receive_other:
  assumes "holds sub buf b" and "s \<noteq> sub"
  shows "holds sub buf (case receive s b of None \<Rightarrow> b | Some (e, b1) \<Rightarrow> b1)"
proof (cases "receive s b")
  case None
  then show ?thesis using assms(1) by simp
next
  case (Some eb)
  obtain e b1 where r: "receive s b = Some (e, b1)" using Some by (cases eb) simp
  have "busWf b1" using busWf_receive [OF _ r] assms(1) by (simp add: holds_def)
  with r assms show ?thesis by (auto simp: holds_def elim!: receiveE)
qed

lemma sseTurn_holds:
  assumes "holds sub buf b"
  shows "case buf of
      [] \<Rightarrow> sseTurn False nf cf sub b = (SseWait, b)
    | e # es \<Rightarrow> \<exists>b1. sseTurn False nf cf sub b = (SseGoOn (filter (matchesFilter nf cf) [e]), b1) \<and> holds sub es b1"
proof (cases buf)
  case Nil
  then show ?thesis using assms by (simp add: sseTurn_def receive_def holds_def)
next
  case (Cons e es)
  let ?b = "b\<lparr>chans := (chans b)(sub \<mapsto> (es, False))\<rparr>"
  have r: "receive sub b = Some (e, ?b)" using assms Cons by (simp add: receive_def holds_def)
  with busWf_receive [OF _ r] assms have "holds sub es ?b" by (simp add: holds_def)
  with r Cons show ?thesis by (simp add: sseTurn_def)
qed

lemma sseRun_holds:
  assumes "holds sub buf b" and "\<forall>st \<in> set steps. leavesAlone sub st"
  shows "\<exists>later b' buf'. sseRun nf cf sub steps b = Some (later, b') \<and> holds sub buf' b'
    \<and> length buf' = backlog (length buf) steps
    \<and> later @ filter (matchesFilter nf cf) buf'
      = filter (matchesFilter nf cf) (buf @ accepted (length buf) steps)"
  using assms
proof (induction steps arbitrary: buf b)
  case Nil
  then show ?case by auto
next
  case (Cons st steps)
  note IH = Cons.IH [OF _ ballI]
  have rest: "leavesAlone sub st" "\<And>x. x \<in> set steps \<Longrightarrow> leavesAlone sub x" using Cons.prems(2) by auto
  show ?case
  proof (cases st)
    case (LoopTurn gone)
    show ?thesis
    proof (cases buf)
      case Nil
      then show ?thesis
        using sseTurn_holds [OF Cons.prems(1), of nf cf] IH [OF Cons.prems(1) rest(2)] LoopTurn rest(1) by simp
    next
      case (Cons e es)
      then obtain b1 where t: "sseTurn False nf cf sub b = (SseGoOn (filter (matchesFilter nf cf) [e]), b1)"
        and h: "holds sub es b1"
        using sseTurn_holds [OF Cons.prems(1), of nf cf] by auto
      from IH [OF h rest(2)] show ?thesis using t Cons LoopTurn rest(1) by auto
    qed
  next
    case (OtherPublishes now e)
    obtain b1 where p: "Publish now e b = Some b1" and h: "holds sub (offered (stamped now e) buf) b1"
      using holds_publish [OF Cons.prems(1)] by blast
    from IH [OF h rest(2)] show ?thesis
      using p OtherPublishes by (auto simp: offered_def subCap_def)
  next
    case OtherJoins
    then show ?thesis using IH [OF holds_subscribe [OF Cons.prems(1)] rest(2)] by simp
  next
    case (OtherLeaves s)
    then show ?thesis using IH [OF holds_unsubscribe [OF Cons.prems(1)] rest(2)] rest(1) by simp
  next
    case (OtherReceives s)
    then show ?thesis using IH [OF holds_receive_other [OF Cons.prems(1)] rest(2)] rest(1) by simp
  qed
qed

text \<open>C34. What a stream carries, for every interleaving of the handler's loop with publications
  and with other clients, as long as the client stays and its channel is left to it; a publication
  runs whole (what an Unsubscribe between its two halves does is in \<open>Events\<close>). The handler
  subscribes, \<open>es1\<close> is published, the handler writes the matching part of the recent window,
  and then \<open>steps\<close> happen. Nothing panics, and what the client has been sent, followed by the
  matching part of what still waits in its channel, is exactly the matching part of: the window
  (the last events before the window is read), the first 256 of \<open>es1\<close>, and every later event
  that found fewer than 256 waiting, in the order of publication. One turn takes one waiting
  event, so after as many turns as events waited all of them are sent; and if never 256 wait
  when one of the later events is published, none of them is missing. An event of \<open>es1\<close> is in
  the window and in the channel, so the client gets it twice.\<close>

theorem sse_stream_events:
  assumes "busWf (apiBus c)"
    and "publishAll es1 (snd (Subscribe (apiBus c))) = Some b1"
    and "sseHandler True (nobody\<lparr>beforeOperation := \<lambda>x. x\<lparr>apiBus := b1\<rparr>\<rparr>) rq c = (c', es, a)"
    and "respBody a = EventStream sub written"
    and "\<forall>st \<in> set steps. leavesAlone sub st"
  shows "\<exists>later b2 waiting.
    sseRun (rqNode rq) (rqCategory rq) sub steps (apiBus c') = Some (later, b2)
    \<and> chans b2 sub = Some (waiting, False)
    \<and> length waiting = backlog (min 256 (length es1)) steps
    \<and> written @ later @ filter (matchesFilter (rqNode rq) (rqCategory rq)) waiting
      = filter (matchesFilter (rqNode rq) (rqCategory rq))
          (lastN (maxRecent (apiBus c)) (recent (apiBus c) @ stampedAll es1)
           @ take 256 (stampedAll es1) @ accepted (min 256 (length es1)) steps)
    \<and> (keepsUp (min 256 (length es1)) steps \<longrightarrow>
        accepted (min 256 (length es1)) steps = publishedIn steps)"
proof -
  let ?m = "matchesFilter (rqNode rq) (rqCategory rq)" and ?b = "apiBus c"
  let ?s = "nextPtr ?b" and ?joined = "snd (Subscribe ?b)"
  have b0: "?s \<in> set (subscribers ?joined)" "recent ?joined = recent ?b" "maxRecent ?joined = maxRecent ?b"
    "chans ?joined ?s = Some ([], False)" by (simp_all add: Subscribe_simps)
  obtain b1' where pub: "publishAll es1 ?joined = Some b1'" and b1': "busWf b1'" "subscribers b1' = subscribers ?joined"
    "recent b1' = lastN (maxRecent ?joined) (recent ?joined @ stampedAll es1)"
    "\<forall>sub buf. sub \<in> set (subscribers ?joined) \<longrightarrow> chans ?joined sub = Some (buf, False) \<longrightarrow>
      chans b1' sub = Some (take subCap (buf @ stampedAll es1), False)"
    using publishAll_wf [OF busWf_subscribe [OF assms(1)], of es1] by blast
  have "b1' = b1" using pub assms(2) by simp
  note b1 = b1' [unfolded this]
  have h: "c' = c\<lparr>apiBus := b1\<rparr>" "sub = ?s" "written = filter ?m (recent b1)"
    using assms(3,4) by (auto simp: sseHandler_def Subscribe_def Recent_def Let_def)
  have "holds sub (take 256 (stampedAll es1)) b1"
    using b1(4) [rule_format, OF b0(1,4)] b1(1,2) b0(1) h(2) by (simp add: holds_def subCap_def)
  from sseRun_holds [OF this assms(5), of "rqNode rq" "rqCategory rq"] obtain later b2 buf where
    r: "sseRun (rqNode rq) (rqCategory rq) sub steps b1 = Some (later, b2)" "holds sub buf b2"
      "length buf = backlog (min 256 (length es1)) steps"
      "later @ filter ?m buf = filter ?m (take 256 (stampedAll es1) @ accepted (min 256 (length es1)) steps)"
    by (auto simp: min.commute)
  have "written @ later @ filter ?m buf = filter ?m (recent b1 @ take 256 (stampedAll es1)
      @ accepted (min 256 (length es1)) steps)"
    unfolding h(3) r(4) by simp
  with r(1-3) accepted_keepsUp show ?thesis
    by (intro exI [of _ later] exI [of _ b2] exI [of _ buf]) (simp add: h(1) holds_def b1(3) b0(2,3))
qed

text \<open>An event between Subscribe and Recent, two turns, two more events and another client.\<close>

definition aStream :: "SseStep list" where
  "aStream = [LoopTurn False, OtherPublishes 8 tick, OtherJoins, LoopTurn False, OtherPublishes 9 tick,
     LoopTurn False, LoopTurn False]"

lemma sse_stream_events_witness:
  "\<exists>b1 c' es a written later b2. publishAll [(7, tick)] (snd (Subscribe NewBus)) = Some b1
    \<and> sseHandler True (nobody\<lparr>beforeOperation := \<lambda>x. x\<lparr>apiBus := b1\<rparr>\<rparr>)
        (request ''GET'' ''/events'' (Inr [])) threeNodes = (c', es, a)
    \<and> respBody a = EventStream 0 written \<and> sseRun [] [] 0 aStream (apiBus c') = Some (later, b2)
    \<and> written @ later = [stamped 7 tick, stamped 7 tick, stamped 8 tick, stamped 9 tick]"
proof -
  let ?rq = "request ''GET'' ''/events'' (Inr [])"
  have bus: "apiBus threeNodes = NewBus" by (simp add: threeNodes_def)
  have wf: "busWf (apiBus threeNodes)" by (simp add: bus busWf_new)
  obtain b1 where b1: "publishAll [(7, tick)] (snd (Subscribe NewBus)) = Some b1" "busWf b1"
    using publishAll_wf [OF busWf_subscribe [OF busWf_new], of "[(7, tick)]"] by blast
  let ?oth = "nobody\<lparr>beforeOperation := \<lambda>x. x\<lparr>apiBus := b1\<rparr>\<rparr>"
  obtain c' es a where h: "sseHandler True ?oth ?rq threeNodes = (c', es, a)" by (metis prod_cases3)
  obtain written where w: "respBody a = EventStream 0 written"
    using h by (auto simp: sseHandler_def Subscribe_def bus NewBus_def Let_def)
  have q: "rqNode ?rq = []" "rqCategory ?rq = []" by (simp_all add: request_def)
  have alone: "\<forall>st \<in> set aStream. leavesAlone 0 st" by (simp add: aStream_def)
  have all: "matchesFilter [] [] = (\<lambda>e. True)" by (simp add: fun_eq_iff matchesFilter_def)
  have pub: "publishAll [(7, tick)] (snd (Subscribe (apiBus threeNodes))) = Some b1"
    using b1(1) by (simp add: bus)
  have counts: "accepted (Suc 0) aStream = [stamped 8 tick, stamped 9 tick]"
      "publishedIn aStream = [stamped 8 tick, stamped 9 tick]" "backlog (Suc 0) aStream = 0"
    by (simp_all add: aStream_def)
  have window: "lastN (maxRecent NewBus) (recent NewBus @ [stamped 7 tick]) = [stamped 7 tick]"
    by (simp add: NewBus_def lastN_def)
  obtain later b2 where "sseRun [] [] 0 aStream (apiBus c') = Some (later, b2)"
    "written @ later = [stamped 7 tick, stamped 7 tick, stamped 8 tick, stamped 9 tick]"
    using sse_stream_events [OF wf pub h w alone] by (auto simp: q all counts bus window)
  with b1(1) h w show ?thesis by blast
qed

end
