(* ===== verification/Server.thy ===== *)
theory Server
  imports Http_Proofs
begin

text \<open>
  The process (cmd/server/main.go): it opens one write-ahead log per node, replays each into a
  store, builds the Raft nodes, the KV nodes, the event bus and the HTTP handler, and on a signal
  stops the nodes and closes the logs. The theorem is about a process restart: what the three
  files bring back, and what they do not.
\<close>

section \<open>Boot\<close>

definition numNodes :: nat where
  "numNodes = 3"

definition walPath :: "nat \<Rightarrow> string" where
  "walPath i = ''data/node-'' @ showNat i @ ''.wal''"

definition raftAddress :: "nat \<Rightarrow> string" where
  "raftAddress i = ''http://localhost:'' @ showNat (9000 + i)"

definition peersMap :: "(int \<times> string) list" where
  "peersMap = map (\<lambda>i. (int i, raftAddress i)) [0..<numNodes]"

text \<open>The loop over the nodes: open the log, replay it. The first error ends the process. What
  opening a path gives is an input.\<close>

fun bootStores :: "(string \<Rightarrow> error + FileState) \<Rightarrow> nat list \<Rightarrow> error + Store list" where
  "bootStores opened [] = Inr []"
| "bootStores opened (i # is) =
    (case Open (opened (walPath i)) of
       Inl e \<Rightarrow> Inl e
     | Inr w \<Rightarrow>
         (case newStore w of
            Inl e \<Rightarrow> Inl e
          | Inr s \<Rightarrow>
              (case bootStores opened is of Inl e \<Rightarrow> Inl e | Inr ss \<Rightarrow> Inr (s # ss))))"

text \<open>One Raft node, in the order of main: the bus, the peers, the transport; then the KV node,
  which installs \<open>applyFunc\<close>, and the election timer starts.\<close>

definition bootKVNode :: "nat \<Rightarrow> Store \<Rightarrow> KVNode" where
  "bootKVNode i s =
    NewKVNode (SetTransport (Some i) (SetPeers peersMap (SetEventBus (Some 0) (NewRaftNode (int i))))) s"

definition boot :: "error option \<Rightarrow> (string \<Rightarrow> error + FileState) \<Rightarrow> error + ApiCluster" where
  "boot mkdirError opened =
    (case mkdirError of
       Some e \<Rightarrow> Inl e
     | None \<Rightarrow>
         (case bootStores opened [0..<numNodes] of
            Inl e \<Rightarrow> Inl e
          | Inr ss \<Rightarrow> Inr \<lparr>kvNodes = map (\<lambda>(i, s). bootKVNode i s) (enumerate 0 ss), apiBus = NewBus\<rparr>))"

text \<open>The Raft servers, by the address the peers know them under.\<close>

definition raftServers :: "string \<rightharpoonup> int" where
  "raftServers = map_of (map (\<lambda>(p, a). (a, p)) peersMap)"

text \<open>The handler of port 8080. With a frontend directory, the API's patterns go to the API
  handler and every other path to the file server (\<open>files\<close>), under a second CorsWrap.\<close>

definition mainHandler ::
  "(gostring \<Rightarrow> Response) option \<Rightarrow> bool \<Rightarrow> Others \<Rightarrow> Request \<Rightarrow> ApiCluster \<Rightarrow>
    ApiCluster \<times> Effect list \<times> Response" where
  "mainHandler frontend canFlush oth =
    (case frontend of
       None \<Rightarrow> NewHandler canFlush oth
     | Some files \<Rightarrow> CorsWrap (\<lambda>rq c.
         if route (rqPath rq) = None then (c, [], files (rqPath rq)) else NewHandler canFlush oth rq c))"

section \<open>Shutdown\<close>

definition stopAll :: "KVNode list \<Rightarrow> KVNode list \<times> Effect list" where
  "stopAll kvs =
    (map (\<lambda>kv. kv\<lparr>kvRaft := fst (Stop (kvRaft kv))\<rparr>) kvs,
     concat (map (\<lambda>kv. snd (Stop (kvRaft kv))) kvs))"

text \<open>Closing the logs in order, whatever their errors; \<open>None\<close> when a Close does not return.\<close>

fun closeAll :: "KVNode list \<Rightarrow> (KVNode list \<times> error option list) option" where
  "closeAll [] = Some ([], [])"
| "closeAll (kv # kvs) =
    (case Close (wal (kvStore kv)) of
       None \<Rightarrow> None
     | Some (e, w) \<Rightarrow>
         (case closeAll kvs of
            None \<Rightarrow> None
          | Some (kvs', es) \<Rightarrow> Some (kv\<lparr>kvStore := (kvStore kv)\<lparr>wal := w\<rparr>\<rparr> # kvs', e # es)))"

definition shutdown :: "ApiCluster \<Rightarrow> (ApiCluster \<times> Effect list \<times> error option list) option" where
  "shutdown c =
    (case stopAll (kvNodes c) of
       (kvs, es) \<Rightarrow>
         (case closeAll kvs of
            None \<Rightarrow> None
          | Some (kvs', errs) \<Rightarrow> Some (c\<lparr>kvNodes := kvs'\<rparr>, es, errs)))"

section \<open>Lemmas\<close>

lemma peersMap_eq: "peersMap = peers3"
  by (simp add: peersMap_def raftAddress_def peers3_def numNodes_def upt_conv_Cons showNat.simps)
     code_simp

lemma bootKVNode_raft: "kvRaft (bootKVNode i s) = bootNode peers3 (int i)" "kvStore (bootKVNode i s) = s"
  by (simp_all add: bootKVNode_def bootNode_def NewKVNode_def peersMap_eq)

lemma bootStores_ready:
  "\<forall>i \<in> set is. storeReady (f i) \<and> opened (walPath i) = Inr (walFile (wal (f i))) \<Longrightarrow>
    \<exists>ss. bootStores opened is = Inr ss \<and> list_all2 (\<lambda>i t. storeReady t \<and> data t = data (f i)) is ss"
proof (induction "is")
  case (Cons i "is")
  then obtain w t where t: "Open (opened (walPath i)) = Inr w" "newStore w = Inr t" "storeReady t"
    "data t = data (f i)" using reopen_ready [of "f i"] by auto
  from Cons obtain ss where "bootStores opened is = Inr ss"
    "list_all2 (\<lambda>i t. storeReady t \<and> data t = data (f i)) is ss" by auto
  with t show ?case by simp
qed simp

definition nodeFile :: "KVNode \<Rightarrow> FileState" where
  "nodeFile kv = walFile (wal (kvStore kv))"

lemma nodeFile_update [simp]: "nodeFile (kv\<lparr>kvStore := s\<rparr>) = walFile (wal s)"
  by (simp add: nodeFile_def)

lemma closeAll_ready:
  "\<forall>kv \<in> set kvs. storeReady (kvStore kv) \<Longrightarrow>
    \<exists>kvs' es. closeAll kvs = Some (kvs', es) \<and> map nodeFile kvs' = map nodeFile kvs"
proof (induction kvs)
  case (Cons kv kvs)
  then obtain kvs' es where ih: "closeAll kvs = Some (kvs', es)" "map nodeFile kvs' = map nodeFile kvs" by auto
  have "Close (wal (kvStore kv)) =
      Some (fileClose (walFile (wal (kvStore kv))), (wal (kvStore kv))\<lparr>closed := True\<rparr>)"
    using Cons.prems by (simp add: Close_eq storeReady_def walReady_def)
  with ih show ?case by (simp add: nodeFile_def [of kv])
qed simp

lemma shutdown_ready:
  assumes "\<forall>kv \<in> set (kvNodes c). storeReady (kvStore kv)"
  shows "\<exists>c1 es errs. shutdown c = Some (c1, es, errs) \<and> map nodeFile (kvNodes c1) = map nodeFile (kvNodes c)"
proof -
  obtain kvs es where st: "stopAll (kvNodes c) = (kvs, es)" by fastforce
  then have "map kvStore kvs = map kvStore (kvNodes c)" "map nodeFile kvs = map nodeFile (kvNodes c)"
    "\<forall>kv \<in> set kvs. storeReady (kvStore kv)"
    using assms by (auto simp: stopAll_def nodeFile_def)
  with closeAll_ready [of kvs] st show ?thesis by (auto simp: shutdown_def)
qed

text \<open>C15. A process restart. From a state in which every store is ready, the shutdown returns,
  and a new process on the three files it leaves boots with the same maps. But its Raft nodes
  are those of a new cluster: term 0, no vote, an empty log, nothing committed or applied.
  So each store is now the start of its own node's log, and the replicas keep whatever they
  disagreed about.\<close>

theorem process_restart_forgets_raft:
  assumes "length (kvNodes c) = numNodes" and "\<forall>kv \<in> set (kvNodes c). storeReady (kvStore kv)"
    and "\<And>c1 es errs i. shutdown c = Some (c1, es, errs) \<Longrightarrow> i < numNodes \<Longrightarrow>
      opened (walPath i) = Inr (nodeFile (kvNodes c1 ! i))"
  shows "\<exists>c1 es errs c2. shutdown c = Some (c1, es, errs) \<and> boot None opened = Inr c2
    \<and> length (kvNodes c2) = numNodes \<and> raftNodes c2 = map (bootNode peers3) [0, 1, 2]
    \<and> (\<forall>i < numNodes. data (kvStore (kvNodes c2 ! i)) = data (kvStore (kvNodes c ! i))
        \<and> kvConsistent (data (kvStore (kvNodes c ! i))) (kvNodes c2 ! i)
        \<and> currentTerm (raftNodes c2 ! i) = 0 \<and> votedFor (raftNodes c2 ! i) = -1
        \<and> Entries (raftLog (raftNodes c2 ! i)) = [])"
proof -
  let ?f = "\<lambda>i. kvStore (kvNodes c ! i)"
  obtain c1 es errs where down: "shutdown c = Some (c1, es, errs)"
    and files: "map nodeFile (kvNodes c1) = map nodeFile (kvNodes c)"
    using shutdown_ready [OF assms(2)] by blast
  have "nodeFile (kvNodes c1 ! i) = walFile (wal (?f i))" if "i < numNodes" for i
  proof -
    have "length (kvNodes c1) = numNodes" using arg_cong [OF files, of length] assms(1) by simp
    with that assms(1) arg_cong [OF files, of "\<lambda>l. l ! i"] show ?thesis by (simp add: nodeFile_def)
  qed
  then have "\<forall>i \<in> set [0..<numNodes]. storeReady (?f i) \<and> opened (walPath i) = Inr (walFile (wal (?f i)))"
    using assms(1,2) assms(3) [OF down] by simp
  from bootStores_ready [OF this] obtain ss where
    ss: "bootStores opened [0..<numNodes] = Inr ss"
      "list_all2 (\<lambda>i t. storeReady t \<and> data t = data (?f i)) [0..<numNodes] ss" by blast
  let ?c2 = "\<lparr>kvNodes = map (\<lambda>(i, s). bootKVNode i s) (enumerate 0 ss), apiBus = NewBus\<rparr>"
  have up: "boot None opened = Inr ?c2" by (simp add: boot_def ss(1))
  have len: "length ss = numNodes" using ss(2) by (auto dest: list_all2_lengthD)
  have nth: "kvNodes ?c2 ! i = bootKVNode i (ss ! i)" if "i < numNodes" for i
    using that len by (simp add: nth_enumerate_eq)
  have store: "storeReady (ss ! i) \<and> data (ss ! i) = data (?f i)" if "i < numNodes" for i
    using list_all2_nthD [OF ss(2), of i] that by simp
  have fresh: "kvConsistent (data (?f i)) (bootKVNode i (ss ! i))" "currentTerm (bootNode peers3 (int i)) = 0"
    "votedFor (bootNode peers3 (int i)) = -1" "Entries (raftLog (bootNode peers3 (int i))) = []"
    if "i < numNodes" for i
    using store [OF that]
    by (simp_all add: kvConsistent_def bootKVNode_raft bootNode_def NewRaftNode_def SetApplyFunc_def
        SetTransport_def SetPeers_def SetEventBus_def logWf_def logSmall_def)
  have "raftNodes ?c2 = map (\<lambda>i. bootNode peers3 (int i)) [0..<numNodes]"
    using len by (intro nth_equalityI) (simp_all add: nth nth_enumerate_eq bootKVNode_raft raftNodes_def)
  moreover from this have "raftNodes ?c2 ! i = bootNode peers3 (int i)" if "i < numNodes" for i
    using that by simp
  ultimately show ?thesis
    using down up len nth store fresh
    by (intro exI [of _ ?c2] exI conjI) (auto simp: bootKVNode_raft numNodes_def upt_conv_Cons)
qed

lemma process_restart_forgets_raft_witness:
  "\<exists>c2. boot None (\<lambda>path. Inr (walFile freshWAL)) = Inr c2
    \<and> currentTerm (raftNodes c2 ! 1) = 0 \<and> data (kvStore (kvNodes c2 ! 1)) = Map.empty"
proof -
  have ready: "\<forall>kv \<in> set (kvNodes threeNodes). storeReady (kvStore kv)"
    by (simp add: threeNodes_def)
  have nodes: "map nodeFile (kvNodes threeNodes) = replicate 3 (walFile freshWAL)"
    "data (kvStore (kvNodes threeNodes ! 1)) = Map.empty"
    by (simp_all add: threeNodes_def nodeFile_def numeral_3_eq_3)
  have "Inr (walFile freshWAL) = Inr (nodeFile (kvNodes c1 ! i))"
    if "shutdown threeNodes = Some (c1, es, errs)" and "i < numNodes" for c1 es errs i
  proof -
    have files: "map nodeFile (kvNodes c1) = replicate 3 (walFile freshWAL)"
      using shutdown_ready [OF ready] that(1) nodes(1) by auto
    then have "length (kvNodes c1) = 3" by (metis length_map length_replicate)
    with that(2) arg_cong [OF files, of "\<lambda>l. l ! i"] show ?thesis by (simp add: numNodes_def)
  qed
  then obtain c2 where "boot None (\<lambda>path. Inr (walFile freshWAL)) = Inr c2"
    and c2: "\<forall>i < numNodes. data (kvStore (kvNodes c2 ! i)) = data (kvStore (kvNodes threeNodes ! i))
      \<and> currentTerm (raftNodes c2 ! i) = 0"
    using process_restart_forgets_raft [OF _ ready, of "\<lambda>path. Inr (walFile freshWAL)"]
    by (fastforce simp: numNodes_def)
  moreover have "1 < numNodes" by (simp add: numNodes_def)
  ultimately show ?thesis using nodes(2) by metis
qed

end
