(* ===== verification/Spec2Isabelle.thy ===== *)
theory Spec2Isabelle
  imports Store_Proofs Wal_Close Raft_Proofs Kv_Node Progress Http_Cluster Leaderless Raft_Transport Http_Proofs Server
begin

text \<open>
  A verification library for kv-store, a replicated key-value store in Go: a write-ahead log and
  a store per node, Raft between the nodes, an HTTP API over them (src/kv-store/).

  \<^bold>\<open>The program.\<close> cmd/server/main.go starts three nodes in one process. A client's PUT reaches a
  KV node through internal/httpapi; if its Raft node leads, the command is appended to the
  Raft log (\<open>Start\<close>) and the client is answered at once. Heartbeats carry the log to the other
  nodes (over internal/raft/http_transport.go), a majority commits it, and every node hands the
  committed commands, in order, to \<open>applyFunc\<close>, which writes them to the node's own
  write-ahead log (internal/wal) and then to its map (internal/store). Raft's own state is in
  memory only. Every step reports to an event bus (internal/events) that the API streams.

  \<^bold>\<open>The theories.\<close>
  \<^item> \<open>Prelude\<close>, \<open>Go_Strings\<close>: Go's integers as words, strings as byte sequences, errors as
    values, the library functions on strings that the code calls.
  \<^item> \<open>Crc32\<close>, \<open>Wal_Codec\<close> (wal.go, \<open>Encode\<close> and \<open>decodeRecord\<close>): the record format with its
    checksum, the round trip, the accepted inputs, the detection of a changed byte.
  \<^item> \<open>Wal\<close>, \<open>Wal_Proofs\<close> (wal.go): the file with its faults as inputs, \<open>Append\<close>, the commit
    goroutine, \<open>Replay\<close>, \<open>Close\<close>; what a torn or corrupt file replays to, group commit, when
    \<open>Close\<close> returns. \<open>Wal_Queue\<close>: the same log under concurrent clients, as a step relation;
    the order of the answers, and the one way in which everything can stop. \<open>Wal_Close\<close>: Close
    wherever the commit goroutine is, and exactly when it returns.
  \<^item> \<open>Durable_Log\<close>: the interface between log and store, a locale; \<open>Store\<close>, \<open>Store_Proofs\<close>
    (store.go) interpret it: the store refines a map, is recovered from its log, and applies
    numbered records in any order of arrival.
  \<^item> \<open>Raft_Log\<close> (log.go), \<open>Raft_Node\<close> (node.go), \<open>Raft_Rpc\<close> (vote.go, append_entries.go),
    \<open>Raft_Proofs\<close>: one function per critical section of a node, returning the node and the list
    of its effects; what each decides and changes on every branch.
  \<^item> \<open>Majority\<close>: the rule of a majority as a locale, interpreted for votes and for commits.
  \<^item> \<open>Cluster\<close>: the nodes of main.go, the messages and goroutines between them, and one action
    per critical section; a run is any sequence of enabled actions, so every schedule, delay and
    loss is covered. \<open>Vote_Invariant\<close>, \<open>Election_Safety\<close>: at most one leader per term.
    \<open>Log_Matching\<close>: equal terms at an index mean equal logs up to it. \<open>Leader_Logs\<close>,
    \<open>Ack_Invariant\<close>, \<open>Ack_Steps\<close>, \<open>Leader_Completeness\<close>: what a majority holds, up to an entry of
    the leader's own term, is in the log of every later leader; three histories (votes, leader
    logs, acknowledgements) stand beside the state, and every action keeps what they promise.
    \<open>State_Machine_Safety\<close>: if no leader commits at an entry of an older term, what two nodes hand
    to \<open>applyFunc\<close> never contradicts; the test that \<open>updateCommitIndex\<close> lacks is
    the only obstacle. \<open>Leaderless\<close>: a cluster that loses its leader for good.
    \<open>Replication\<close>, \<open>Lead_Moves\<close>, \<open>Convergence\<close>: a leader can bring a running peer's log up to date.
    \<open>Electability\<close>, \<open>Progress\<close>: a running majority can elect an up-to-date node with an armed timer and
    have a client's command committed and applied, from any state reached without a restart.
  \<^item> \<open>State_Machine\<close>: the interface of \<open>applyFunc\<close>, a locale; \<open>Kv_Node\<close> (kv_node.go):
    a Raft node with its store; the store is the fold of the applied prefix of the log, through
    every handler, so replicas that applied equally far agree.
  \<^item> \<open>Http_Transport\<close> (http_transport.go, http_handler.go, mock_transport.go): what a message
    is after encoding/json, the handlers, the client, and the comparison with the local transport.
    \<open>Raft_Transport\<close>: the interface \<open>Transport\<close> as a locale with both as interpretations, and
    replication over it under any faults. \<open>Http_Cluster\<close>: the steps of the cluster over HTTP, as
    main.go deploys it; when clients submit texts only, its runs are those of \<open>Cluster\<close>, state by
    state, so the theorems about runs carry over, and the replicas' stores agree.
  \<^item> \<open>Events\<close> (events.go): the bus; \<open>Publish\<close> in two halves, as other goroutines run between.
  \<^item> \<open>Http_Api\<close>, \<open>Http_Proofs\<close> (handler.go): routes, requests, answers, node control, and the stream
    as a loop that runs between the publications and the other clients.
  \<^item> \<open>Server\<close> (main.go): boot from three files, the handler of port 8080, shutdown.

  \<^bold>\<open>Correspondence.\<close> A struct is a record with the code's field names where they are free; a
  Go map is a partial map, or an association list where its order can be seen; a channel is the
  list of what it holds. A method that takes a mutex once is one function; one that takes it
  several times has an argument for what others do in between, or is split. An error or a
  panic is a value, and a call that need not return gives an option.

  \<^bold>\<open>What does not hold.\<close> The theorems are about the code as it is. Where the code falls short of
  Raft or of its documentation there is a theorem with the behaviour: a committed command can be
  replaced, which leaves the commit index beyond the log (\<open>committed_entry_replaced\<close>), a restarted
  node votes twice in a term (\<open>restart_gives_two_leaders\<close>; election safety and what rests on it are for
  runs without restarts), a cluster can stay without a leader although a majority runs
  (\<open>leaderless_for_good\<close>), a write after a failed one never shows, a torn tail can swallow the next
  record, the queue and \<open>Close\<close> can block for good (\<open>Close\<close> also while a batch is being collected),
  invalid UTF-8 does not survive the transport, a process restart forgets Raft's state.

  \<^bold>\<open>Bounds.\<close> Indices and terms are 64-bit words; theorems that need it assume a log shorter than
  \<open>2 ^ 63\<close> (the code converts indices to \<open>int\<close>) and runs shorter than \<open>2 ^ 60\<close> actions, far beyond
  what a process can do (in \<open>Progress\<close>, which counts the actions of a continuation, up to \<open>2 ^ 30\<close>
  actions before it and a million nodes). The capacities are those of the code: 1024 queued
  records, 256 events per subscriber, 1000 recent events. There is no fuel: loops are terminating functions, or
  partial functions whose value \<open>None\<close> is not returning.

  \<^bold>\<open>Not modelled.\<close> internal/snapshot is empty. The syntax of JSON and HTTP, sockets and
  ServeMux's redirects of unclean paths, because the code leaves them to the standard library:
  bodies are given decoded. Real time: a timer may fire at any moment. The sharing of a backing
  array between a log and the slices taken from it. The file server, the printing, the
  dashboard, tests and benchmarks.
\<close>

end
